(* ===== verification/Gw_Prelude.thy ===== *)
theory Gw_Prelude
  imports Main "HOL-Library.Multiset" "HOL-Library.Char_ord" "HOL-Library.List_Lexorder"
    "HOL-Library.Sublist"
begin

text \<open>
  Shared vocabulary of the gateway development: the part of the C and C++ standard library that
  the gateway uses on byte strings (\<^verbatim>\<open>std::string::find\<close>, \<^verbatim>\<open>memmem\<close>, \<^verbatim>\<open>memchr\<close>, \<^verbatim>\<open>std::to_string\<close>),
  \<^verbatim>\<open>size_t\<close> arithmetic, \<^verbatim>\<open>std::map\<close> as a key-ordered association list, \<^verbatim>\<open>std::sort\<close> as an
  insertion sort over a comparator, and the generic list lemmas the component theories rest on.
  A byte string is a \<^typ>\<open>string\<close>: the type \<^typ>\<open>char\<close> has exactly 256 values, one per byte.
\<close>

named_theorems gw_search \<open>facts about searching in byte strings\<close>
named_theorems gw_inv \<open>operations keep the invariant of their component\<close>

type_synonym bytes = string

section \<open>Byte constants\<close>

definition CR :: char where "CR = CHR 0x0D"
definition LF :: char where "LF = CHR 0x0A"
definition TAB :: char where "TAB = CHR 0x09"
definition DQUOTE :: char where "DQUOTE = CHR 0x22"

definition crlf :: bytes where "crlf = [CR, LF]"
definition crlf2 :: bytes where "crlf2 = [CR, LF, CR, LF]"

section \<open>Searching\<close>

text \<open>\<open>find_sub p s\<close> is \<^verbatim>\<open>s.find(p)\<close> and the offset \<^verbatim>\<open>memmem\<close> returns: the first position at
  which \<open>p\<close> occurs, \<^const>\<open>None\<close> for \<^verbatim>\<open>npos\<close> or a null pointer.\<close>

fun find_sub :: "'a list \<Rightarrow> 'a list \<Rightarrow> nat option" where
  "find_sub p [] = (if p = [] then Some 0 else None)"
| "find_sub p (x # xs) =
     (if prefix p (x # xs) then Some 0 else map_option Suc (find_sub p xs))"

text \<open>\<open>find_sub_from p k s\<close> is \<^verbatim>\<open>s.find(p, k)\<close>.\<close>

definition find_sub_from :: "'a list \<Rightarrow> nat \<Rightarrow> 'a list \<Rightarrow> nat option" where
  "find_sub_from p k s = (if length s < k then None else map_option ((+) k) (find_sub p (drop k s)))"

text \<open>\<open>find_char c s\<close> is \<^verbatim>\<open>memchr\<close> and \<^verbatim>\<open>s.find(c)\<close>.\<close>

fun find_char :: "'a \<Rightarrow> 'a list \<Rightarrow> nat option" where
  "find_char c [] = None"
| "find_char c (x # xs) = (if x = c then Some 0 else map_option Suc (find_char c xs))"

text \<open>The loop \<^verbatim>\<open>while (p < end && (*p == ' ' || *p == '\t')) ++p\<close> that every header parser
  of the gateway contains.\<close>

fun skip_blanks :: "bytes \<Rightarrow> bytes" where
  "skip_blanks [] = []"
| "skip_blanks (c # cs) = (if c = CHR '' '' \<or> c = TAB then skip_blanks cs else c # cs)"

section \<open>Decimal printing\<close>

definition digit_char :: "nat \<Rightarrow> char" where
  "digit_char d = char_of (48 + d)"

fun show_nat :: "nat \<Rightarrow> string" where
  "show_nat n = (if n < 10 then [digit_char n] else show_nat (n div 10) @ [digit_char (n mod 10)])"

declare show_nat.simps [simp del]

definition show_int :: "int \<Rightarrow> string" where
  "show_int i = (if i < 0 then CHR ''-'' # show_nat (nat (- i)) else show_nat (nat i))"

section \<open>Unsigned 64-bit arithmetic\<close>

text \<open>\<^verbatim>\<open>size_t\<close> values are natural numbers below \<open>2 ^ 64\<close>. Where an expression of the source can
  leave that range the wrap-around is written out with these two functions.\<close>

definition size_mod :: nat where "size_mod = 2 ^ 64"

definition add64 :: "nat \<Rightarrow> nat \<Rightarrow> nat" where
  "add64 a b = (a + b) mod size_mod"

definition sub64 :: "nat \<Rightarrow> nat \<Rightarrow> nat" where
  "sub64 a b = nat ((int a - int b) mod int size_mod)"

text \<open>\<open>to_int32 i\<close> is what a 32-bit \<^verbatim>\<open>int\<close> holds of \<open>i\<close>: the conversion from a wider type, and the two's
  complement result of an operation that overflows (which C++ leaves undefined).\<close>

definition to_int32 :: "int \<Rightarrow> int" where
  "to_int32 i = (let m = i mod 2 ^ 32 in if m < 2 ^ 31 then m else m - 2 ^ 32)"

section \<open>Ordered maps\<close>

text \<open>\<^verbatim>\<open>std::map<std::string, T>\<close> is iterated in key order, so it is an association list whose keys
  increase strictly. \<open>smap_put k v m\<close> is \<^verbatim>\<open>m[k] = v\<close>; lookup is \<^const>\<open>map_of\<close>.\<close>

type_synonym 'v smap = "(string \<times> 'v) list"

fun smap_put :: "string \<Rightarrow> 'v \<Rightarrow> 'v smap \<Rightarrow> 'v smap" where
  "smap_put k v [] = [(k, v)]"
| "smap_put k v ((a, b) # m) =
     (if k < a then (k, v) # (a, b) # m
      else if k = a then (k, v) # m
      else (a, b) # smap_put k v m)"

definition smap_ok :: "'v smap \<Rightarrow> bool" where
  "smap_ok m \<longleftrightarrow> sorted_wrt (<) (map fst m)"

section \<open>Sorting\<close>

text \<open>\<^verbatim>\<open>std::sort\<close> with a comparator \<open>lt\<close>: for up to sixteen elements, and in its final pass,
  libstdc++ runs an insertion sort that moves an element left while it is smaller than its left
  neighbour. What the standard promises of every implementation is \<open>is_sort_of\<close>: a permutation of
  the input in which no later element is smaller than an earlier one.\<close>

fun insert_by :: "('a \<Rightarrow> 'a \<Rightarrow> bool) \<Rightarrow> 'a \<Rightarrow> 'a list \<Rightarrow> 'a list" where
  "insert_by lt x [] = [x]"
| "insert_by lt x (y # ys) = (if lt y x then y # insert_by lt x ys else x # y # ys)"

definition std_sort :: "('a \<Rightarrow> 'a \<Rightarrow> bool) \<Rightarrow> 'a list \<Rightarrow> 'a list" where
  "std_sort lt xs = foldr (insert_by lt) xs []"

definition is_sort_of :: "('a \<Rightarrow> 'a \<Rightarrow> bool) \<Rightarrow> 'a list \<Rightarrow> 'a list \<Rightarrow> bool" where
  "is_sort_of lt xs ys \<longleftrightarrow> mset ys = mset xs \<and> sorted_wrt (\<lambda>a b. \<not> lt b a) ys"

lemma set_insert_by [simp]: "set (insert_by lt x xs) = insert x (set xs)"
  by (induction xs) auto

lemma mset_insert_by [simp]: "mset (insert_by lt x xs) = add_mset x (mset xs)"
  by (induction xs) auto

lemma mset_std_sort [simp]: "mset (std_sort lt xs) = mset xs"
  by (induction xs) (simp_all add: std_sort_def)

text \<open>A comparator that \<^verbatim>\<open>std::sort\<close> accepts is a strict weak order.\<close>

locale strict_weak_order =
  fixes lt :: "'a \<Rightarrow> 'a \<Rightarrow> bool"
  assumes irrefl: "\<not> lt x x"
    and trans: "lt x y \<Longrightarrow> lt y z \<Longrightarrow> lt x z"
    and incomp_trans: "\<not> lt x y \<Longrightarrow> \<not> lt y x \<Longrightarrow> \<not> lt y z \<Longrightarrow> \<not> lt z y \<Longrightarrow> \<not> lt x z"
begin

lemma not_lt_trans:
  assumes "\<not> lt y x" and "\<not> lt z y"
  shows "\<not> lt z x"
proof
  assume zx: "lt z x"
  have "\<not> lt x y" using zx trans[of z x y] assms(2) by blast
  moreover have "\<not> lt y z" using zx trans[of y z x] assms(1) by blast
  ultimately show False using incomp_trans[of z y x] assms zx by blast
qed

lemma asym: "lt x y \<Longrightarrow> \<not> lt y x"
  using irrefl trans by blast

lemma insert_by_sorted:
  "sorted_wrt (\<lambda>a b. \<not> lt b a) xs \<Longrightarrow> sorted_wrt (\<lambda>a b. \<not> lt b a) (insert_by lt x xs)"
proof (induction xs)
  case (Cons y ys)
  show ?case
  proof (cases "lt y x")
    case True
    then show ?thesis using Cons asym[OF True] by (simp add: set_insert_by)
  next
    case False
    have "\<not> lt z x" if "z \<in> set ys" for z
      using that Cons.prems not_lt_trans[OF False, of z] by simp
    with False Cons.prems show ?thesis by simp
  qed
qed simp

lemma std_sort_is_sort: "is_sort_of lt xs (std_sort lt xs)"
proof -
  have "sorted_wrt (\<lambda>a b. \<not> lt b a) (std_sort lt xs)"
    by (induction xs) (simp_all add: std_sort_def insert_by_sorted)
  then show ?thesis by (simp add: is_sort_of_def mset_std_sort)
qed

end

section \<open>Lemmas on lists\<close>

lemma take_length_append: "take (length xs) (xs @ ys) = xs"
  by simp

lemma drop_length_append: "drop (length xs) (xs @ ys) = ys"
  by simp

section \<open>Lemmas on searching\<close>

lemma find_sub_SomeD:
  "find_sub p s = Some i \<Longrightarrow> i + length p \<le> length s \<and> prefix p (drop i s)"
proof (induction p s arbitrary: i rule: find_sub.induct)
  case (2 p x xs)
  then show ?case
    by (auto split: if_splits dest: prefix_length_le)
qed (auto split: if_splits)

lemma find_sub_first: "find_sub p s = Some i \<Longrightarrow> j < i \<Longrightarrow> \<not> prefix p (drop j s)"
proof (induction p s arbitrary: i j rule: find_sub.induct)
  case (2 p x xs)
  then show ?case
    by (cases j) (auto split: if_splits)
qed (auto split: if_splits)

lemma find_sub_NoneD: "find_sub p s = None \<Longrightarrow> \<not> prefix p (drop j s)"
proof (induction p s arbitrary: j rule: find_sub.induct)
  case (2 p x xs)
  then show ?case
    by (cases j) (auto split: if_splits)
qed (auto split: if_splits)

lemma find_sub_SomeI:
  assumes "prefix p (drop i s)" and "i \<le> length s" and "\<And>j. j < i \<Longrightarrow> \<not> prefix p (drop j s)"
  shows "find_sub p s = Some i"
proof (cases "find_sub p s")
  case None
  then show ?thesis using assms(1) find_sub_NoneD by blast
next
  case (Some k)
  then have "prefix p (drop k s)" by (simp add: find_sub_SomeD)
  with assms Some show ?thesis
    by (metis find_sub_first linorder_neqE_nat)
qed

lemma find_sub_split [gw_search]:
  assumes "find_sub p s = Some i"
  shows "s = take i s @ p @ drop (i + length p) s"
proof -
  from find_sub_SomeD[OF assms] obtain v where v: "drop i s = p @ v"
    by (auto simp: prefix_def)
  then have "drop (i + length p) s = v"
    by (metis add.commute append_eq_conv_conj drop_drop)
  with v show ?thesis
    by (metis append_take_drop_id)
qed

lemma find_sub_append_Some:
  "find_sub p s = Some i \<Longrightarrow> find_sub p (s @ t) = Some i"
proof (rule find_sub_SomeI)
  assume a: "find_sub p s = Some i"
  from find_sub_SomeD[OF a] show "prefix p (drop i (s @ t))"
    by auto
  from find_sub_SomeD[OF a] show "i \<le> length (s @ t)" by simp
  fix j assume j: "j < i"
  from find_sub_first[OF a j] find_sub_SomeD[OF a] j
  show "\<not> prefix p (drop j (s @ t))"
    by (auto simp: prefix_append prefix_length_le dest: prefix_length_le)
qed

lemma find_char_Some_iff:
  "find_char c s = Some i \<longleftrightarrow> i < length s \<and> s ! i = c \<and> c \<notin> set (take i s)"
proof (induction s arbitrary: i)
  case (Cons x xs)
  then show ?case by (cases i) auto
qed simp

lemma find_char_None_iff [simp]: "find_char c s = None \<longleftrightarrow> c \<notin> set s"
  by (induction s) auto

lemma find_char_append [simp]: "c \<notin> set u \<Longrightarrow> find_char c (u @ c # v) = Some (length u)"
  by (induction u) auto

lemma find_char_SomeD: "find_char c s = Some i \<Longrightarrow> i < length s \<and> s ! i = c"
  by (auto simp: find_char_Some_iff)

section \<open>Lemmas on ordered maps\<close>

lemma map_of_smap_put [simp]: "map_of (smap_put k v m) = (map_of m)(k \<mapsto> v)"
  by (induction m) (auto simp: fun_eq_iff)

lemma set_fst_smap_put: "fst ` set (smap_put k v m) = insert k (fst ` set m)"
  by (induction k v m rule: smap_put.induct) (auto simp: image_iff)

lemma smap_ok_Cons:
  "smap_ok ((a, b) # m) \<longleftrightarrow> (\<forall>x \<in> fst ` set m. a < x) \<and> smap_ok m"
  by (auto simp: smap_ok_def)

lemma smap_ok_put [intro]: "smap_ok m \<Longrightarrow> smap_ok (smap_put k v m)"
proof (induction k v m rule: smap_put.induct)
  case (2 k v a b m)
  then show ?case
    by (simp add: smap_ok_Cons set_fst_smap_put) (meson order_less_trans linorder_cases)
qed (simp add: smap_ok_def)

lemma smap_ok_Nil [simp]: "smap_ok []"
  by (simp add: smap_ok_def)

section \<open>Lemmas on unsigned arithmetic\<close>

lemma sub64_le [simp]: "b \<le> a \<Longrightarrow> a < size_mod \<Longrightarrow> sub64 a b = a - b"
  by (simp add: sub64_def size_mod_def nat_mod_distrib flip: of_nat_diff)

lemma add64_small [simp]: "a + b < size_mod \<Longrightarrow> add64 a b = a + b"
  by (simp add: add64_def)

lemma add64_sub64_cancel: "a < size_mod \<Longrightarrow> b < size_mod \<Longrightarrow> add64 b (sub64 a b) = a"
proof -
  assume a: "a < size_mod" and b: "b < size_mod"
  have "int (add64 b (sub64 a b)) = (int b + (int a - int b) mod int size_mod) mod int size_mod"
    by (simp add: add64_def sub64_def of_nat_mod size_mod_def)
  also have "\<dots> = int a mod int size_mod"
    by (simp add: mod_simps)
  also have "\<dots> = int a" using a by simp
  finally show ?thesis by simp
qed

section \<open>Counting\<close>

definition tally :: "('a \<Rightarrow> nat) \<Rightarrow> 'a list \<Rightarrow> nat" where
  "tally f xs = sum_list (map f xs)"

lemma tally_append [simp]: "tally f (xs @ ys) = tally f xs + tally f ys"
  by (simp add: tally_def)

lemma tally_Nil [simp]: "tally f [] = 0" by (simp add: tally_def)
lemma tally_Cons [simp]: "tally f (x # xs) = f x + tally f xs" by (simp add: tally_def)

lemma tally_ge: "k < length xs \<Longrightarrow> f (xs ! k) \<le> tally f xs"
  using elem_le_sum_list[of k "map f xs"] by (simp add: tally_def)

lemma tally_update: "k < length xs \<Longrightarrow> tally f (xs[k := x]) + f (xs ! k) = tally f xs + f x"
  using tally_ge[of k xs f] by (simp add: tally_def map_update sum_list_update)

lemma tally_pos: "0 < tally f xs \<longleftrightarrow> (\<exists>x \<in> set xs. 0 < f x)"
  by (induction xs) auto

lemma in_set_update: "x \<in> set (xs[k := y]) \<Longrightarrow> x = y \<or> x \<in> set xs"
  using set_update_subset_insert[of xs k y] by blast

end
