(* ===== verification/Gw_Circuit_Breaker.thy ===== *)
theory Gw_Circuit_Breaker
  imports Gw_Prelude
begin

text \<open>
  The circuit breaker of \<^verbatim>\<open>src/src/proxy/circuit_breaker.cpp\<close>. Each public operation holds the
  mutex for its whole body, so an operation is one atomic step on the record below, and an
  interleaving of the worker threads is a sequence of such steps. The steady clock is read inside
  the operations; its value (nanoseconds) is the argument \<open>now\<close>. The counters are C++ \<^verbatim>\<open>int\<close>s
  that only count events, modelled as integers.
\<close>

section \<open>State and operations\<close>

datatype cb_state = CB_Closed | CB_Open | CB_HalfOpen

record circuit_breaker =
  failure_threshold :: int
  reset_timeout_ms :: int
  half_open_max_requests :: int
  cb_state_of :: cb_state
  failure_count :: int
  consecutive_failures :: int
  half_open_successes :: int
  half_open_requests :: int
  opened_at :: int

definition new_circuit_breaker :: "int \<Rightarrow> int \<Rightarrow> int \<Rightarrow> circuit_breaker" where
  "new_circuit_breaker threshold timeout_ms max_requests =
     \<lparr>failure_threshold = threshold, reset_timeout_ms = timeout_ms,
      half_open_max_requests = max_requests, cb_state_of = CB_Closed, failure_count = 0,
      consecutive_failures = 0, half_open_successes = 0, half_open_requests = 0, opened_at = 0\<rparr>"

definition transition_to_open :: "int \<Rightarrow> circuit_breaker \<Rightarrow> circuit_breaker" where
  "transition_to_open now cb =
     cb\<lparr>cb_state_of := CB_Open, opened_at := now, half_open_successes := 0,
        half_open_requests := 0\<rparr>"

definition try_transition_to_half_open :: "circuit_breaker \<Rightarrow> circuit_breaker" where
  "try_transition_to_half_open cb =
     cb\<lparr>cb_state_of := CB_HalfOpen, half_open_successes := 0, half_open_requests := 0\<rparr>"

definition reset_elapsed :: "int \<Rightarrow> circuit_breaker \<Rightarrow> bool" where
  "reset_elapsed now cb \<longleftrightarrow> reset_timeout_ms cb * 1000000 \<le> now - opened_at cb"

definition allow_request :: "int \<Rightarrow> circuit_breaker \<Rightarrow> bool \<times> circuit_breaker" where
  "allow_request now cb =
     (case cb_state_of cb of
        CB_Closed \<Rightarrow> (True, cb)
      | CB_Open \<Rightarrow>
          if reset_elapsed now cb then (True, try_transition_to_half_open cb) else (False, cb)
      | CB_HalfOpen \<Rightarrow>
          if half_open_requests cb < half_open_max_requests cb
          then (True, cb\<lparr>half_open_requests := half_open_requests cb + 1\<rparr>)
          else (False, cb))"

definition on_success :: "circuit_breaker \<Rightarrow> circuit_breaker" where
  "on_success cb0 =
     (let cb = cb0\<lparr>consecutive_failures := 0\<rparr> in
      case cb_state_of cb of
        CB_Closed \<Rightarrow> cb\<lparr>failure_count := 0\<rparr>
      | CB_HalfOpen \<Rightarrow>
          (let cb1 = cb\<lparr>half_open_successes := half_open_successes cb + 1\<rparr> in
           if half_open_requests cb1 \<le> half_open_successes cb1
           then cb1\<lparr>cb_state_of := CB_Closed, failure_count := 0, half_open_successes := 0,
                    half_open_requests := 0\<rparr>
           else cb1)
      | CB_Open \<Rightarrow> cb)"

definition on_failure :: "int \<Rightarrow> circuit_breaker \<Rightarrow> circuit_breaker" where
  "on_failure now cb0 =
     (let cb = cb0\<lparr>consecutive_failures := consecutive_failures cb0 + 1,
                   failure_count := failure_count cb0 + 1\<rparr> in
      case cb_state_of cb of
        CB_Closed \<Rightarrow>
          if failure_threshold cb \<le> failure_count cb then transition_to_open now cb else cb
      | CB_HalfOpen \<Rightarrow> transition_to_open now cb
      | CB_Open \<Rightarrow> cb\<lparr>opened_at := now\<rparr>)"

definition cb_reset :: "circuit_breaker \<Rightarrow> circuit_breaker" where
  "cb_reset cb =
     cb\<lparr>cb_state_of := CB_Closed, failure_count := 0, consecutive_failures := 0,
        half_open_successes := 0, half_open_requests := 0\<rparr>"

fun state_name :: "cb_state \<Rightarrow> string" where
  "state_name CB_Closed = ''CLOSED''"
| "state_name CB_Open = ''OPEN''"
| "state_name CB_HalfOpen = ''HALF_OPEN''"

section \<open>Interleavings of the public operations\<close>

datatype cb_event = Allow int | Success | Failure int | Reset

fun cb_step :: "cb_event \<Rightarrow> circuit_breaker \<Rightarrow> circuit_breaker" where
  "cb_step (Allow t) cb = snd (allow_request t cb)"
| "cb_step Success cb = on_success cb"
| "cb_step (Failure t) cb = on_failure t cb"
| "cb_step Reset cb = cb_reset cb"

definition cb_run :: "cb_event list \<Rightarrow> circuit_breaker \<Rightarrow> circuit_breaker" where
  "cb_run es cb = fold cb_step es cb"

text \<open>\<open>admitted ts cb\<close> calls \<^const>\<open>allow_request\<close> at the times \<open>ts\<close>, one call after the other
  with no result reported in between, and counts how many calls are let through.\<close>

fun admitted :: "int list \<Rightarrow> circuit_breaker \<Rightarrow> nat" where
  "admitted [] cb = 0"
| "admitted (t # ts) cb =
     (let (ok, cb') = allow_request t cb in (if ok then 1 else 0) + admitted ts cb')"

section \<open>Invariant\<close>

definition cb_inv :: "circuit_breaker \<Rightarrow> bool" where
  "cb_inv cb \<longleftrightarrow>
     0 \<le> failure_count cb \<and> 0 \<le> consecutive_failures cb
     \<and> (cb_state_of cb = CB_Closed \<longrightarrow> failure_count cb < failure_threshold cb)
     \<and> (cb_state_of cb \<noteq> CB_HalfOpen \<longrightarrow> half_open_requests cb = 0 \<and> half_open_successes cb = 0)
     \<and> 0 \<le> half_open_requests cb \<and> half_open_requests cb \<le> half_open_max_requests cb
     \<and> 0 \<le> half_open_successes cb
     \<and> (half_open_successes cb = 0 \<or> half_open_successes cb < half_open_requests cb)
     \<and> 0 < failure_threshold cb"

text \<open>The state diagram that the header of the class draws.\<close>

inductive documented_edge :: "cb_state \<Rightarrow> cb_state \<Rightarrow> bool" where
  trip: "documented_edge CB_Closed CB_Open"
| probe: "documented_edge CB_Open CB_HalfOpen"
| recover: "documented_edge CB_HalfOpen CB_Closed"
| reopen: "documented_edge CB_HalfOpen CB_Open"

inductive_simps documented_edge_simps:
  "documented_edge CB_Closed s" "documented_edge CB_Open s" "documented_edge CB_HalfOpen s"

lemmas cb_defs = allow_request_def on_success_def on_failure_def cb_reset_def
  transition_to_open_def try_transition_to_half_open_def

section \<open>Proofs\<close>

lemma cb_inv_new [gw_inv]:
  "0 < th \<Longrightarrow> 0 \<le> mx \<Longrightarrow> cb_inv (new_circuit_breaker th tmo mx)"
  by (simp add: cb_inv_def new_circuit_breaker_def)

lemma cb_inv_allow [gw_inv]: "cb_inv cb \<Longrightarrow> cb_inv (snd (allow_request t cb))"
  by (auto simp: cb_inv_def cb_defs split: cb_state.splits)

lemma cb_inv_success [gw_inv]: "cb_inv cb \<Longrightarrow> cb_inv (on_success cb)"
  by (auto simp: cb_inv_def cb_defs Let_def split: cb_state.splits)

lemma cb_inv_failure [gw_inv]: "cb_inv cb \<Longrightarrow> cb_inv (on_failure t cb)"
  by (auto simp: cb_inv_def cb_defs Let_def split: cb_state.splits)

lemma cb_inv_reset [gw_inv]: "cb_inv cb \<Longrightarrow> cb_inv (cb_reset cb)"
  by (auto simp: cb_inv_def cb_defs)

lemma cb_inv_step [gw_inv]: "cb_inv cb \<Longrightarrow> cb_inv (cb_step e cb)"
  by (cases e) (simp_all add: gw_inv)

lemma cb_inv_run: "cb_inv cb \<Longrightarrow> cb_inv (cb_run es cb)"
  by (induction es arbitrary: cb) (simp_all add: cb_run_def cb_inv_step)

lemma cb_params_step:
  "failure_threshold (cb_step e cb) = failure_threshold cb"
  "reset_timeout_ms (cb_step e cb) = reset_timeout_ms cb"
  "half_open_max_requests (cb_step e cb) = half_open_max_requests cb"
  by (cases e; auto simp: cb_defs Let_def split: cb_state.splits)+

lemma cb_run_Nil [simp]: "cb_run [] cb = cb"
  by (simp add: cb_run_def)

lemma cb_run_Cons [simp]: "cb_run (e # es) cb = cb_run es (cb_step e cb)"
  by (simp add: cb_run_def)

lemma allow_half_open_count:
  "cb_state_of cb = CB_HalfOpen \<Longrightarrow> half_open_requests cb \<le> half_open_max_requests cb \<Longrightarrow>
   admitted ts cb = min (length ts) (nat (half_open_max_requests cb - half_open_requests cb))"
proof (induction ts arbitrary: cb)
  case (Cons t ts)
  show ?case
  proof (cases "half_open_requests cb < half_open_max_requests cb")
    case True
    let ?cb' = "cb\<lparr>half_open_requests := half_open_requests cb + 1\<rparr>"
    have "admitted ts ?cb' = min (length ts) (nat (half_open_max_requests cb - half_open_requests cb - 1))"
      using Cons.IH[of ?cb'] Cons.prems True by (simp add: algebra_simps)
    with True Cons.prems show ?thesis
      by (auto simp: allow_request_def min_def)
  next
    case False
    with Cons.prems Cons.IH[of cb] show ?thesis
      by (simp add: allow_request_def)
  qed
qed simp

lemma failures_below_threshold:
  "cb_state_of cb = CB_Closed \<Longrightarrow> failure_count cb + int (length ts) < failure_threshold cb \<Longrightarrow>
   cb_state_of (cb_run (map Failure ts) cb) = CB_Closed
   \<and> failure_count (cb_run (map Failure ts) cb) = failure_count cb + int (length ts)
   \<and> failure_threshold (cb_run (map Failure ts) cb) = failure_threshold cb"
proof (induction ts arbitrary: cb)
  case (Cons t ts)
  let ?cb' = "on_failure t cb"
  have "cb_state_of ?cb' = CB_Closed" and "failure_count ?cb' = failure_count cb + 1"
    and "failure_threshold ?cb' = failure_threshold cb"
    using Cons.prems by (simp_all add: on_failure_def)
  with Cons.IH[of ?cb'] Cons.prems show ?case by simp
qed simp

lemma cb_run_append: "cb_run (es @ fs) cb = cb_run fs (cb_run es cb)"
  by (simp add: cb_run_def)

section \<open>Properties\<close>

text \<open>C23: in every interleaving of the public operations, starting from a constructed breaker,
  the counters stay consistent with the state: a closed breaker is below its threshold, probe
  counters are zero outside the half-open state and bounded inside it, and every state change
  other than a manual reset is an edge of the documented diagram.\<close>

theorem cb_reachable_consistent:
  assumes "0 < th" and "0 \<le> mx"
  shows "cb_inv (cb_run es (new_circuit_breaker th tmo mx))
    \<and> (let cb = cb_run es (new_circuit_breaker th tmo mx); cb' = cb_step e cb in
         e = Reset \<or> cb_state_of cb' = cb_state_of cb
         \<or> documented_edge (cb_state_of cb) (cb_state_of cb'))"
proof -
  have "e = Reset \<or> cb_state_of (cb_step e cb) = cb_state_of cb
        \<or> documented_edge (cb_state_of cb) (cb_state_of (cb_step e cb))" for cb
    by (cases e) (auto simp: cb_defs Let_def documented_edge_simps split: cb_state.splits)
  with cb_inv_run[OF cb_inv_new[OF assms]] show ?thesis by (simp add: Let_def)
qed

theorem cb_reachable_consistent_witness:
  "0 < (5::int) \<and> 0 \<le> (3::int) \<and>
   cb_inv (cb_run [Failure 1, Allow 2, Success] (new_circuit_breaker 5 6000 3))"
  using cb_reachable_consistent[of 5 3 "[Failure 1, Allow 2, Success]" 6000 Reset] by simp

text \<open>a closed breaker with no recorded failure admits every request through the first
  \<open>threshold - 1\<close> consecutive failures and opens exactly at the failure that reaches the
  threshold, remembering the time of that failure.\<close>

theorem cb_trips_at_threshold:
  assumes "cb_state_of cb = CB_Closed" and "failure_count cb = 0"
    and "int (length ts) + 1 = failure_threshold cb"
  shows "cb_state_of (cb_run (map Failure ts) cb) = CB_Closed
    \<and> fst (allow_request now (cb_run (map Failure ts) cb))
    \<and> cb_state_of (cb_run (map Failure (ts @ [t])) cb) = CB_Open
    \<and> opened_at (cb_run (map Failure (ts @ [t])) cb) = t"
proof -
  have f: "cb_state_of (cb_run (map Failure ts) cb) = CB_Closed"
    "failure_count (cb_run (map Failure ts) cb) = int (length ts)"
    "failure_threshold (cb_run (map Failure ts) cb) = failure_threshold cb"
    using failures_below_threshold[OF assms(1), of ts] assms(2,3) by simp_all
  then show ?thesis
    using assms(3)
    by (simp add: cb_run_append allow_request_def on_failure_def transition_to_open_def)
qed

theorem cb_trips_at_threshold_witness:
  "cb_state_of (cb_run (map Failure ([1, 2, 3, 4] @ [9])) (new_circuit_breaker 5 6000 3)) = CB_Open"
proof -
  have "cb_state_of (new_circuit_breaker 5 6000 3) = CB_Closed"
    and "failure_count (new_circuit_breaker 5 6000 3) = 0"
    and "int (length [1, 2, 3, 4 :: int]) + 1 = failure_threshold (new_circuit_breaker 5 6000 3)"
    by (simp_all add: new_circuit_breaker_def)
  from cb_trips_at_threshold[OF this, of 7 9] show ?thesis by blast
qed

text \<open>an open breaker fails fast: until \<open>reset_timeout_ms\<close> has passed since it opened, it
  refuses every request and the calls leave it unchanged.\<close>

theorem cb_open_fails_fast:
  assumes "cb_state_of cb = CB_Open"
    and "\<forall>t \<in> set ts. t < opened_at cb + reset_timeout_ms cb * 1000000"
  shows "admitted ts cb = 0 \<and> cb_run (map Allow ts) cb = cb"
  using assms
  by (induction ts) (auto simp: allow_request_def reset_elapsed_def)

theorem cb_open_fails_fast_witness:
  "admitted [10, 5999999999] (on_failure 0 (new_circuit_breaker 1 6000 3)) = 0"
proof -
  let ?cb = "on_failure 0 (new_circuit_breaker 1 6000 3)"
  have "cb_state_of ?cb = CB_Open"
    and "\<forall>t \<in> set [10, 5999999999]. t < opened_at ?cb + reset_timeout_ms ?cb * 1000000"
    by (simp_all add: on_failure_def new_circuit_breaker_def transition_to_open_def)
  from cb_open_fails_fast[OF this] show ?thesis by blast
qed

text \<open>once the reset timeout has passed, the calls that arrive before any result is reported
  are admitted up to a limit and refused beyond it. The limit is \<open>half_open_max_requests + 1\<close>:
  the call that moves the breaker to the half-open state is admitted without being counted, so one
  request more than the configured number of probes gets through.\<close>

theorem cb_half_open_admits:
  assumes "cb_state_of cb = CB_Open" and "reset_elapsed t cb" and "0 \<le> half_open_max_requests cb"
  shows "admitted (t # ts) cb = min (length (t # ts)) (Suc (nat (half_open_max_requests cb)))"
  using assms allow_half_open_count[of "try_transition_to_half_open cb" ts]
  by (simp add: allow_request_def try_transition_to_half_open_def)

theorem cb_half_open_admits_witness:
  "admitted [6000000000, 1, 1, 1, 1, 1] (on_failure 0 (new_circuit_breaker 1 6000 3)) = 4"
proof -
  let ?cb = "on_failure 0 (new_circuit_breaker 1 6000 3)"
  have "cb_state_of ?cb = CB_Open" and "reset_elapsed 6000000000 ?cb"
    and "0 \<le> half_open_max_requests ?cb" and "half_open_max_requests ?cb = 3"
    by (simp_all add: on_failure_def new_circuit_breaker_def transition_to_open_def
        reset_elapsed_def)
  with cb_half_open_admits[OF this(1,2,3), of "[1, 1, 1, 1, 1]"] show ?thesis by simp
qed

end
