(* ===== verification/Gw_Config.thy ===== *)
theory Gw_Config
  imports Gw_Prelude
begin

text \<open>
  The configuration structures of \<^verbatim>\<open>src/include/gateway/core/config.h\<close>, the default configuration
  of \<^verbatim>\<open>src/src/core/config.cpp\<close>, and the key \<^verbatim>\<open>host:port\<close> under which the load balancer, the
  connection pool, the health checker and the table of circuit breakers file a backend.
\<close>

record backend =
  be_host :: string
  be_port :: int

record route =
  rt_prefix :: string
  rt_backends :: "backend list"

record gateway_config =
  listen_port :: int
  keep_alive_timeout_sec :: int
  thread_count :: int
  backend_timeout_ms :: int
  max_request_size :: int
  max_epoll_events :: int
  idle_cleanup_interval_sec :: int
  pool_max_idle_per_host :: int
  pool_idle_timeout_sec :: int
  max_connections :: int
  max_queue_size :: int
  max_deferred_per_round :: int
  cfg_routes :: "route list"

text \<open>The member initialisers of \<^verbatim>\<open>struct GatewayConfig\<close>.\<close>

definition gateway_config_init :: gateway_config where
  "gateway_config_init =
     \<lparr>listen_port = 8080, keep_alive_timeout_sec = 10, thread_count = 4,
      backend_timeout_ms = 3000, max_request_size = 65536, max_epoll_events = 512,
      idle_cleanup_interval_sec = 5, pool_max_idle_per_host = 10, pool_idle_timeout_sec = 60,
      max_connections = 10000, max_queue_size = 2048, max_deferred_per_round = 256,
      cfg_routes = []\<rparr>"

definition load_default_config :: gateway_config where
  "load_default_config =
     gateway_config_init
       \<lparr>listen_port := 8080, keep_alive_timeout_sec := 10, thread_count := 4,
        backend_timeout_ms := 3000, max_request_size := 65536, pool_max_idle_per_host := 10,
        pool_idle_timeout_sec := 60, max_epoll_events := 512, idle_cleanup_interval_sec := 5,
        max_connections := 10000, max_queue_size := 2048, max_deferred_per_round := 256,
        cfg_routes :=
          [\<lparr>rt_prefix = ''/api/user'',
            rt_backends = [\<lparr>be_host = ''127.0.0.1'', be_port = 9001\<rparr>]\<rparr>,
           \<lparr>rt_prefix = ''/api/order'',
            rt_backends = [\<lparr>be_host = ''127.0.0.1'', be_port = 9002\<rparr>]\<rparr>]\<rparr>"

definition make_key :: "backend \<Rightarrow> string" where
  "make_key b = be_host b @ '':'' @ show_int (be_port b)"

section \<open>Decimal numerals determine the number\<close>

definition is_digit :: "char \<Rightarrow> bool" where
  "is_digit c \<longleftrightarrow> 48 \<le> (of_char c :: nat) \<and> (of_char c :: nat) \<le> 57"

definition digit_val :: "char \<Rightarrow> nat" where
  "digit_val c = of_char c - 48"

text \<open>The value of a run of decimal digits, most significant first.\<close>

definition digits_val :: "string \<Rightarrow> nat" where
  "digits_val = foldl (\<lambda>n c. 10 * n + digit_val c) 0"

lemma is_digit_digit_char [simp]: "d < 10 \<Longrightarrow> is_digit (digit_char d)"
  by (simp add: is_digit_def digit_char_def)

lemma digit_val_digit_char [simp]: "d < 10 \<Longrightarrow> digit_val (digit_char d) = d"
  by (simp add: digit_val_def digit_char_def)

lemma digits_val_snoc [simp]: "digits_val (ds @ [c]) = 10 * digits_val ds + digit_val c"
  by (simp add: digits_val_def)

lemma show_nat_digits: "c \<in> set (show_nat n) \<Longrightarrow> is_digit c"
proof (induction n rule: show_nat.induct)
  case (1 n)
  show ?case
  proof (cases "n < 10")
    case True
    then show ?thesis using "1.prems" by (simp add: show_nat.simps[of n])
  next
    case False
    then show ?thesis using 1 by (auto simp: show_nat.simps[of n])
  qed
qed

lemma show_nat_nonempty [simp]: "show_nat n \<noteq> []"
  by (subst show_nat.simps) simp

lemma digits_val_show_nat [simp]: "digits_val (show_nat n) = n"
proof (induction n rule: show_nat.induct)
  case (1 n)
  show ?case
  proof (cases "n < 10")
    case True
    then show ?thesis by (simp add: show_nat.simps[of n] digits_val_def)
  next
    case False
    then have "digits_val (show_nat n) = 10 * (n div 10) + n mod 10"
      using 1 by (simp add: show_nat.simps[of n])
    then show ?thesis by simp
  qed
qed

lemma show_nat_inject [simp]: "show_nat m = show_nat n \<longleftrightarrow> m = n"
  by (metis digits_val_show_nat)

lemma show_nat_hd_not_minus: "show_nat n \<noteq> CHR ''-'' # ds"
  using show_nat_digits[of "CHR ''-''" n] by (auto simp: is_digit_def)

lemma show_int_inject [simp]: "show_int i = show_int j \<longleftrightarrow> i = j"
proof
  assume "show_int i = show_int j"
  then show "i = j"
    using show_nat_hd_not_minus[of "nat i"] show_nat_hd_not_minus[of "nat j"]
    by (auto simp: show_int_def eq_nat_nat_iff split: if_splits) (metis show_nat_hd_not_minus)
qed simp

lemma colon_notin_show_int: "CHR '':'' \<notin> set (show_int i)"
  using show_nat_digits[of "CHR '':''"] by (auto simp: show_int_def is_digit_def)

lemma append_sep_inject:
  assumes "xs @ c # ys = us @ c # vs" and "c \<notin> set ys" and "c \<notin> set vs"
  shows "xs = us \<and> ys = vs"
proof -
  have "rev ys @ c # rev xs = rev vs @ c # rev us"
    using arg_cong[OF assms(1), of rev] by simp
  moreover have "c \<notin> set (rev ys)" and "c \<notin> set (rev vs)"
    using assms(2,3) by simp_all
  ultimately have "rev ys = rev vs \<and> rev xs = rev us"
    by (metis append_eq_append_conv find_char_append option.inject list.inject)
  then show ?thesis by simp
qed

lemma make_key_inject: "make_key a = make_key b \<longleftrightarrow> be_host a = be_host b \<and> be_port a = be_port b"
  using append_sep_inject[of "be_host a" "CHR '':''" "show_int (be_port a)" "be_host b"
      "show_int (be_port b)"] colon_notin_show_int
  by (auto simp: make_key_def)

text \<open>two backends have the same \<^verbatim>\<open>host:port\<close> key only when they are the same backend, so no
  two backends share a circuit breaker, a pool entry or a health record.\<close>

theorem make_key_injective: "make_key a = make_key b \<longleftrightarrow> a = b"
  using make_key_inject by (auto intro: backend.equality)

end
