(* ===== verification/Gw_Router.thy ===== *)
theory Gw_Router
  imports Gw_Config
begin

text \<open>
  The router of \<^verbatim>\<open>src/src/core/router.cpp\<close>: the constructor sorts the routes, \<^verbatim>\<open>match\<close> returns the
  backends of the first route, in that order, whose prefix ends at a path-segment boundary of the
  request path. \<^verbatim>\<open>std::sort\<close> is not stable, so the properties speak of every sequence that the
  standard allows as its result (\<^const>\<open>is_sort_of\<close>).
\<close>

section \<open>Definitions\<close>

definition count_slashes :: "string \<Rightarrow> nat" where
  "count_slashes s = count_list s (CHR ''/'')"

definition route_before :: "route \<Rightarrow> route \<Rightarrow> bool" where
  "route_before a b =
     (if count_slashes (rt_prefix a) \<noteq> count_slashes (rt_prefix b)
      then count_slashes (rt_prefix b) < count_slashes (rt_prefix a)
      else length (rt_prefix b) < length (rt_prefix a))"

definition sort_routes :: "route list \<Rightarrow> route list" where
  "sort_routes rs = std_sort route_before rs"

text \<open>\<open>path.compare(0, n, prefix) == 0\<close> under the guard \<open>path.size() >= n\<close>, then the boundary test.\<close>

definition route_matches :: "string \<Rightarrow> route \<Rightarrow> bool" where
  "route_matches path r \<longleftrightarrow>
     length (rt_prefix r) \<le> length path \<and> take (length (rt_prefix r)) path = rt_prefix r
     \<and> (length (rt_prefix r) = length path \<or> path ! length (rt_prefix r) = CHR ''/'')"

fun router_match :: "route list \<Rightarrow> string \<Rightarrow> backend list option" where
  "router_match [] path = None"
| "router_match (r # rs) path =
     (if route_matches path r then Some (rt_backends r) else router_match rs path)"

definition router_lookup :: "route list \<Rightarrow> string \<Rightarrow> backend list option" where
  "router_lookup cfg path = router_match (sort_routes cfg) path"

section \<open>Proofs\<close>

lemma route_matches_prefix: "route_matches path r \<Longrightarrow> prefix (rt_prefix r) path"
  by (auto simp: route_matches_def) (metis take_is_prefix)

lemma count_slashes_prefix_le: "prefix p q \<Longrightarrow> count_slashes p \<le> count_slashes q"
  by (auto simp: prefix_def count_slashes_def)

text \<open>Among prefixes of one path the slash count never disagrees with the length.\<close>

lemma route_before_longer:
  assumes "route_matches path a" and "route_matches path b"
    and "length (rt_prefix b) < length (rt_prefix a)"
  shows "route_before a b"
proof -
  have "prefix (rt_prefix b) (rt_prefix a)"
    using assms route_matches_prefix prefix_length_prefix less_imp_le by blast
  then show ?thesis
    using assms(3) count_slashes_prefix_le by (force simp: route_before_def)
qed

interpretation route_order: strict_weak_order route_before
  by unfold_locales (auto simp: route_before_def split: if_splits)

lemma sort_routes_is_sort: "is_sort_of route_before rs (sort_routes rs)"
  unfolding sort_routes_def by (rule route_order.std_sort_is_sort)

lemma router_match_SomeE:
  assumes "router_match rs path = Some bs"
  obtains us r vs where "rs = us @ r # vs" and "\<forall>u \<in> set us. \<not> route_matches path u"
    and "route_matches path r" and "rt_backends r = bs"
proof -
  have "\<exists>us r vs. rs = us @ r # vs \<and> (\<forall>u \<in> set us. \<not> route_matches path u)
      \<and> route_matches path r \<and> rt_backends r = bs"
    using assms
  proof (induction rs)
    case (Cons x xs)
    show ?case
    proof (cases "route_matches path x")
      case True
      with Cons.prems show ?thesis by (intro exI[of _ "[]"]) auto
    next
      case False
      with Cons.prems Cons.IH obtain us r vs where "xs = us @ r # vs"
        "\<forall>u \<in> set us. \<not> route_matches path u" "route_matches path r" "rt_backends r = bs"
        by auto
      with False show ?thesis by (intro exI[of _ "x # us"]) auto
    qed
  qed simp
  with that show thesis by blast
qed

lemma router_match_None_iff:
  "router_match rs path = None \<longleftrightarrow> (\<forall>r \<in> set rs. \<not> route_matches path r)"
  by (induction rs) auto

lemma is_sort_of_set: "is_sort_of lt xs ys \<Longrightarrow> set ys = set xs"
  unfolding is_sort_of_def by (metis set_mset_mset)

section \<open>Properties\<close>

text \<open>C27: longest prefix match. Whatever order \<^verbatim>\<open>std::sort\<close> leaves equal elements in, the backends
  returned for a path are those of a configured route that matches the path at a segment boundary
  and no matching route has a longer prefix; no backends are returned exactly when no route
  matches. Sorting by the number of slashes first does not disturb this.\<close>

theorem router_longest_prefix:
  assumes "is_sort_of route_before cfg rs"
  shows "case router_match rs path of
      Some bs \<Rightarrow> \<exists>r \<in> set cfg. route_matches path r \<and> rt_backends r = bs
        \<and> (\<forall>r' \<in> set cfg. route_matches path r' \<longrightarrow> length (rt_prefix r') \<le> length (rt_prefix r))
    | None \<Rightarrow> \<forall>r \<in> set cfg. \<not> route_matches path r"
proof (cases "router_match rs path")
  case None
  then have "\<forall>r \<in> set cfg. \<not> route_matches path r"
    using is_sort_of_set[OF assms] by (simp add: router_match_None_iff)
  with None show ?thesis by simp
next
  case (Some bs)
  then obtain us r vs where rs: "rs = us @ r # vs"
    and us: "\<forall>u \<in> set us. \<not> route_matches path u"
    and r: "route_matches path r" "rt_backends r = bs"
    by (rule router_match_SomeE)
  have "length (rt_prefix r') \<le> length (rt_prefix r)"
    if "r' \<in> set cfg" and "route_matches path r'" for r'
  proof (rule ccontr)
    assume "\<not> length (rt_prefix r') \<le> length (rt_prefix r)"
    then have "route_before r' r"
      using route_before_longer[OF that(2) r(1)] by simp
    moreover have "r' = r \<or> r' \<in> set vs"
      using that us is_sort_of_set[OF assms] rs by auto
    ultimately show False
      using assms rs route_order.irrefl by (auto simp: is_sort_of_def sorted_wrt_append)
  qed
  moreover have "r \<in> set cfg"
    using is_sort_of_set[OF assms] rs by auto
  ultimately show ?thesis using Some r by auto
qed

definition two_level_routes :: "route list" where
  "two_level_routes =
     [\<lparr>rt_prefix = ''/api'', rt_backends = [\<lparr>be_host = ''A'', be_port = 1\<rparr>]\<rparr>,
      \<lparr>rt_prefix = ''/api/user'', rt_backends = [\<lparr>be_host = ''B'', be_port = 2\<rparr>]\<rparr>]"

theorem router_longest_prefix_witness:
  "router_match (sort_routes two_level_routes) ''/api/user/profile''
     = Some [\<lparr>be_host = ''B'', be_port = 2\<rparr>]
   \<and> (\<exists>r \<in> set two_level_routes. route_matches ''/api/user/profile'' r
        \<and> (\<forall>r' \<in> set two_level_routes. route_matches ''/api/user/profile'' r' \<longrightarrow>
             length (rt_prefix r') \<le> length (rt_prefix r)))"
proof -
  have m: "router_match (sort_routes two_level_routes) ''/api/user/profile''
     = Some [\<lparr>be_host = ''B'', be_port = 2\<rparr>]"
    by code_simp
  with router_longest_prefix[OF sort_routes_is_sort, of two_level_routes "''/api/user/profile''"]
  show ?thesis by auto
qed

text \<open>the segment boundary makes a prefix that ends in a slash nearly useless: the route
  \<^verbatim>\<open>/\<close> is no catch-all, it serves only the path \<^verbatim>\<open>/\<close> itself and paths that begin with two
  slashes.\<close>

theorem root_route_is_no_catch_all:
  "route_matches path \<lparr>rt_prefix = ''/'', rt_backends = bs\<rparr>
     \<longleftrightarrow> path = ''/'' \<or> prefix ''//'' path"
proof (cases path)
  case (Cons c cs)
  then show ?thesis by (cases cs) (auto simp: route_matches_def)
qed (simp add: route_matches_def)

end
