(* ===== verification/Gw_Utils.thy ===== *)
theory Gw_Utils
  imports Gw_Config
begin

text \<open>
  \<^verbatim>\<open>parse_int_safe\<close> of \<^verbatim>\<open>src/src/utils/utils.cpp\<close>, the one integer parser behind every
  \<^verbatim>\<open>Content-Length\<close> and status code of the gateway, together with the \<^verbatim>\<open>strtol\<close> of the C
  library that it calls. A pointer into a buffer is the list of bytes from that pointer to the end
  of the buffer; what follows the buffer is the terminating NUL of \<^verbatim>\<open>c_str()\<close>, which is neither
  blank nor a digit, so the list may simply end.
\<close>

definition c_isspace :: "char \<Rightarrow> bool" where
  "c_isspace c \<longleftrightarrow> c = CHR '' '' \<or> 9 \<le> (of_char c :: nat) \<and> (of_char c :: nat) \<le> 13"

definition long_max :: int where "long_max = 2 ^ 63 - 1"
definition long_min :: int where "long_min = - (2 ^ 63)"
definition int_max :: int where "int_max = 2147483647"

text \<open>The sign that \<^verbatim>\<open>strtol\<close> accepts: the factor and the number of bytes it takes.\<close>

fun strtol_sign :: "bytes \<Rightarrow> int \<times> nat" where
  "strtol_sign (c # cs) =
     (if c = CHR ''-'' then (-1, 1) else if c = CHR ''+'' then (1, 1) else (1, 0))"
| "strtol_sign [] = (1, 0)"

text \<open>\<open>strtol cs\<close> is \<^verbatim>\<open>strtol(p, &last, 10)\<close> for the buffer \<open>cs\<close> at \<open>p\<close>: the value, the offset
  \<open>last - p\<close>, and whether \<^verbatim>\<open>errno\<close> is set to \<^verbatim>\<open>ERANGE\<close>. Out of range values are clamped to the
  limits of \<^verbatim>\<open>long\<close>; with no digit at all nothing is consumed.\<close>

definition strtol :: "bytes \<Rightarrow> int \<times> nat \<times> bool" where
  "strtol cs =
     (let blanks = length (takeWhile c_isspace cs);
          (sgn_factor, signs) = strtol_sign (drop blanks cs);
          ds = takeWhile is_digit (drop (blanks + signs) cs);
          v = sgn_factor * int (digits_val ds)
      in if ds = [] then (0, 0, False)
         else if v < long_min then (long_min, blanks + signs + length ds, True)
         else if long_max < v then (long_max, blanks + signs + length ds, True)
         else (v, blanks + signs + length ds, False))"

text \<open>\<open>parse_int_safe cs n\<close> is \<^verbatim>\<open>parse_int_safe(begin, end)\<close> with \<open>cs\<close> the buffer at \<open>begin\<close> and
  \<open>n = end - begin\<close>.\<close>

definition parse_int_safe :: "bytes \<Rightarrow> int \<Rightarrow> int option" where
  "parse_int_safe cs n =
     (if n \<le> 0 then None
      else case strtol cs of (val, last_off, _) \<Rightarrow>
        if int last_off \<noteq> n then None
        else if val < 0 \<or> int_max < val then None
        else Some val)"

section \<open>Proofs\<close>

lemma takeWhile_is_digit_append:
  "(\<forall>c \<in> set ds. is_digit c) \<Longrightarrow> (rest = [] \<or> \<not> is_digit (hd rest)) \<Longrightarrow>
   takeWhile is_digit (ds @ rest) = ds"
  by (cases rest) (auto simp: takeWhile_append2)

lemma strtol_sign_digit: "is_digit c \<Longrightarrow> strtol_sign (c # cs) = (1, 0)"
  by (auto simp: is_digit_def)

lemma is_digit_not_space: "is_digit c \<Longrightarrow> \<not> c_isspace c"
  by (auto simp: is_digit_def c_isspace_def)

lemma strtol_digits:
  assumes "ds \<noteq> []" and "\<forall>c \<in> set ds. is_digit c" and "rest = [] \<or> \<not> is_digit (hd rest)"
  shows "strtol (ds @ rest) =
    (if long_max < int (digits_val ds) then (long_max, length ds, True)
     else (int (digits_val ds), length ds, False))"
proof -
  from assms obtain d ds' where ds: "ds = d # ds'" and d: "is_digit d"
    by (cases ds) auto
  have "takeWhile c_isspace (ds @ rest) = []"
    using ds is_digit_not_space[OF d] by simp
  moreover have "strtol_sign (ds @ rest) = (1, 0)"
    using ds strtol_sign_digit[OF d] by simp
  moreover have "takeWhile is_digit (ds @ rest) = ds"
    using assms(2,3) by (rule takeWhile_is_digit_append)
  ultimately show ?thesis
    using assms(1) by (simp add: strtol_def Let_def long_min_def)
qed

lemma parse_int_safe_digits:
  assumes "ds \<noteq> []" and "\<forall>c \<in> set ds. is_digit c" and "rest = [] \<or> \<not> is_digit (hd rest)"
  shows "parse_int_safe (ds @ rest) (int (length ds)) =
    (if int (digits_val ds) \<le> int_max then Some (int (digits_val ds)) else None)"
  using assms(1) strtol_digits[OF assms]
  by (auto simp: parse_int_safe_def int_max_def long_max_def)

lemma parse_int_safe_range: "parse_int_safe cs n = Some v \<Longrightarrow> 0 \<le> v \<and> v \<le> int_max"
  by (auto simp: parse_int_safe_def split: prod.splits if_splits)

lemma strtol_last_le: "strtol cs = (v, l, e) \<Longrightarrow> l \<le> length cs"
proof -
  assume st: "strtol cs = (v, l, e)"
  define b where "b = length (takeWhile c_isspace cs)"
  define r where "r = drop b cs"
  obtain f s where fs: "strtol_sign r = (f, s)" by fastforce
  define ds where "ds = takeWhile is_digit (drop (b + s) cs)"
  have b: "b \<le> length cs"
    by (simp add: b_def length_takeWhile_le)
  have s: "s \<le> length r"
    using fs by (cases r) (auto split: if_splits)
  have "b + s \<le> length cs"
    using s b by (simp add: r_def)
  moreover have "length ds \<le> length cs - (b + s)"
    using length_takeWhile_le[of is_digit "drop (b + s) cs"] by (simp add: ds_def)
  moreover have "l = 0 \<or> l = b + s + length ds"
    using st fs by (auto simp: strtol_def Let_def b_def[symmetric] r_def[symmetric] ds_def[symmetric]
        split: if_splits)
  ultimately show ?thesis by auto
qed

section \<open>Properties\<close>

text \<open>the decimal text of a number followed by anything that is not a digit is parsed back to
  that number, and numbers beyond the 32-bit range are refused.\<close>

theorem parse_int_safe_roundtrip:
  assumes "rest = [] \<or> \<not> is_digit (hd rest)"
  shows "parse_int_safe (show_nat n @ rest) (int (length (show_nat n))) =
    (if int n \<le> int_max then Some (int n) else None)"
  using parse_int_safe_digits[of "show_nat n" rest] assms show_nat_digits by auto

theorem parse_int_safe_roundtrip_witness:
  "parse_int_safe (show_nat 65536 @ crlf) (int (length (show_nat 65536))) = Some 65536"
  using parse_int_safe_roundtrip[of crlf 65536]
  by (simp add: crlf_def CR_def is_digit_def int_max_def)

end
