(* ===== verification/Gw_Http.thy ===== *)
theory Gw_Http
  imports Gw_Utils
begin

text \<open>
  HTTP requests: the request structure and \<^verbatim>\<open>request_keep_alive\<close>
  (\<^verbatim>\<open>src/src/http/request.cpp\<close>) and the one-shot parsers \<^verbatim>\<open>parse_http_request\<close> and \<^verbatim>\<open>parse_content_length\<close> of
  \<^verbatim>\<open>src/src/http/parser.cpp\<close>. A \<^verbatim>\<open>std::string_view\<close> is the list of bytes it shows.
\<close>

section \<open>Case-insensitive comparison\<close>

definition ascii_to_lower :: "char \<Rightarrow> char" where
  "ascii_to_lower c =
     (if 65 \<le> (of_char c :: nat) \<and> (of_char c :: nat) \<le> 90 then char_of (of_char c + 32 :: nat) else c)"

definition to_lower_inplace :: "bytes \<Rightarrow> bytes" where
  "to_lower_inplace s = map ascii_to_lower s"

definition str_iequal :: "bytes \<Rightarrow> bytes \<Rightarrow> bool" where
  "str_iequal a b \<longleftrightarrow>
     length a = length b \<and> list_all2 (\<lambda>x y. ascii_to_lower x = ascii_to_lower y) a b"

text \<open>The loop \<^verbatim>\<open>for (i = 0; i + n <= v.size(); ++i) if (iequal(v.substr(i, n), pat))\<close> that looks
  for \<^verbatim>\<open>keep-alive\<close> and for \<^verbatim>\<open>chunked\<close> in a header value.\<close>

definition contains_icase :: "bytes \<Rightarrow> bytes \<Rightarrow> bool" where
  "contains_icase pat v \<longleftrightarrow>
     list_ex (\<lambda>i. str_iequal (take (length pat) (drop i v)) pat) [0..<Suc (length v) - length pat]"

section \<open>Requests\<close>

record http_request =
  req_method :: bytes
  req_path :: bytes
  req_version :: bytes
  req_headers :: "bytes smap"
  req_body :: bytes

definition http_request_init :: http_request where
  "http_request_init =
     \<lparr>req_method = [], req_path = [], req_version = [], req_headers = [], req_body = []\<rparr>"

definition request_keep_alive :: "http_request \<Rightarrow> bool" where
  "request_keep_alive req =
     (if (case map_of (req_headers req) ''connection'' of
            None \<Rightarrow> False | Some v \<Rightarrow> contains_icase ''keep-alive'' v)
      then True
      else if req_version req = ''HTTP/1.1'' then True else False)"

definition parse_request_line :: "bytes \<Rightarrow> http_request \<Rightarrow> bool \<times> http_request" where
  "parse_request_line line req =
     (case find_char (CHR '' '') line of
        None \<Rightarrow> (False, req)
      | Some pos1 \<Rightarrow>
          (case find_sub_from [CHR '' ''] (pos1 + 1) line of
             None \<Rightarrow> (False, req)
           | Some pos2 \<Rightarrow>
               let req' = req\<lparr>req_method := take pos1 line,
                              req_path := take (pos2 - pos1 - 1) (drop (pos1 + 1) line),
                              req_version := drop (pos2 + 1) line\<rparr>
               in (req_method req' \<noteq> [] \<and> req_path req' \<noteq> [] \<and> req_version req' \<noteq> [], req')))"

text \<open>One header line: lines without a colon are ignored, the name is lowered, blanks before the
  value are dropped, and a repeated name overwrites the earlier value.\<close>

definition parse_header_line :: "bytes \<Rightarrow> http_request \<Rightarrow> http_request" where
  "parse_header_line line req =
     (case find_char (CHR '':'') line of
        None \<Rightarrow> req
      | Some colon \<Rightarrow>
          req\<lparr>req_headers :=
                smap_put (to_lower_inplace (take colon line)) (skip_blanks (drop (colon + 1) line))
                  (req_headers req)\<rparr>)"

lemma find_sub_from_bounds: "find_sub_from p k s = Some i \<Longrightarrow> k \<le> i \<and> i + length p \<le> length s"
  using find_sub_SomeD[of p "drop k s"]
  by (fastforce simp: find_sub_from_def split: if_splits)

function parse_lines :: "bytes \<Rightarrow> nat \<Rightarrow> nat \<Rightarrow> http_request \<Rightarrow> bool \<times> http_request" where
  "parse_lines raw header_end line_start req =
     (if line_start < header_end then
        (case find_sub_from crlf line_start raw of
           None \<Rightarrow> (True, req)
         | Some line_end \<Rightarrow>
             if header_end < line_end then (True, req)
             else
               let line = take (line_end - line_start) (drop line_start raw) in
               if line = [] then parse_lines raw header_end (line_end + 2) req
               else if req_method req = [] then
                 (case parse_request_line line req of (ok, req') \<Rightarrow>
                    if ok then parse_lines raw header_end (line_end + 2) req' else (False, req'))
               else parse_lines raw header_end (line_end + 2) (parse_header_line line req))
      else (True, req))"
  by pat_completeness auto
termination
  by (relation "measure (\<lambda>(raw, he, ls, req). he - ls)")
    (auto dest!: find_sub_from_bounds)

declare parse_lines.simps [simp del]

definition parse_http_request :: "bytes \<Rightarrow> http_request \<Rightarrow> bool \<times> http_request" where
  "parse_http_request raw req =
     (case find_sub crlf2 raw of
        None \<Rightarrow> (False, req)
      | Some header_end \<Rightarrow>
          (case parse_lines raw header_end 0 (req\<lparr>req_body := drop (header_end + 4) raw\<rparr>) of
             (ok, req') \<Rightarrow>
               (ok \<and> req_method req' \<noteq> [] \<and> req_path req' \<noteq> [] \<and> req_version req' \<noteq> [], req')))"

section \<open>Content-Length of a header block\<close>

text \<open>\<open>header_find_icase data name\<close>: the suffix of \<open>data\<close> at the first line that starts with
  \<open>name\<close> and a colon.\<close>

function header_find_icase :: "bytes \<Rightarrow> bytes \<Rightarrow> bytes option" where
  "header_find_icase p name =
     (if p = [] then None
      else
        let line_end = (case find_sub crlf p of None \<Rightarrow> length p | Some e \<Rightarrow> e) in
        if length name < line_end \<and> p ! length name = CHR '':'' \<and> str_iequal (take (length name) p) name
        then Some p
        else if line_end = length p then None
        else header_find_icase (drop (line_end + 2) p) name)"
  by pat_completeness auto
termination
  by (relation "measure (\<lambda>(p, name). length p)") auto

declare header_find_icase.simps [simp del]

text \<open>The header block is \<open>data\<close>; \<open>beyond\<close> is what lies behind it in the buffer, which
  \<^verbatim>\<open>strtol\<close> can see.\<close>

definition parse_content_length :: "bytes \<Rightarrow> bytes \<Rightarrow> int" where
  "parse_content_length data beyond =
     (case header_find_icase data ''Content-Length'' of
        None \<Rightarrow> -1
      | Some cl \<Rightarrow>
          let cl_pos = skip_blanks (drop 15 cl);
              n = (case find_sub crlf cl_pos of None \<Rightarrow> length cl_pos | Some e \<Rightarrow> e)
          in (case parse_int_safe (cl_pos @ beyond) (int n) of
                Some v \<Rightarrow> if 0 \<le> v then v else -1
              | None \<Rightarrow> -1))"

section \<open>Lemmas on CRLF-terminated lines\<close>

text \<open>A header block is a list of lines, each followed by CRLF.\<close>

definition unlines_crlf :: "bytes list \<Rightarrow> bytes" where
  "unlines_crlf ls = concat (map (\<lambda>l. l @ crlf) ls)"

definition clean_line :: "bytes \<Rightarrow> bool" where
  "clean_line l \<longleftrightarrow> l \<noteq> [] \<and> CR \<notin> set l"

lemma unlines_crlf_simps [simp]:
  "unlines_crlf [] = []"
  "unlines_crlf (l # ls) = l @ crlf @ unlines_crlf ls"
  "unlines_crlf (ls @ ms) = unlines_crlf ls @ unlines_crlf ms"
  by (simp_all add: unlines_crlf_def)

lemma length_crlf [simp]: "length crlf = 2" "length crlf2 = 4"
  by (simp_all add: crlf_def crlf2_def)

lemma crlf_not_Nil [simp]: "crlf \<noteq> []" "crlf2 \<noteq> []"
  by (simp_all add: crlf_def crlf2_def)

lemma CR_neq_LF [simp]: "CR \<noteq> LF" "LF \<noteq> CR"
  by (simp_all add: CR_def LF_def)

lemma find_crlf [gw_search]: "CR \<notin> set l \<Longrightarrow> find_sub crlf (l @ crlf @ r) = Some (length l)"
  by (induction l) (auto simp: crlf_def)

lemma find_crlf_none [gw_search]: "CR \<notin> set l \<Longrightarrow> find_sub crlf l = None"
  by (induction l) (auto simp: crlf_def)

lemma find_tag_line:
  "CR \<notin> set l \<Longrightarrow> find_sub (crlf @ t) (l @ crlf @ r) =
     (if prefix t r then Some (length l) else map_option ((+) (length l + 2)) (find_sub (crlf @ t) r))"
proof (induction l)
  case Nil
  have "find_sub (crlf @ t) (LF # r) = map_option Suc (find_sub (crlf @ t) r)" by (simp add: crlf_def)
  moreover have "(\<lambda>x. Suc (Suc x)) = (+) (Suc (Suc 0))" by auto
  ultimately show ?case by (simp add: crlf_def option.map_comp comp_def)
next
  case (Cons a l)
  then show ?case
    by (auto simp: crlf_def option.map_comp comp_def)
qed

lemma find_crlf2_line [gw_search]:
  "CR \<notin> set l \<Longrightarrow> find_sub crlf2 (l @ crlf @ r) =
     (if prefix crlf r then Some (length l) else map_option ((+) (length l + 2)) (find_sub crlf2 r))"
  using find_tag_line[of l crlf r] by (simp add: crlf_def crlf2_def)

lemma clean_line_no_crlf: "clean_line l \<Longrightarrow> \<not> prefix crlf (l @ r)"
  by (cases l) (auto simp: clean_line_def crlf_def)

lemma find_crlf2_unlines [gw_search]:
  assumes "ls \<noteq> []" and "\<forall>l \<in> set ls. clean_line l"
  shows "find_sub crlf2 (unlines_crlf ls @ crlf @ body) = Some (length (unlines_crlf ls) - 2)"
  using assms
proof (induction ls)
  case (Cons l ls)
  have l: "CR \<notin> set l" using Cons.prems by (simp add: clean_line_def)
  show ?case
  proof (cases ls)
    case Nil
    then show ?thesis using find_crlf2_line[OF l, of "crlf @ body"] by simp
  next
    case (Cons m ms)
    have "\<not> prefix crlf (unlines_crlf ls @ crlf @ body)"
      using clean_line_no_crlf[of m "crlf @ unlines_crlf ms @ crlf @ body"] Cons.prems Cons by simp
    then show ?thesis
      using find_crlf2_line[OF l, of "unlines_crlf ls @ crlf @ body"] Cons.IH Cons.prems Cons by simp
  qed
qed simp

text \<open>The lines of a block are handled one after the other, the first one as the request line.\<close>

fun apply_lines :: "bytes list \<Rightarrow> http_request \<Rightarrow> bool \<times> http_request" where
  "apply_lines [] req = (True, req)"
| "apply_lines (l # ls) req =
     (if req_method req = [] then
        (case parse_request_line l req of (ok, req') \<Rightarrow> if ok then apply_lines ls req' else (False, req'))
      else apply_lines ls (parse_header_line l req))"

lemma parse_lines_past_end: "header_end \<le> line_start \<Longrightarrow> parse_lines raw header_end line_start req = (True, req)"
  by (subst parse_lines.simps) simp

lemma parse_lines_unlines:
  assumes "ls \<noteq> []" and "raw = pre @ unlines_crlf ls @ crlf @ body"
    and "\<forall>l \<in> set ls. clean_line l" and "header_end + 2 = length pre + length (unlines_crlf ls)"
  shows "parse_lines raw header_end (length pre) req = apply_lines ls req"
  using assms
proof (induction ls arbitrary: pre req)
  case (Cons l ls)
  have raw: "raw = pre @ l @ crlf @ unlines_crlf ls @ crlf @ body"
    using Cons.prems(2) by simp
  have cl: "CR \<notin> set l" "l \<noteq> []"
    using Cons.prems(3) by (simp_all add: clean_line_def)
  have he: "header_end = length pre + length l + length (unlines_crlf ls)"
    using Cons.prems(4) by simp
  have find: "find_sub_from crlf (length pre) raw = Some (length pre + length l)"
    using find_crlf[OF cl(1), of "unlines_crlf ls @ crlf @ body"] raw
    by (simp add: find_sub_from_def)
  have next_line: "parse_lines raw header_end (length pre + length l + 2) req' = apply_lines ls req'" for req'
  proof (cases "ls = []")
    case True
    then show ?thesis using parse_lines_past_end he by simp
  next
    case False
    then show ?thesis
      using Cons.IH[of "pre @ l @ crlf" req'] Cons.prems(3) raw he by simp
  qed
  have line: "take (length l) (drop (length pre) raw) = l"
    using raw by simp
  have "length pre < header_end" and "\<not> header_end < length pre + length l"
    using he cl(2) by simp_all
  then show ?case
    using cl(2) find line
    by (subst parse_lines.simps) (simp add: Let_def next_line[simplified] split: prod.split)
qed simp

lemma parse_http_request_unlines:
  assumes "ls \<noteq> []" and "\<forall>l \<in> set ls. clean_line l"
  shows "parse_http_request (unlines_crlf ls @ crlf @ body) req =
    (case apply_lines ls (req\<lparr>req_body := body\<rparr>) of (ok, req') \<Rightarrow>
       (ok \<and> req_method req' \<noteq> [] \<and> req_path req' \<noteq> [] \<and> req_version req' \<noteq> [], req'))"
proof -
  let ?raw = "unlines_crlf ls @ crlf @ body"
  have two: "2 \<le> length (unlines_crlf ls)"
    using assms(1) by (cases ls) simp_all
  have "parse_lines ?raw (length (unlines_crlf ls) - 2) 0 r = apply_lines ls r" for r
    using parse_lines_unlines[of ls ?raw "[]" body "length (unlines_crlf ls) - 2" r] assms two
    by simp
  moreover have "drop (length (unlines_crlf ls) - 2 + 4) ?raw = body"
    using two by simp
  ultimately show ?thesis
    using find_crlf2_unlines[OF assms, of body] by (simp add: parse_http_request_def)
qed

section \<open>Lemmas on request lines and header lines\<close>

lemma find_sub_single: "find_sub [c] s = find_char c s"
  by (induction s) auto

lemma find_space_from:
  "CHR '' '' \<notin> set p \<Longrightarrow>
   find_sub_from [CHR '' ''] (length m) (m @ p @ CHR '' '' # v) = Some (length m + length p)"
  by (simp add: find_sub_from_def find_sub_single)

lemma parse_request_line_ok:
  assumes "m \<noteq> []" "CHR '' '' \<notin> set m" "p \<noteq> []" "CHR '' '' \<notin> set p" "v \<noteq> []"
  shows "parse_request_line (m @ '' '' @ p @ '' '' @ v) req =
    (True, req\<lparr>req_method := m, req_path := p, req_version := v\<rparr>)"
proof -
  have "find_sub_from [CHR '' ''] (length m + 1) (m @ '' '' @ p @ '' '' @ v)
      = Some (length m + 1 + length p)"
    using find_space_from[OF assms(4), of "m @ '' ''" v] by simp
  with assms show ?thesis
    by (simp add: parse_request_line_def Let_def)
qed

lemma skip_blanks_id: "v = [] \<or> hd v \<noteq> CHR '' '' \<and> hd v \<noteq> TAB \<Longrightarrow> skip_blanks v = v"
  by (cases v) auto

lemma parse_header_line_ok:
  assumes "CHR '':'' \<notin> set k" and "v = [] \<or> hd v \<noteq> CHR '' '' \<and> hd v \<noteq> TAB"
  shows "parse_header_line (k @ '': '' @ v) req =
    req\<lparr>req_headers := smap_put (to_lower_inplace k) v (req_headers req)\<rparr>"
  using assms skip_blanks_id[OF assms(2)] by (simp add: parse_header_line_def)

text \<open>The textual form of a request: the specification that the parsers are measured against.\<close>

definition render_request :: "bytes \<Rightarrow> bytes \<Rightarrow> bytes \<Rightarrow> (bytes \<times> bytes) list \<Rightarrow> bytes \<Rightarrow> bytes" where
  "render_request m p v hs body =
     unlines_crlf ((m @ '' '' @ p @ '' '' @ v) # map (\<lambda>(k, x). k @ '': '' @ x) hs) @ crlf @ body"

definition wf_start_line :: "bytes \<Rightarrow> bytes \<Rightarrow> bytes \<Rightarrow> bool" where
  "wf_start_line m p v \<longleftrightarrow>
     m \<noteq> [] \<and> CHR '' '' \<notin> set m \<and> CR \<notin> set m \<and> p \<noteq> [] \<and> CHR '' '' \<notin> set p \<and> CR \<notin> set p
     \<and> v \<noteq> [] \<and> CR \<notin> set v"

definition wf_header :: "bytes \<times> bytes \<Rightarrow> bool" where
  "wf_header kv \<longleftrightarrow> CHR '':'' \<notin> set (fst kv) \<and> CR \<notin> set (fst kv) \<and> CR \<notin> set (snd kv)
     \<and> (snd kv = [] \<or> hd (snd kv) \<noteq> CHR '' '' \<and> hd (snd kv) \<noteq> TAB)"

definition header_map :: "(bytes \<times> bytes) list \<Rightarrow> bytes smap \<Rightarrow> bytes smap" where
  "header_map hs m = fold (\<lambda>(k, v). smap_put (to_lower_inplace k) v) hs m"

lemma apply_header_lines:
  "req_method req \<noteq> [] \<Longrightarrow> \<forall>h \<in> set hs. wf_header h \<Longrightarrow>
   apply_lines (map (\<lambda>(k, x). k @ '': '' @ x) hs) req =
     (True, req\<lparr>req_headers := header_map hs (req_headers req)\<rparr>)"
proof (induction hs arbitrary: req)
  case (Cons h hs)
  obtain k v where h: "h = (k, v)" by fastforce
  have "parse_header_line (k @ '': '' @ v) req =
      req\<lparr>req_headers := smap_put (to_lower_inplace k) v (req_headers req)\<rparr>"
    using Cons.prems h parse_header_line_ok[of k v req] by (simp add: wf_header_def)
  with Cons h show ?case by (simp add: header_map_def)
qed (simp add: header_map_def)

lemma CR_notin_literals [simp]: "CR \<noteq> CHR '' ''" "CR \<noteq> CHR '':''"
  by (simp_all add: CR_def)

lemma clean_lines_request:
  assumes "wf_start_line m p v" and "\<forall>h \<in> set hs. wf_header h"
  shows "\<forall>l \<in> set ((m @ '' '' @ p @ '' '' @ v) # map (\<lambda>(k, x). k @ '': '' @ x) hs). clean_line l"
  using assms by (auto simp: clean_line_def wf_start_line_def wf_header_def)

lemma one_shot_request:
  assumes "wf_start_line m p v" and "\<forall>h \<in> set hs. wf_header h"
  shows "parse_http_request (render_request m p v hs body) http_request_init =
    (True, \<lparr>req_method = m, req_path = p, req_version = v, req_headers = header_map hs [],
            req_body = body\<rparr>)"
proof -
  let ?ls = "(m @ '' '' @ p @ '' '' @ v) # map (\<lambda>(k, x). k @ '': '' @ x) hs"
  have w: "m \<noteq> []" "CHR '' '' \<notin> set m" "p \<noteq> []" "CHR '' '' \<notin> set p" "v \<noteq> []"
    using assms(1) by (simp_all add: wf_start_line_def)
  have "apply_lines ?ls (http_request_init\<lparr>req_body := body\<rparr>) =
    (True, \<lparr>req_method = m, req_path = p, req_version = v, req_headers = header_map hs [],
            req_body = body\<rparr>)"
    using parse_request_line_ok[OF w] apply_header_lines[OF _ assms(2)] w(1)
    by (simp add: http_request_init_def)
  with parse_http_request_unlines[of ?ls, OF _ clean_lines_request[OF assms]] w
  show ?thesis by (simp add: render_request_def)
qed

section \<open>Properties\<close>

text \<open>C31: the one-shot parser recovers a request from its textual form: method, path, version and
  body come back unchanged, and the header map holds the lowered names with the last value given
  for each.\<close>

theorem http_request_roundtrip:
  assumes "wf_start_line m p v" and "\<forall>h \<in> set hs. wf_header h"
  shows "parse_http_request (render_request m p v hs body) http_request_init =
    (True, \<lparr>req_method = m, req_path = p, req_version = v, req_headers = header_map hs [],
            req_body = body\<rparr>)"
  using assms by (rule one_shot_request)

theorem http_request_roundtrip_witness:
  "parse_http_request
     (render_request ''GET'' ''/api/user'' ''HTTP/1.1'' [(''Host'', ''a''), (''X-Id'', ''7'')] ''hi'')
     http_request_init =
   (True, \<lparr>req_method = ''GET'', req_path = ''/api/user'', req_version = ''HTTP/1.1'',
           req_headers = [(''host'', ''a''), (''x-id'', ''7'')], req_body = ''hi''\<rparr>)"
proof -
  have "wf_start_line ''GET'' ''/api/user'' ''HTTP/1.1''"
    and "\<forall>h \<in> set [(''Host'', ''a''), (''X-Id'', ''7'')]. wf_header h"
    by (simp_all add: wf_start_line_def wf_header_def CR_def TAB_def)
  moreover have "header_map [(''Host'', ''a''), (''X-Id'', ''7'')] []
      = [(''host'', ''a''), (''x-id'', ''7'')]"
    by code_simp
  ultimately show ?thesis
    using http_request_roundtrip[of "''GET''" "''/api/user''" "''HTTP/1.1''"
        "[(''Host'', ''a''), (''X-Id'', ''7'')]" "''hi''"] by simp
qed

text \<open>keep-alive is decided by the version or by a \<^verbatim>\<open>keep-alive\<close> token and by nothing else. In
  particular a HTTP/1.1 client that asks for \<^verbatim>\<open>Connection: close\<close> is still treated as keep-alive.\<close>

theorem keep_alive_decision:
  "(request_keep_alive req \<longleftrightarrow>
      req_version req = ''HTTP/1.1''
      \<or> (\<exists>v. map_of (req_headers req) ''connection'' = Some v \<and> contains_icase ''keep-alive'' v))
   \<and> request_keep_alive
       (req\<lparr>req_version := ''HTTP/1.1'',
            req_headers := smap_put ''connection'' ''close'' (req_headers req)\<rparr>)"
  by (auto simp: request_keep_alive_def split: option.splits)

end
