(* ===== verification/Gw_Http_Parser.thy ===== *)
theory Gw_Http_Parser
  imports Gw_Http
begin

text \<open>
  The incremental request parser \<^verbatim>\<open>HttpParser\<close> of \<^verbatim>\<open>src/src/http/parser.cpp\<close>. Received bytes are
  appended to \<open>partial\<close>; the state machine moves the bytes it has understood from the front of
  \<open>partial\<close> to the end of \<open>raw\<close>. The main loop \<^verbatim>\<open>process()\<close> need not end, so it is a
  \<^theory_text>\<open>partial_function\<close> whose value \<^const>\<open>None\<close> means that the call never returns. The inner
  loops always end and are total functions. The counters \<open>body_read\<close> and \<open>chunk_read\<close> never
  exceed what they count towards (\<open>parser_inv\<close> below), so the \<^verbatim>\<open>size_t\<close> differences of the source
  are plain subtractions.
\<close>

section \<open>State\<close>

datatype parser_state =
  PS_RequestLine | PS_Headers | PS_Body | PS_ChunkedBody | PS_Complete | PS_Error

datatype chunk_phase = CP_SizeLine | CP_Data | CP_Trailer | CP_End

record http_parser =
  pstate :: parser_state
  request :: http_request
  raw :: bytes
  partial :: bytes
  max_size :: int
  is_chunked :: bool
  content_length :: int
  body_read :: nat
  chunk_phase_of :: chunk_phase
  chunk_size :: nat
  chunk_read :: nat

definition new_parser :: "int \<Rightarrow> http_parser" where
  "new_parser mx =
     \<lparr>pstate = PS_RequestLine, request = http_request_init, raw = [], partial = [], max_size = mx,
      is_chunked = False, content_length = -1, body_read = 0, chunk_phase_of = CP_SizeLine,
      chunk_size = 0, chunk_read = 0\<rparr>"

definition parser_reset :: "http_parser \<Rightarrow> http_parser" where
  "parser_reset p =
     p\<lparr>pstate := PS_RequestLine, request := http_request_init, raw := [], is_chunked := False,
       content_length := -1, body_read := 0, chunk_phase_of := CP_SizeLine, chunk_size := 0,
       chunk_read := 0\<rparr>"

section \<open>Consuming bytes\<close>

definition size_of_int :: "int \<Rightarrow> nat" where
  "size_of_int i = nat (i mod 2 ^ 64)"

definition check_size_limit :: "http_parser \<Rightarrow> bool \<times> http_parser" where
  "check_size_limit p =
     (if size_of_int (max_size p) < length (raw p) then (False, p\<lparr>pstate := PS_Error\<rparr>) else (True, p))"

definition consume_partial :: "nat \<Rightarrow> http_parser \<Rightarrow> http_parser" where
  "consume_partial n p =
     (if n = 0 then p else p\<lparr>raw := raw p @ take n (partial p), partial := drop n (partial p)\<rparr>)"

definition extract_line :: "http_parser \<Rightarrow> bytes option" where
  "extract_line p =
     (case find_char CR (partial p) of
        None \<Rightarrow> None
      | Some cr \<Rightarrow>
          if length (partial p) \<le> cr + 1 \<or> partial p ! (cr + 1) \<noteq> LF then None
          else Some (take cr (partial p)))"

definition consume_line :: "bytes \<Rightarrow> http_parser \<Rightarrow> http_parser" where
  "consume_line line p = consume_partial (length line + 2) p"

section \<open>Request line and headers\<close>

definition process_request_line :: "http_parser \<Rightarrow> http_parser" where
  "process_request_line p =
     (case extract_line p of
        None \<Rightarrow> p
      | Some line \<Rightarrow>
          if line = [] then consume_line line p
          else
            (case parse_request_line line (request p) of (ok, req) \<Rightarrow>
               if \<not> ok then p\<lparr>request := req, pstate := PS_Error\<rparr>
               else (consume_line line (p\<lparr>request := req\<rparr>))\<lparr>pstate := PS_Headers\<rparr>))"

definition detect_chunked :: "http_parser \<Rightarrow> http_parser" where
  "detect_chunked p =
     (case map_of (req_headers (request p)) ''transfer-encoding'' of
        None \<Rightarrow> p
      | Some v \<Rightarrow> if contains_icase ''chunked'' v then p\<lparr>is_chunked := True\<rparr> else p)"

definition read_content_length :: "http_parser \<Rightarrow> http_parser" where
  "read_content_length p =
     (case map_of (req_headers (request p)) ''content-length'' of
        None \<Rightarrow> p
      | Some v \<Rightarrow>
          (case parse_int_safe v (int (length v)) of
             Some n \<Rightarrow> if 0 \<le> n then p\<lparr>content_length := n\<rparr> else p
           | None \<Rightarrow> p))"

definition finalize_headers :: "http_parser \<Rightarrow> http_parser" where
  "finalize_headers p =
     (let p1 = detect_chunked p in
      if is_chunked p1 then
        p1\<lparr>pstate := PS_ChunkedBody, chunk_phase_of := CP_SizeLine, chunk_size := 0, chunk_read := 0\<rparr>
      else
        let p2 = read_content_length p1 in
        if 0 < content_length p2 then p2\<lparr>pstate := PS_Body, body_read := 0\<rparr>
        else p2\<lparr>pstate := PS_Complete\<rparr>)"

lemma extract_line_SomeD:
  "extract_line p = Some line \<Longrightarrow> length line + 2 \<le> length (partial p)"
  by (auto simp: extract_line_def dest: find_char_SomeD split: option.splits if_splits)

lemma partial_consume [simp]: "partial (consume_partial n p) = drop n (partial p)"
  by (simp add: consume_partial_def)

lemma raw_consume [simp]: "raw (consume_partial n p) = raw p @ take n (partial p)"
  by (simp add: consume_partial_def)

lemma consume_fields [simp]:
  "pstate (consume_partial n p) = pstate p"
  "request (consume_partial n p) = request p"
  "max_size (consume_partial n p) = max_size p"
  "is_chunked (consume_partial n p) = is_chunked p"
  "content_length (consume_partial n p) = content_length p"
  "body_read (consume_partial n p) = body_read p"
  "chunk_phase_of (consume_partial n p) = chunk_phase_of p"
  "chunk_size (consume_partial n p) = chunk_size p"
  "chunk_read (consume_partial n p) = chunk_read p"
  by (simp_all add: consume_partial_def)

function process_headers :: "http_parser \<Rightarrow> http_parser" where
  "process_headers p =
     (if length (partial p) < 2 then p
      else if partial p ! 0 = CR \<and> partial p ! 1 = LF then finalize_headers (consume_partial 2 p)
      else
        (case extract_line p of
           None \<Rightarrow> p
         | Some line \<Rightarrow>
             if line = [] then process_headers (consume_line line p)
             else
               (case find_char (CHR '':'') line of
                  None \<Rightarrow> process_headers (consume_line line p)
                | Some _ \<Rightarrow>
                    process_headers
                      (consume_line line (p\<lparr>request := parse_header_line line (request p)\<rparr>)))))"
  by pat_completeness auto
termination
  by (relation "measure (\<lambda>p. length (partial p))")
    (auto simp: consume_line_def dest!: extract_line_SomeD)

declare process_headers.simps [simp del]

section \<open>Body with Content-Length\<close>

definition extract_body :: "http_parser \<Rightarrow> http_parser" where
  "extract_body p =
     (case find_sub crlf2 (raw p) of
        None \<Rightarrow> p
      | Some he \<Rightarrow>
          p\<lparr>request := (request p)\<lparr>req_body := take (nat (content_length p)) (drop (he + 4) (raw p))\<rparr>\<rparr>)"

definition process_body :: "http_parser \<Rightarrow> http_parser" where
  "process_body p =
     (if content_length p \<le> 0 then p\<lparr>pstate := PS_Complete\<rparr>
      else
        let remaining = nat (content_length p) - body_read p in
        if remaining = 0 then (extract_body p)\<lparr>pstate := PS_Complete\<rparr>
        else
          let n = min (length (partial p)) remaining;
              p1 = (consume_partial n p)\<lparr>body_read := body_read p + n\<rparr>
          in if nat (content_length p) \<le> body_read p1
             then (extract_body p1)\<lparr>pstate := PS_Complete\<rparr>
             else p1)"

section \<open>Chunked body\<close>

definition hex_digit :: "char \<Rightarrow> nat option" where
  "hex_digit ch =
     (let c = (of_char ch :: nat) in
      if 48 \<le> c \<and> c \<le> 57 then Some (c - 48)
      else if 97 \<le> c \<and> c \<le> 102 then Some (c - 97 + 10)
      else if 65 \<le> c \<and> c \<le> 70 then Some (c - 65 + 10)
      else None)"

text \<open>The shift wraps: \<^verbatim>\<open>size_t\<close> has 64 bits.\<close>

fun parse_hex_loop :: "nat \<Rightarrow> bytes \<Rightarrow> nat option" where
  "parse_hex_loop v [] = Some v"
| "parse_hex_loop v (c # cs) =
     (case hex_digit c of None \<Rightarrow> None | Some d \<Rightarrow> parse_hex_loop ((v * 16) mod size_mod + d) cs)"

definition parse_hex :: "bytes \<Rightarrow> nat option" where
  "parse_hex s = (if s = [] then None else parse_hex_loop 0 s)"

text \<open>The trailer loop: \<^const>\<open>True\<close> when it has found the empty line, \<^const>\<open>False\<close> when it waits
  for more bytes.\<close>

function process_trailer :: "http_parser \<Rightarrow> bool \<times> http_parser" where
  "process_trailer p =
     (if length (partial p) < 2 then (False, p)
      else if partial p ! 0 = CR \<and> partial p ! 1 = LF
      then (True, (consume_partial 2 p)\<lparr>chunk_phase_of := CP_End\<rparr>)
      else
        (case extract_line p of
           None \<Rightarrow> (False, p)
         | Some line \<Rightarrow> process_trailer (consume_partial (length line + 2) p)))"
  by pat_completeness auto
termination
  by (relation "measure (\<lambda>p. length (partial p))") (auto dest!: extract_line_SomeD)

declare process_trailer.simps [simp del]

lemma process_trailer_shrinks:
  "process_trailer p = (True, q) \<Longrightarrow> length (partial q) < length (partial p)"
proof (induction p rule: process_trailer.induct)
  case (1 p)
  show ?case
  proof (cases "length (partial p) < 2 \<or> partial p ! 0 = CR \<and> partial p ! 1 = LF")
    case True
    then show ?thesis using "1.prems" by (auto simp: process_trailer.simps[of p] split: if_splits)
  next
    case False
    then obtain line where line: "extract_line p = Some line"
      and "process_trailer (consume_partial (length line + 2) p) = (True, q)"
      using "1.prems" by (auto simp: process_trailer.simps[of p] split: option.splits if_splits)
    with "1.IH"[of line] False have "length (partial q) < length (partial p) - (length line + 2)"
      by auto
    then show ?thesis by simp
  qed
qed

definition chunk_size_text :: "bytes \<Rightarrow> bytes" where
  "chunk_size_text line =
     (case find_char (CHR '';'') line of Some semi \<Rightarrow> take semi line | None \<Rightarrow> line)"

text \<open>One round of the loop in \<^verbatim>\<open>process_chunked()\<close> per phase: \<^const>\<open>True\<close> when the loop goes on
  (\<^verbatim>\<open>break\<close> or \<^verbatim>\<open>continue\<close>), \<^const>\<open>False\<close> when the function returns.\<close>

definition chunk_size_line :: "http_parser \<Rightarrow> bool \<times> http_parser" where
  "chunk_size_line p =
     (case extract_line p of
        None \<Rightarrow> (False, p)
      | Some line \<Rightarrow>
          (case parse_hex (chunk_size_text line) of
             None \<Rightarrow> (False, p\<lparr>pstate := PS_Error\<rparr>)
           | Some sz \<Rightarrow>
               let p1 = consume_partial (length line + 2) (p\<lparr>chunk_size := sz\<rparr>) in
               if sz = 0 then (True, p1\<lparr>chunk_phase_of := CP_Trailer\<rparr>)
               else
                 (case check_size_limit p1 of (ok, p2) \<Rightarrow>
                    if \<not> ok then (False, p2)
                    else (True, p2\<lparr>chunk_phase_of := CP_Data, chunk_read := 0\<rparr>))))"

definition chunk_data :: "http_parser \<Rightarrow> bool \<times> http_parser" where
  "chunk_data p =
     (let remaining = chunk_size p - chunk_read p in
      if remaining = 0 then
        if length (partial p) < 2 then (False, p)
        else if partial p ! 0 \<noteq> CR \<or> partial p ! 1 \<noteq> LF then (False, p\<lparr>pstate := PS_Error\<rparr>)
        else (True, (consume_partial 2 p)\<lparr>chunk_phase_of := CP_SizeLine\<rparr>)
      else
        let n = min (length (partial p)) remaining;
            p1 = (consume_partial n p)\<lparr>chunk_read := chunk_read p + n\<rparr>
        in (case check_size_limit p1 of (ok, p2) \<Rightarrow>
              if \<not> ok then (False, p2) else (chunk_size p2 \<le> chunk_read p2, p2)))"

definition chunk_round :: "http_parser \<Rightarrow> bool \<times> http_parser" where
  "chunk_round p =
     (case chunk_phase_of p of
        CP_SizeLine \<Rightarrow> chunk_size_line p
      | CP_Data \<Rightarrow> chunk_data p
      | CP_Trailer \<Rightarrow> process_trailer p
      | CP_End \<Rightarrow> (False, p\<lparr>pstate := PS_Complete\<rparr>))"

lemma chunk_round_shrinks:
  "chunk_round p = (True, q) \<Longrightarrow> length (partial q) < length (partial p)"
  by (auto simp: chunk_round_def chunk_size_line_def chunk_data_def Let_def check_size_limit_def
      process_trailer_shrinks min_def dest!: extract_line_SomeD
      split: chunk_phase.splits option.splits if_splits)

function process_chunked :: "http_parser \<Rightarrow> http_parser" where
  "process_chunked p =
     (if pstate p \<noteq> PS_ChunkedBody then p
      else (case chunk_round p of (go_on, q) \<Rightarrow> if go_on then process_chunked q else q))"
  by pat_completeness auto
termination
  by (relation "measure (\<lambda>p. length (partial p))") (auto simp: chunk_round_shrinks[OF sym])

declare process_chunked.simps [simp del]

section \<open>The main loop\<close>

definition process_state :: "http_parser \<Rightarrow> http_parser" where
  "process_state p =
     (case pstate p of
        PS_RequestLine \<Rightarrow> process_request_line p
      | PS_Headers \<Rightarrow> process_headers p
      | PS_Body \<Rightarrow> process_body p
      | PS_ChunkedBody \<Rightarrow> process_chunked p
      | PS_Complete \<Rightarrow> p
      | PS_Error \<Rightarrow> p)"

partial_function (option) process :: "http_parser \<Rightarrow> http_parser option" where
  "process p =
     (if pstate p = PS_Complete \<or> pstate p = PS_Error then Some p
      else if pstate p = PS_RequestLine \<and> pstate (process_state p) = PS_Headers
      then process (process_state p)
      else if pstate (process_state p) = PS_RequestLine \<or> pstate (process_state p) = PS_Headers
      then Some (process_state p)
      else if (pstate (process_state p) = PS_Body \<or> pstate (process_state p) = PS_ChunkedBody)
              \<and> partial (process_state p) = []
      then Some (process_state p)
      else process (process_state p))"

definition parse :: "bytes \<Rightarrow> http_parser \<Rightarrow> (nat \<times> http_parser) option" where
  "parse data p =
     (if pstate p = PS_Error \<or> pstate p = PS_Complete then Some (0, p)
      else
        (case process (p\<lparr>partial := partial p @ data\<rparr>) of
           None \<Rightarrow> None
         | Some p1 \<Rightarrow>
             (case check_size_limit p1 of (ok, p2) \<Rightarrow>
                Some (if \<not> ok then 0
                      else if data \<noteq> [] then length data
                      else length (raw p2) - length (raw p), p2))))"

lemma process_code [code]:
  "process p =
     (if pstate p = PS_Complete \<or> pstate p = PS_Error then Some p
      else
        let q = process_state p in
        if pstate p = PS_RequestLine \<and> pstate q = PS_Headers then process q
        else if pstate q = PS_RequestLine \<or> pstate q = PS_Headers then Some q
        else if (pstate q = PS_Body \<or> pstate q = PS_ChunkedBody) \<and> partial q = [] then Some q
        else process q)"
  by (subst process.simps) (simp add: Let_def)

section \<open>Bytes are conserved\<close>

text \<open>What no step of the parser changes: the bytes it holds, in order, and the limit.\<close>

definition stream :: "http_parser \<Rightarrow> int \<times> bytes" where
  "stream p = (max_size p, raw p @ partial p)"

lemma stream_consume [simp]: "stream (consume_partial n p) = stream p"
  by (simp add: stream_def)

lemma stream_update [simp]:
  "stream (p\<lparr>request := r\<rparr>) = stream p"
  "stream (p\<lparr>pstate := s\<rparr>) = stream p"
  "stream (p\<lparr>is_chunked := b\<rparr>) = stream p"
  "stream (p\<lparr>content_length := n\<rparr>) = stream p"
  "stream (p\<lparr>body_read := k\<rparr>) = stream p"
  "stream (p\<lparr>chunk_phase_of := ph\<rparr>) = stream p"
  "stream (p\<lparr>chunk_size := k\<rparr>) = stream p"
  "stream (p\<lparr>chunk_read := k\<rparr>) = stream p"
  by (simp_all add: stream_def)

lemma stream_check: "check_size_limit p = (ok, q) \<Longrightarrow> stream q = stream p"
  by (auto simp: check_size_limit_def split: if_splits)

lemma stream_finalize [simp]: "stream (finalize_headers p) = stream p"
proof -
  have "stream (detect_chunked p) = stream p" "stream (read_content_length p) = stream p" for p
    by (simp_all add: detect_chunked_def read_content_length_def split: option.split)
  then show ?thesis by (simp add: finalize_headers_def Let_def)
qed

lemma stream_extract_body [simp]: "stream (extract_body p) = stream p"
  by (simp add: extract_body_def split: option.split)

lemma stream_request_line [simp]: "stream (process_request_line p) = stream p"
  by (simp add: process_request_line_def consume_line_def split: option.split prod.split)

lemma stream_headers [simp]: "stream (process_headers p) = stream p"
proof (induction p rule: process_headers.induct)
  case (1 p)
  then show ?case
    by (subst process_headers.simps) (auto simp: consume_line_def split: option.split)
qed

lemma stream_body [simp]: "stream (process_body p) = stream p"
  by (simp add: process_body_def Let_def)

lemma stream_trailer: "process_trailer p = (b, q) \<Longrightarrow> stream q = stream p"
proof (induction p rule: process_trailer.induct)
  case (1 p)
  from "1.prems" show ?case
    by (subst (asm) process_trailer.simps)
      (auto dest: "1.IH" split: if_splits option.splits)
qed

lemma stream_round: "chunk_round p = (b, q) \<Longrightarrow> stream q = stream p"
  by (auto simp: chunk_round_def chunk_size_line_def chunk_data_def Let_def check_size_limit_def
      dest: stream_trailer split: chunk_phase.splits option.splits if_splits)

lemma stream_chunked [simp]: "stream (process_chunked p) = stream p"
proof (induction p rule: process_chunked.induct)
  case (1 p)
  then show ?case
    by (subst process_chunked.simps) (auto dest: stream_round split: prod.split)
qed

lemma stream_process_state [simp]: "stream (process_state p) = stream p"
  by (simp add: process_state_def split: parser_state.split)

section \<open>Reasoning about the main loop\<close>

definition parser_done :: "http_parser \<Rightarrow> bool" where
  "parser_done p \<longleftrightarrow> pstate p = PS_Complete \<or> pstate p = PS_Error"

text \<open>The loop returns after this round.\<close>

definition parser_waits :: "http_parser \<Rightarrow> bool" where
  "parser_waits p \<longleftrightarrow>
     pstate p = PS_RequestLine \<or> pstate p = PS_Headers
     \<or> (pstate p = PS_Body \<or> pstate p = PS_ChunkedBody) \<and> partial p = []"

lemma process_done [simp]: "parser_done p \<Longrightarrow> process p = Some p"
  by (subst process.simps) (simp add: parser_done_def)

lemma process_round:
  assumes "\<not> parser_done p"
  shows "process p =
    (if parser_waits (process_state p) \<and> \<not> (pstate p = PS_RequestLine \<and> pstate (process_state p) = PS_Headers)
     then Some (process_state p) else process (process_state p))"
  using assms by (subst process.simps) (auto simp: parser_done_def parser_waits_def)

lemma process_induct [consumes 1, case_names finished wait step]:
  assumes "process p = Some q"
    and fin: "\<And>p. parser_done p \<Longrightarrow> P p p"
    and wait: "\<And>p. \<not> parser_done p \<Longrightarrow> parser_waits (process_state p) \<Longrightarrow> P p (process_state p)"
    and step: "\<And>p q. \<not> parser_done p \<Longrightarrow> (parser_done (process_state p) \<Longrightarrow> q = process_state p) \<Longrightarrow>
      P (process_state p) q \<Longrightarrow> P p q"
  shows "P p q"
proof -
  have "P p q \<and> (parser_done p \<longrightarrow> q = p)"
    using assms(1)
  proof (rule process.raw_induct[of "\<lambda>p q. P p q \<and> (parser_done p \<longrightarrow> q = p)", rotated])
    fix f p q
    assume IH: "\<And>p q. f p = Some q \<Longrightarrow> P p q \<and> (parser_done p \<longrightarrow> q = p)"
      and body: "(if pstate p = PS_Complete \<or> pstate p = PS_Error then Some p
        else if pstate p = PS_RequestLine \<and> pstate (process_state p) = PS_Headers
        then f (process_state p)
        else if pstate (process_state p) = PS_RequestLine \<or> pstate (process_state p) = PS_Headers
        then Some (process_state p)
        else if (pstate (process_state p) = PS_Body \<or> pstate (process_state p) = PS_ChunkedBody)
                \<and> partial (process_state p) = []
        then Some (process_state p)
        else f (process_state p)) = Some q"
    show "P p q \<and> (parser_done p \<longrightarrow> q = p)"
    proof (cases "parser_done p")
      case True
      with body fin[OF True] show ?thesis by (simp add: parser_done_def)
    next
      case False
      show ?thesis
      proof (cases "f (process_state p) = Some q")
        case True
        from IH[OF this] False step[OF False, of q] show ?thesis by blast
      next
        case f: False
        have "parser_waits (process_state p)" "q = process_state p"
          using body f False by (auto simp: parser_done_def parser_waits_def split: if_splits)
        with wait[OF False] False show ?thesis by simp
      qed
    qed
  qed
  then show ?thesis ..
qed

lemma stream_process: "process p = Some q \<Longrightarrow> stream q = stream p"
  by (induction p q rule: process_induct) simp_all

section \<open>More bytes\<close>

definition add_bytes :: "bytes \<Rightarrow> http_parser \<Rightarrow> http_parser" where
  "add_bytes d p = p\<lparr>partial := partial p @ d\<rparr>"

lemma add_bytes_fields [simp]:
  "pstate (add_bytes d p) = pstate p"
  "request (add_bytes d p) = request p"
  "raw (add_bytes d p) = raw p"
  "partial (add_bytes d p) = partial p @ d"
  "max_size (add_bytes d p) = max_size p"
  "is_chunked (add_bytes d p) = is_chunked p"
  "content_length (add_bytes d p) = content_length p"
  "body_read (add_bytes d p) = body_read p"
  "chunk_phase_of (add_bytes d p) = chunk_phase_of p"
  "chunk_size (add_bytes d p) = chunk_size p"
  "chunk_read (add_bytes d p) = chunk_read p"
  by (simp_all add: add_bytes_def)

lemma add_bytes_update:
  "(add_bytes d p)\<lparr>pstate := s\<rparr> = add_bytes d (p\<lparr>pstate := s\<rparr>)"
  "(add_bytes d p)\<lparr>request := r\<rparr> = add_bytes d (p\<lparr>request := r\<rparr>)"
  "(add_bytes d p)\<lparr>is_chunked := b\<rparr> = add_bytes d (p\<lparr>is_chunked := b\<rparr>)"
  "(add_bytes d p)\<lparr>content_length := i\<rparr> = add_bytes d (p\<lparr>content_length := i\<rparr>)"
  "(add_bytes d p)\<lparr>body_read := n\<rparr> = add_bytes d (p\<lparr>body_read := n\<rparr>)"
  "(add_bytes d p)\<lparr>chunk_phase_of := ph\<rparr> = add_bytes d (p\<lparr>chunk_phase_of := ph\<rparr>)"
  "(add_bytes d p)\<lparr>chunk_size := n\<rparr> = add_bytes d (p\<lparr>chunk_size := n\<rparr>)"
  "(add_bytes d p)\<lparr>chunk_read := n\<rparr> = add_bytes d (p\<lparr>chunk_read := n\<rparr>)"
  by (simp_all add: add_bytes_def)

lemma consume_add [simp]:
  "n \<le> length (partial p) \<Longrightarrow> consume_partial n (add_bytes d p) = add_bytes d (consume_partial n p)"
  by (simp add: consume_partial_def add_bytes_def)

lemma find_char_append_Some: "find_char c s = Some i \<Longrightarrow> find_char c (s @ t) = Some i"
  by (auto simp: find_char_Some_iff nth_append)

lemma extract_line_add:
  assumes "extract_line p = Some line"
  shows "extract_line (add_bytes d p) = Some line"
proof -
  from assms obtain i where i: "find_char CR (partial p) = Some i" "Suc i < length (partial p)"
    "partial p ! Suc i = LF" "line = take i (partial p)"
    by (auto simp: extract_line_def split: option.splits if_splits)
  then show ?thesis
    by (simp add: extract_line_def find_char_append_Some[OF i(1)] nth_append)
qed

lemma finalize_add: "finalize_headers (add_bytes d p) = add_bytes d (finalize_headers p)"
proof -
  have "detect_chunked (add_bytes d p) = add_bytes d (detect_chunked p)"
    "read_content_length (add_bytes d p) = add_bytes d (read_content_length p)" for p
    by (simp_all add: detect_chunked_def read_content_length_def add_bytes_update split: option.split)
  then show ?thesis by (simp add: finalize_headers_def Let_def add_bytes_update)
qed

lemma extract_body_add [simp]: "extract_body (add_bytes d p) = add_bytes d (extract_body p)"
  by (simp add: extract_body_def add_bytes_update split: option.split)

lemma request_line_add:
  assumes "extract_line p = Some line"
  shows "process_request_line (add_bytes d p) = add_bytes d (process_request_line p)"
proof -
  obtain ok req where r: "parse_request_line line (request p) = (ok, req)" by fastforce
  show ?thesis
    using extract_line_SomeD[OF assms] assms
    by (simp add: process_request_line_def extract_line_add[OF assms] consume_line_def add_bytes_update r)
qed

lemma prefix_crlf_iff: "prefix crlf xs \<longleftrightarrow> \<not> length xs < 2 \<and> xs ! 0 = CR \<and> xs ! 1 = LF"
proof (cases xs)
  case (Cons a ys)
  then show ?thesis by (cases ys) (auto simp: crlf_def)
qed (simp add: crlf_def)

lemma prefix_crlf_append: "2 \<le> length xs \<Longrightarrow> prefix crlf (xs @ ys) \<longleftrightarrow> prefix crlf xs"
  by (auto simp: prefix_crlf_iff nth_append)

lemma extract_line_short: "length (partial p) < 2 \<Longrightarrow> extract_line p = None"
  using extract_line_SomeD[of p] by (cases "extract_line p") auto

lemma parse_header_line_skip [simp]:
  "CHR '':'' \<notin> set line \<Longrightarrow> parse_header_line line req = req"
  by (simp add: parse_header_line_def option.case_eq_if)

lemma headers_eq:
  "process_headers p =
     (if prefix crlf (partial p) then finalize_headers (consume_partial 2 p)
      else (case extract_line p of
              None \<Rightarrow> p
            | Some line \<Rightarrow>
                process_headers (consume_line line (p\<lparr>request := parse_header_line line (request p)\<rparr>))))"
proof (cases "extract_line p")
  case None
  then show ?thesis by (simp add: process_headers.simps[of p] prefix_crlf_iff)
next
  case (Some line)
  then have "\<not> length (partial p) < 2" using extract_line_SomeD[of p line] by simp
  with Some show ?thesis
    by (simp add: process_headers.simps[of p] prefix_crlf_iff split: option.split)
qed

lemma trailer_eq:
  "process_trailer p =
     (if prefix crlf (partial p) then (True, (consume_partial 2 p)\<lparr>chunk_phase_of := CP_End\<rparr>)
      else (case extract_line p of
              None \<Rightarrow> (False, p)
            | Some line \<Rightarrow> process_trailer (consume_line line p)))"
  by (subst process_trailer.simps)
    (auto simp: prefix_crlf_iff extract_line_short consume_line_def split: option.split)

text \<open>Line-wise induction for both loops.\<close>

lemma lines_induct [case_names lines]:
  assumes "\<And>p. (\<And>line r. \<not> prefix crlf (partial p) \<Longrightarrow> extract_line p = Some line \<Longrightarrow>
      P (consume_line line (p\<lparr>request := r\<rparr>))) \<Longrightarrow> P p"
  shows "P (p :: http_parser)"
proof (induction "length (partial p)" arbitrary: p rule: less_induct)
  case less
  show ?case
    by (rule assms, rule less)
      (auto simp: consume_line_def dest!: extract_line_SomeD)
qed

lemma consume_line_add:
  "extract_line p = Some line \<Longrightarrow>
   consume_line line (add_bytes d (p\<lparr>request := r\<rparr>)) = add_bytes d (consume_line line (p\<lparr>request := r\<rparr>))"
  using extract_line_SomeD[of p line] by (simp add: consume_line_def)

lemma finalize_not_headers: "pstate (finalize_headers p) \<noteq> PS_Headers"
  by (simp add: finalize_headers_def Let_def)

lemma extract_line_add_prefix:
  "extract_line p = Some line \<Longrightarrow> prefix crlf (partial p @ d) \<longleftrightarrow> prefix crlf (partial p)"
  using extract_line_SomeD[of p line] by (simp add: prefix_crlf_append)

lemma headers_add:
  "pstate p = PS_Headers \<Longrightarrow>
   process_headers (add_bytes d p) =
     (if pstate (process_headers p) = PS_Headers then process_headers (add_bytes d (process_headers p))
      else add_bytes d (process_headers p))"
proof (induction p rule: lines_induct)
  case (lines p)
  consider (final) "prefix crlf (partial p)"
    | (stall) "\<not> prefix crlf (partial p)" "extract_line p = None"
    | (line) line where "\<not> prefix crlf (partial p)" "extract_line p = Some line"
    by (cases "extract_line p") auto
  then show ?case
  proof cases
    case final
    then have "prefix crlf (partial p @ d)" "2 \<le> length (partial p)"
      using prefix_length_le[OF final] by simp_all
    with final show ?thesis
      by (simp add: headers_eq[of p] headers_eq[of "add_bytes d p"] finalize_add finalize_not_headers)
  next
    case stall
    then show ?thesis using lines.prems by (simp add: headers_eq[of p])
  next
    case line
    let ?q = "consume_line line (p\<lparr>request := parse_header_line line (request p)\<rparr>)"
    have 1: "process_headers p = process_headers ?q"
      using line by (simp add: headers_eq[of p])
    have 2: "process_headers (add_bytes d p) = process_headers (add_bytes d ?q)"
      using line by (simp add: headers_eq[of "add_bytes d p"] extract_line_add extract_line_add_prefix
          add_bytes_update consume_line_add)
    show ?thesis
      unfolding 1 2 by (rule lines.IH[OF line]) (simp add: lines.prems consume_line_def)
  qed
qed

lemma consume_all_add:
  "consume_partial (length (partial p) + n) (add_bytes d p) =
   consume_partial n (add_bytes d (consume_partial (length (partial p)) p))"
  by (simp add: consume_partial_def add_bytes_def)

definition body_remaining :: "http_parser \<Rightarrow> nat" where
  "body_remaining p = nat (content_length p) - body_read p"

definition take_body :: "nat \<Rightarrow> http_parser \<Rightarrow> http_parser" where
  "take_body n p = (consume_partial n p)\<lparr>body_read := body_read p + n\<rparr>"

lemma body_empty: "content_length p \<le> 0 \<Longrightarrow> process_body p = p\<lparr>pstate := PS_Complete\<rparr>"
  by (simp add: process_body_def)

lemma body_full:
  assumes "0 < content_length p" and "body_remaining p \<le> length (partial p)"
  shows "process_body p = (extract_body (take_body (body_remaining p) p))\<lparr>pstate := PS_Complete\<rparr>"
proof (cases "body_remaining p = 0")
  case True
  then have "take_body (body_remaining p) p = p"
    by (simp add: take_body_def consume_partial_def)
  with True assms show ?thesis
    by (simp add: process_body_def body_remaining_def[symmetric])
next
  case False
  then have "nat (content_length p) \<le> body_read p + body_remaining p"
    by (simp add: body_remaining_def)
  with False assms show ?thesis
    by (simp add: process_body_def body_remaining_def[symmetric] take_body_def[symmetric] min_absorb2)
      (simp add: take_body_def)
qed

lemma body_part:
  assumes "0 < content_length p" and "length (partial p) < body_remaining p"
  shows "process_body p = take_body (length (partial p)) p"
proof -
  have "\<not> nat (content_length p) \<le> body_read p + length (partial p)"
    using assms by (simp add: body_remaining_def)
  with assms show ?thesis
    by (simp add: process_body_def body_remaining_def[symmetric] take_body_def[symmetric] min_absorb1)
      (simp add: take_body_def)
qed

lemma take_body_add:
  "n \<le> length (partial p) \<Longrightarrow> take_body n (add_bytes d p) = add_bytes d (take_body n p)"
  by (simp add: take_body_def add_bytes_update)

lemma take_body_add_all:
  "take_body (length (partial p) + n) (add_bytes d p) =
   take_body n (add_bytes d (take_body (length (partial p)) p))"
  by (simp add: take_body_def consume_all_add)

lemma take_body_fields [simp]:
  "content_length (take_body n p) = content_length p" "pstate (take_body n p) = pstate p"
  "partial (take_body n p) = drop n (partial p)" "body_read (take_body n p) = body_read p + n"
  by (simp_all add: take_body_def)

lemma body_add:
  assumes "pstate p = PS_Body"
  shows "process_body (add_bytes d p) =
     (if pstate (process_body p) = PS_Body then process_body (add_bytes d (process_body p))
      else add_bytes d (process_body p))"
proof -
  have rem: "body_remaining (add_bytes d p) = body_remaining p"
    by (simp add: body_remaining_def)
  consider (empty) "content_length p \<le> 0"
    | (full) "0 < content_length p" "body_remaining p \<le> length (partial p)"
    | (part) "0 < content_length p" "length (partial p) < body_remaining p"
    by linarith
  then show ?thesis
  proof cases
    case empty
    then show ?thesis by (simp add: body_empty add_bytes_update)
  next
    case full
    then show ?thesis by (simp add: body_full rem take_body_add add_bytes_update)
  next
    case part
    define q where "q = take_body (length (partial p)) p"
    have q: "process_body p = q" "pstate q = PS_Body" "partial q = []"
      "content_length q = content_length p"
      and r: "body_remaining p = length (partial p) + body_remaining q"
      using part assms by (simp_all add: body_part q_def body_remaining_def)
    have rem': "body_remaining (add_bytes d q) = body_remaining q"
      by (simp add: body_remaining_def)
    have "process_body (add_bytes d p) = process_body (add_bytes d q)"
    proof (cases "body_remaining q \<le> length d")
      case True
      with part q r show ?thesis
        by (simp add: body_full rem rem' take_body_add_all flip: q_def)
    next
      case False
      with part q r show ?thesis
        by (simp add: body_part rem rem' take_body_add_all flip: q_def)
    qed
    with q show ?thesis by simp
  qed
qed

lemma trailer_add:
  "process_trailer p = (b, q) \<Longrightarrow>
   process_trailer (add_bytes d p) = (if b then (True, add_bytes d q) else process_trailer (add_bytes d q))"
proof (induction p rule: lines_induct)
  case (lines p)
  consider (final) "prefix crlf (partial p)"
    | (stall) "\<not> prefix crlf (partial p)" "extract_line p = None"
    | (line) line where "\<not> prefix crlf (partial p)" "extract_line p = Some line"
    by (cases "extract_line p") auto
  then show ?case
  proof cases
    case final
    then have "prefix crlf (partial p @ d)" "2 \<le> length (partial p)"
      using prefix_length_le[OF final] by simp_all
    with final lines.prems show ?thesis
      by (auto simp: trailer_eq[of p] trailer_eq[of "add_bytes d p"] add_bytes_update)
  next
    case stall
    then show ?thesis using lines.prems by (auto simp: trailer_eq[of p])
  next
    case line
    let ?q = "consume_line line p"
    have 1: "process_trailer p = process_trailer ?q"
      using line by (simp add: trailer_eq[of p])
    have 2: "process_trailer (add_bytes d p) = process_trailer (add_bytes d ?q)"
      using line consume_line_add[of p line d "request p"]
      by (simp add: trailer_eq[of "add_bytes d p"] extract_line_add extract_line_add_prefix)
    show ?thesis
      using lines.IH[OF line, of "request p"] lines.prems unfolding 1 2 by simp
  qed
qed

lemma trailer_fields:
  "process_trailer p = (b, q) \<Longrightarrow> pstate q = pstate p \<and> (\<not> b \<longrightarrow> chunk_phase_of q = chunk_phase_of p)"
proof (induction p rule: lines_induct)
  case (lines p)
  show ?case
    using lines.prems lines.IH[of _ "request p"]
    by (subst (asm) trailer_eq) (auto simp: consume_line_def split: if_splits option.splits)
qed

lemma size_line_add:
  assumes "extract_line p = Some line"
  shows "chunk_size_line (add_bytes d p) = map_prod id (add_bytes d) (chunk_size_line p)"
proof -
  define hex where "hex = parse_hex (chunk_size_text line)"
  note facts = assms extract_line_add[OF assms] hex_def[symmetric]
  show ?thesis
  proof (cases hex)
    case None
    then show ?thesis by (simp add: chunk_size_line_def facts add_bytes_update)
  next
    case (Some sz)
    then show ?thesis using extract_line_SomeD[OF assms]
      by (simp add: chunk_size_line_def facts add_bytes_update check_size_limit_def Let_def)
  qed
qed

lemma data_add_crlf:
  assumes "chunk_size p \<le> chunk_read p" and "2 \<le> length (partial p)"
  shows "chunk_data (add_bytes d p) = map_prod id (add_bytes d) (chunk_data p)"
  using assms by (auto simp: chunk_data_def add_bytes_update nth_append)

lemma data_add_full:
  assumes "chunk_read p < chunk_size p" and "chunk_size p - chunk_read p \<le> length (partial p)"
  shows "chunk_data (add_bytes d p) = map_prod id (add_bytes d) (chunk_data p)"
  using assms by (simp add: chunk_data_def add_bytes_update Let_def check_size_limit_def min_absorb2)


definition take_chunk :: "nat \<Rightarrow> http_parser \<Rightarrow> http_parser" where
  "take_chunk n p = (consume_partial n p)\<lparr>chunk_read := chunk_read p + n\<rparr>"

lemma take_chunk_fields [simp]:
  "pstate (take_chunk n p) = pstate p" "partial (take_chunk n p) = drop n (partial p)"
  "chunk_size (take_chunk n p) = chunk_size p" "chunk_read (take_chunk n p) = chunk_read p + n"
  "chunk_phase_of (take_chunk n p) = chunk_phase_of p"
  by (simp_all add: take_chunk_def)

lemma take_chunk_add_all:
  "take_chunk (length (partial p) + n) (add_bytes d p) =
   take_chunk n (add_bytes d (take_chunk (length (partial p)) p))"
  by (simp add: take_chunk_def consume_all_add)

lemma chunk_data_eq:
  assumes "chunk_read p < chunk_size p"
  shows "chunk_data p =
    (case check_size_limit (take_chunk (min (length (partial p)) (chunk_size p - chunk_read p)) p) of
       (ok, q) \<Rightarrow> if \<not> ok then (False, q) else (chunk_size q \<le> chunk_read q, q))"
  using assms by (simp add: chunk_data_def Let_def flip: take_chunk_def)

lemma data_add_part:
  assumes "length (partial p) < chunk_size p - chunk_read p"
    and "q = take_chunk (length (partial p)) p"
  shows "chunk_data (add_bytes d p) = chunk_data (add_bytes d q)"
proof -
  let ?k = "length (partial p)" and ?r = "chunk_size p - chunk_read p"
  have "chunk_data (add_bytes d p) = (case check_size_limit (take_chunk (min (?k + length d) ?r) (add_bytes d p)) of
       (ok, q) \<Rightarrow> if \<not> ok then (False, q) else (chunk_size q \<le> chunk_read q, q))"
    using assms(1) by (simp add: chunk_data_eq)
  also have "min (?k + length d) ?r = ?k + min (length d) (?r - ?k)"
    using assms(1) by simp
  also have "take_chunk \<dots> (add_bytes d p) = take_chunk (min (length d) (?r - ?k)) (add_bytes d q)"
    by (simp add: take_chunk_add_all assms(2))
  finally show ?thesis
    using assms by (simp add: chunk_data_eq)
qed

lemma data_wait:
  assumes "length (partial p) < chunk_size p - chunk_read p" and "chunk_data p = (b, q)"
  shows "\<not> b" and "pstate q = PS_ChunkedBody \<Longrightarrow> q = take_chunk (length (partial p)) p"
  using assms by (auto simp: chunk_data_eq min_absorb1 check_size_limit_def split: if_splits)


lemma size_line_wait: "extract_line p = None \<Longrightarrow> chunk_size_line p = (False, p)"
  by (simp add: chunk_size_line_def)

lemma data_crlf_wait:
  "chunk_size p \<le> chunk_read p \<Longrightarrow> length (partial p) < 2 \<Longrightarrow> chunk_data p = (False, p)"
  by (simp add: chunk_data_def)

lemma chunk_round_phase:
  "chunk_phase_of p = CP_SizeLine \<Longrightarrow> chunk_round p = chunk_size_line p"
  "chunk_phase_of p = CP_Data \<Longrightarrow> chunk_round p = chunk_data p"
  "chunk_phase_of p = CP_Trailer \<Longrightarrow> chunk_round p = process_trailer p"
  "chunk_phase_of p = CP_End \<Longrightarrow> chunk_round p = (False, p\<lparr>pstate := PS_Complete\<rparr>)"
  by (simp_all add: chunk_round_def)

lemma size_line_stopped:
  assumes "extract_line p \<noteq> None" and "pstate p = PS_ChunkedBody" and "chunk_size_line p = (False, q)"
  shows "pstate q = PS_Error"
  using assms by (auto simp: chunk_size_line_def Let_def check_size_limit_def split: option.splits if_splits)

lemma data_full_go:
  assumes "chunk_read p < chunk_size p" and "chunk_size p - chunk_read p \<le> length (partial p)"
    and "chunk_data p = (False, q)"
  shows "pstate q = PS_Error"
  using assms by (auto simp: chunk_data_eq min_absorb2 check_size_limit_def split: if_splits)

lemma data_crlf_stopped:
  assumes "chunk_size p \<le> chunk_read p" and "2 \<le> length (partial p)" and "chunk_data p = (False, q)"
  shows "pstate q = PS_Error"
  using assms by (auto simp: chunk_data_def split: if_splits)

lemma round_add:
  assumes p: "pstate p = PS_ChunkedBody" and r: "chunk_round p = (b, q)"
    and q: "pstate q = PS_ChunkedBody"
  shows "chunk_round (add_bytes d p) = (if b then (True, add_bytes d q) else chunk_round (add_bytes d q))"
proof (cases "chunk_phase_of p")
  case CP_SizeLine
  then show ?thesis
    using r q size_line_stopped[OF _ p, of q] size_line_add[of p _ d]
    by (cases "extract_line p"; cases b) (auto simp: chunk_round_phase size_line_wait)
next
  case CP_Data
  consider (crlf_short) "chunk_size p \<le> chunk_read p" "length (partial p) < 2"
    | (crlf) "chunk_size p \<le> chunk_read p" "2 \<le> length (partial p)"
    | (full) "chunk_read p < chunk_size p" "chunk_size p - chunk_read p \<le> length (partial p)"
    | (part) "length (partial p) < chunk_size p - chunk_read p"
    by linarith
  then show ?thesis
  proof cases
    case crlf_short
    with CP_Data r show ?thesis by (simp add: chunk_round_phase data_crlf_wait)
  next
    case crlf
    with CP_Data r q data_crlf_stopped[OF crlf] show ?thesis
      by (cases b) (auto simp: chunk_round_phase data_add_crlf)
  next
    case full
    with CP_Data r q data_full_go[OF full] show ?thesis
      by (cases b) (auto simp: chunk_round_phase data_add_full)
  next
    case part
    from CP_Data r have "chunk_data p = (b, q)" by (simp add: chunk_round_phase)
    from data_wait[OF part this] data_add_part[OF part, of q d] q CP_Data
    show ?thesis by (simp add: chunk_round_phase)
  qed
next
  case CP_Trailer
  with r show ?thesis
    using trailer_add[of p b q d] trailer_fields[of p b q] by (cases b) (simp_all add: chunk_round_phase)
next
  case CP_End
  with r q show ?thesis by (auto simp: chunk_round_phase)
qed

lemma round_go_pstate: "chunk_round p = (True, q) \<Longrightarrow> pstate q = pstate p"
  by (auto simp: chunk_round_def chunk_size_line_def chunk_data_def Let_def check_size_limit_def
      dest: trailer_fields split: chunk_phase.splits option.splits if_splits)

lemma chunked_eq:
  "pstate p = PS_ChunkedBody \<Longrightarrow>
   process_chunked p = (if fst (chunk_round p) then process_chunked (snd (chunk_round p)) else snd (chunk_round p))"
  by (simp add: process_chunked.simps[of p] split: prod.split)

text \<open>Induction over the rounds of \<open>process_chunked\<close>.\<close>

lemma rounds_induct [case_names rounds]:
  assumes "\<And>p. (\<And>q. chunk_round p = (True, q) \<Longrightarrow> P q) \<Longrightarrow> P p"
  shows "P (p :: http_parser)"
proof (induction "length (partial p)" arbitrary: p rule: less_induct)
  case less
  show ?case by (rule assms, rule less) (rule chunk_round_shrinks)
qed

lemma chunked_add:
  "pstate p = PS_ChunkedBody \<Longrightarrow> pstate (process_chunked p) = PS_ChunkedBody \<Longrightarrow>
   process_chunked (add_bytes d p) = process_chunked (add_bytes d (process_chunked p))"
proof (induction p rule: rounds_induct)
  case (rounds p)
  obtain b q where r: "chunk_round p = (b, q)" by fastforce
  show ?case
  proof (cases b)
    case True
    with r rounds have q: "pstate q = PS_ChunkedBody" by (simp add: round_go_pstate)
    have "process_chunked (add_bytes d p) = process_chunked (add_bytes d q)"
      using round_add[OF rounds.prems(1) r q] True rounds.prems by (simp add: chunked_eq)
    also have "process_chunked p = process_chunked q"
      using r True rounds.prems by (simp add: chunked_eq[of p])
    ultimately show ?thesis
      using rounds.IH[of q] r True q rounds.prems by simp
  next
    case False
    with r rounds.prems have pq: "process_chunked p = q" by (simp add: chunked_eq)
    with rounds.prems have q: "pstate q = PS_ChunkedBody" by simp
    show ?thesis
      using round_add[OF rounds.prems(1) r q] False rounds.prems pq by (simp add: chunked_eq)
  qed
qed


section \<open>Fragmentation\<close>

definition no_blank_line :: "http_parser \<Rightarrow> bool" where
  "no_blank_line p \<longleftrightarrow> \<not> (pstate p = PS_RequestLine \<and> prefix crlf (partial p))"

lemma process_cong:
  assumes "pstate p = pstate q" and "process_state p = process_state q" and "\<not> parser_done p"
  shows "process p = process q"
proof -
  have q: "\<not> parser_done q" using assms by (simp add: parser_done_def)
  show ?thesis
    by (simp only: process_round[OF assms(3)] process_round[OF q] assms(1,2))
qed

lemma extract_line_Nil: "extract_line p = Some [] \<Longrightarrow> prefix crlf (partial p)"
  by (cases "partial p") (auto simp: extract_line_def prefix_crlf_iff split: if_splits option.splits dest: find_char_SomeD)

lemma request_line_states:
  assumes "no_blank_line p" and "pstate p = PS_RequestLine" and "extract_line p = Some line"
  shows "pstate (process_request_line p) = PS_Headers \<or> pstate (process_request_line p) = PS_Error"
  using assms extract_line_Nil[of p]
  by (cases "line = []") (simp_all add: process_request_line_def no_blank_line_def split: prod.split)

lemma request_line_stall: "extract_line p = None \<Longrightarrow> process_request_line p = p"
  by (simp add: process_request_line_def)

lemma headers_states:
  "pstate p = PS_Headers \<Longrightarrow> pstate (process_headers p) \<in> {PS_Headers, PS_Body, PS_ChunkedBody, PS_Complete}"
proof (induction p rule: lines_induct)
  case (lines p)
  have "pstate (finalize_headers (consume_partial 2 p)) \<in> {PS_Body, PS_ChunkedBody, PS_Complete}"
    by (simp add: finalize_headers_def Let_def)
  with lines show ?case
    by (simp add: headers_eq[of p] consume_line_def split: option.split)
qed

lemma body_states:
  assumes "pstate p = PS_Body"
  shows "pstate (process_body p) = PS_Body \<or> pstate (process_body p) = PS_Complete"
  using assms by (simp add: process_body_def Let_def)

lemma round_stop_states:
  assumes "chunk_round p = (False, q)" and "pstate p = PS_ChunkedBody"
  shows "pstate q \<in> {PS_ChunkedBody, PS_Complete, PS_Error}"
  using assms by (auto simp: chunk_round_def chunk_size_line_def chunk_data_def Let_def check_size_limit_def
      dest: trailer_fields split: chunk_phase.splits option.splits if_splits)

lemma chunked_states:
  "pstate p = PS_ChunkedBody \<Longrightarrow> pstate (process_chunked p) \<in> {PS_ChunkedBody, PS_Complete, PS_Error}"
proof (induction p rule: rounds_induct)
  case (rounds p)
  obtain b q where r: "chunk_round p = (b, q)" by fastforce
  show ?case
    using rounds.IH[of q] rounds.prems r round_go_pstate[of p q] round_stop_states[of p q]
    by (cases b) (simp_all add: chunked_eq)
qed

lemma process_state_add:
  assumes "no_blank_line p" and "\<not> parser_done p" and "\<not> parser_done (process_state p)" and "d \<noteq> []"
  shows "process (add_bytes d p) = process (add_bytes d (process_state p))"
proof (cases "pstate p")
  case PS_RequestLine
  show ?thesis
  proof (cases "extract_line p")
    case None
    with PS_RequestLine show ?thesis by (simp add: process_state_def request_line_stall)
  next
    case (Some line)
    with assms PS_RequestLine have "pstate (process_request_line p) = PS_Headers"
      using request_line_states[of p line] by (auto simp: process_state_def parser_done_def)
    then show ?thesis
      using assms PS_RequestLine request_line_add[OF Some, of d] process_round[of "add_bytes d p"]
      by (simp add: process_state_def parser_done_def)
  qed
next
  case PS_Headers
  show ?thesis
  proof (cases "pstate (process_headers p) = PS_Headers")
    case True
    then show ?thesis
      using assms PS_Headers headers_add[OF PS_Headers, of d]
      by (intro process_cong) (simp_all add: process_state_def parser_done_def)
  next
    case False
    then show ?thesis
      using assms PS_Headers headers_add[OF PS_Headers, of d] process_round[of "add_bytes d p"]
        headers_states[OF PS_Headers]
      by (auto simp: process_state_def parser_done_def parser_waits_def)
  qed
next
  case PS_Body
  then show ?thesis
    using assms body_add[OF PS_Body, of d] body_states[OF PS_Body]
    by (intro process_cong) (auto simp: process_state_def parser_done_def)
next
  case PS_ChunkedBody
  then show ?thesis
    using assms chunked_add[OF PS_ChunkedBody, of d] chunked_states[OF PS_ChunkedBody]
    by (intro process_cong) (auto simp: process_state_def parser_done_def)
qed (use assms in \<open>simp_all add: parser_done_def\<close>)

lemma no_blank_line_next:
  "no_blank_line p \<Longrightarrow> \<not> parser_done p \<Longrightarrow> no_blank_line (process_state p)"
  using headers_states[of p] body_states[of p] chunked_states[of p] request_line_states[of p]
    request_line_stall[of p]
  by (cases "pstate p"; cases "extract_line p")
    (auto simp: no_blank_line_def process_state_def parser_done_def)

lemma process_add:
  assumes "process p = Some q" and "no_blank_line p" and "\<not> parser_done q" and "d \<noteq> []"
  shows "process (add_bytes d p) = process (add_bytes d q)"
  using assms
proof (induction p q rule: process_induct)
  case (step p q)
  then show ?case 
    using process_state_add[of p d] no_blank_line_next[of p] by auto
qed (simp_all add: process_state_add)

section \<open>Calls that do not return\<close>

definition stuck :: "http_parser \<Rightarrow> bool" where
  "stuck p \<longleftrightarrow> process_state p = p \<and> \<not> parser_done p \<and> \<not> parser_waits p"

lemma stuck_diverges:
  assumes "stuck p"
  shows "process p = None"
proof (rule ccontr)
  assume "process p \<noteq> None"
  then obtain q where "process p = Some q" by auto
  then have "\<not> stuck p"
    by (induction p q rule: process_induct) (auto simp: stuck_def)
  with assms show False by simp
qed

lemma add_bytes_Nil [simp]: "add_bytes [] p = p"
  by (simp add: add_bytes_def)

lemma chunked_idem:
  "pstate p = PS_ChunkedBody \<Longrightarrow> pstate (process_chunked p) = PS_ChunkedBody \<Longrightarrow>
   process_chunked (process_chunked p) = process_chunked p"
  using chunked_add[of p "[]"] by simp

lemma process_body_returns:
  assumes "pstate p = PS_Body"
  shows "\<exists>q. process p = Some q"
proof -
  let ?q = "process_body p"
  have r: "process p = (if parser_waits ?q then Some ?q else process ?q)"
    using assms by (subst process_round) (simp_all add: parser_done_def process_state_def)
  consider "content_length p \<le> 0"
    | "0 < content_length p" "body_remaining p \<le> length (partial p)"
    | "0 < content_length p" "length (partial p) < body_remaining p"
    by linarith
  then have "parser_done ?q \<or> parser_waits ?q"
    using assms by cases (simp_all add: body_empty body_full body_part parser_done_def parser_waits_def)
  with r show ?thesis by auto
qed

lemma process_headers_returns:
  assumes "pstate p = PS_Headers" and "pstate (process_headers p) \<noteq> PS_ChunkedBody"
  shows "\<exists>q. process p = Some q"
proof -
  let ?q = "process_headers p"
  have r: "process p = (if parser_waits ?q then Some ?q else process ?q)"
    using assms by (subst process_round) (simp_all add: parser_done_def process_state_def)
  show ?thesis
    using r headers_states[OF assms(1)] assms(2) process_body_returns[of ?q]
    by (auto simp: parser_done_def parser_waits_def)
qed

lemma request_line_any_state:
  "pstate p = PS_RequestLine \<Longrightarrow> pstate (process_request_line p) \<in> {PS_RequestLine, PS_Headers, PS_Error}"
  by (simp add: process_request_line_def consume_line_def split: option.split prod.split)

lemma chunked_hangs_iff:
  assumes "pstate p = PS_ChunkedBody"
  shows "process p = None \<longleftrightarrow>
    pstate (process_chunked p) = PS_ChunkedBody \<and> partial (process_chunked p) \<noteq> []"
proof -
  let ?q = "process_chunked p"
  have r: "process p = (if parser_waits ?q then Some ?q else process ?q)"
    using assms by (subst process_round) (simp_all add: parser_done_def process_state_def)
  show ?thesis
  proof (cases "pstate ?q = PS_ChunkedBody")
    case True
    then have "stuck ?q" if "partial ?q \<noteq> []"
      using that chunked_idem[OF assms True]
      by (simp add: stuck_def parser_done_def parser_waits_def process_state_def)
    with True r stuck_diverges[of ?q] show ?thesis
      by (cases "partial ?q = []") (simp_all add: parser_waits_def)
  next
    case False
    with chunked_states[OF assms] have "parser_done ?q" "\<not> parser_waits ?q"
      by (auto simp: parser_done_def parser_waits_def)
    with r False show ?thesis by simp
  qed
qed

section \<open>The counters never exceed what they count towards\<close>

definition parser_inv :: "http_parser \<Rightarrow> bool" where
  "parser_inv p \<longleftrightarrow>
     content_length p \<le> int_max \<and> chunk_size p < size_mod
     \<and> (pstate p = PS_Body \<longrightarrow> body_read p \<le> nat (content_length p))
     \<and> (pstate p = PS_ChunkedBody \<and> chunk_phase_of p = CP_Data \<longrightarrow> chunk_read p \<le> chunk_size p)"

lemma hex_digit_bound: "hex_digit c = Some d \<Longrightarrow> d < 16"
  by (auto simp: hex_digit_def Let_def split: if_splits)

lemma shift_bound: "d < 16 \<Longrightarrow> (v * 16) mod size_mod + d < size_mod"
proof -
  assume "d < 16"
  have "(v * 16) mod size_mod = (v mod 2 ^ 60) * 16"
    using mult_mod_right[of 16 v "2 ^ 60"] by (simp add: size_mod_def mult.commute)
  moreover have "v mod 2 ^ 60 < 2 ^ 60" by simp
  ultimately show ?thesis using \<open>d < 16\<close> by (simp add: size_mod_def)
qed

lemma parse_hex_bound: "parse_hex s = Some n \<Longrightarrow> n < size_mod"
proof -
  have "parse_hex_loop v s = Some n \<Longrightarrow> v < size_mod \<Longrightarrow> n < size_mod" for v
    by (induction v s rule: parse_hex_loop.induct)
      (auto dest: hex_digit_bound simp: shift_bound split: option.splits)
  then show "parse_hex s = Some n \<Longrightarrow> n < size_mod"
    by (auto simp: parse_hex_def size_mod_def split: if_splits)
qed

lemma inv_finalize [gw_inv]:
  assumes "parser_inv p"
  shows "parser_inv (finalize_headers p)"
proof -
  have d: "content_length (detect_chunked p) \<le> int_max" "chunk_size (detect_chunked p) < size_mod"
    using assms by (simp_all add: detect_chunked_def parser_inv_def split: option.split)
  have r: "content_length (read_content_length p) \<le> int_max" "chunk_size (read_content_length p) < size_mod"
    if "content_length p \<le> int_max" "chunk_size p < size_mod" for p
    using that by (auto simp: read_content_length_def dest: parse_int_safe_range split: option.split)
  from d r[OF d] show ?thesis
    by (simp add: finalize_headers_def Let_def parser_inv_def size_mod_def)
qed

lemma inv_consume [simp]: "parser_inv (consume_partial n p) = parser_inv p"
  by (simp add: parser_inv_def)

lemma inv_request [simp]: "parser_inv (p\<lparr>request := r\<rparr>) = parser_inv p"
  by (simp add: parser_inv_def)

lemma inv_idle:
  "parser_inv p \<Longrightarrow> s \<notin> {PS_Body, PS_ChunkedBody} \<Longrightarrow> parser_inv (p\<lparr>pstate := s\<rparr>)"
  by (simp add: parser_inv_def)

lemma inv_request_line [gw_inv]: "parser_inv p \<Longrightarrow> parser_inv (process_request_line p)"
  by (simp add: process_request_line_def consume_line_def inv_idle split: option.split prod.split)

lemma inv_headers [gw_inv]: "parser_inv p \<Longrightarrow> parser_inv (process_headers p)"
proof (induction p rule: lines_induct)
  case (lines p)
  then show ?case
    by (subst headers_eq) (auto simp: consume_line_def intro: inv_finalize split: option.split)
qed

lemma inv_extract [simp]: "parser_inv (extract_body p) = parser_inv p"
  by (simp add: extract_body_def split: option.split)

lemma inv_body [gw_inv]:
  assumes "parser_inv p" and "pstate p = PS_Body"
  shows "parser_inv (process_body p)"
  using assms
  by (auto simp: process_body_def Let_def min_def parser_inv_def extract_body_def split: option.split)

lemma inv_trailer: "process_trailer p = (b, q) \<Longrightarrow> parser_inv p \<Longrightarrow> parser_inv q"
proof (induction p rule: lines_induct)
  case (lines p)
  show ?case
    using lines.prems lines.IH[of _ "request p"]
    by (subst (asm) trailer_eq)
      (auto simp: consume_line_def parser_inv_def split: if_splits option.splits)
qed

lemma inv_round [gw_inv]:
  assumes "chunk_round p = (b, q)" and "parser_inv p" and "pstate p = PS_ChunkedBody"
  shows "parser_inv q"
proof (cases "chunk_phase_of p")
  case CP_SizeLine
  with assms show ?thesis
    by (auto simp: chunk_round_phase chunk_size_line_def Let_def check_size_limit_def parser_inv_def
        dest: parse_hex_bound split: option.splits if_splits)
next
  case CP_Data
  with assms show ?thesis
    by (auto simp: chunk_round_phase chunk_data_def Let_def check_size_limit_def parser_inv_def
        split: if_splits)
next
  case CP_Trailer
  with assms show ?thesis by (simp add: chunk_round_phase inv_trailer)
next
  case CP_End
  with assms show ?thesis by (auto simp: chunk_round_phase inv_idle)
qed

lemma inv_chunked [gw_inv]: "pstate p = PS_ChunkedBody \<Longrightarrow> parser_inv p \<Longrightarrow> parser_inv (process_chunked p)"
proof (induction p rule: rounds_induct)
  case (rounds p)
  obtain b q where r: "chunk_round p = (b, q)" by fastforce
  show ?case
    using rounds.IH[of q] rounds.prems r round_go_pstate[of p q] inv_round[OF r]
    by (cases b) (simp_all add: chunked_eq)
qed

lemma inv_process_state [gw_inv]: "parser_inv p \<Longrightarrow> parser_inv (process_state p)"
  by (simp add: process_state_def gw_inv split: parser_state.split)

lemma inv_process: "process p = Some q \<Longrightarrow> parser_inv p \<Longrightarrow> parser_inv q"
  by (induction p q rule: process_induct) (simp_all add: gw_inv)

lemma inv_parse: "parse d p = Some (n, q) \<Longrightarrow> parser_inv p \<Longrightarrow> parser_inv q"
  using inv_process[of "p\<lparr>partial := partial p @ d\<rparr>"]
  by (auto simp: parse_def check_size_limit_def parser_inv_def split: if_splits option.splits)

text \<open>What a caller can do with a parser: feed it bytes or reset it.\<close>

inductive parser_reachable :: "int \<Rightarrow> http_parser \<Rightarrow> bool" for mx where
  start: "parser_reachable mx (new_parser mx)"
| feed: "parser_reachable mx p \<Longrightarrow> parse d p = Some (n, q) \<Longrightarrow> parser_reachable mx q"
| again: "parser_reachable mx p \<Longrightarrow> parser_reachable mx (parser_reset p)"

lemma inv_reachable: "parser_reachable mx p \<Longrightarrow> parser_inv p"
proof (induction rule: parser_reachable.induct)
  case start
  then show ?case by (simp add: parser_inv_def new_parser_def size_mod_def int_max_def)
next
  case (feed p d n q)
  then show ?case by (simp add: inv_parse)
next
  case (again p)
  then show ?case by (simp add: parser_inv_def parser_reset_def size_mod_def int_max_def)
qed

section \<open>Properties\<close>

lemma parse_stream:
  assumes "parse d p = Some (n, q)" and "\<not> parser_done p"
  shows "raw q @ partial q = raw p @ partial p @ d
    \<and> (pstate q = PS_Error \<or> length (raw q) \<le> size_of_int (max_size p))"
proof -
  from assms obtain q1 where q1: "process (add_bytes d p) = Some q1" "q = snd (check_size_limit q1)"
    by (auto simp: parse_def parser_done_def add_bytes_def split: option.splits prod.splits)
  then have "stream q1 = stream (add_bytes d p)" by (simp add: stream_process)
  with q1(2) show ?thesis by (auto simp: stream_def check_size_limit_def)
qed

text \<open>C6: the result of parsing does not depend on how the bytes are cut into segments. If a first
  call returns in a state that still waits for input, feeding the remaining bytes gives the state
  that one call with all the bytes gives. The third hypothesis excludes a blank line before the
  request line, after which \<^verbatim>\<open>process()\<close> returns without looking at the rest.\<close>

theorem parse_fragmentation:
  assumes "parse d1 p = Some (n, q)" and "\<not> parser_done q"
    and "\<not> (pstate p = PS_RequestLine \<and> prefix crlf (partial p @ d1))" and "d2 \<noteq> []"
  shows "map_option snd (parse (d1 @ d2) p) = map_option snd (parse d2 q)"
proof -
  have p: "\<not> parser_done p" using assms(1,2) by (auto simp: parse_def parser_done_def)
  with assms(1,2) have q: "process (add_bytes d1 p) = Some q"
    by (auto simp: parse_def parser_done_def check_size_limit_def add_bytes_def
        split: option.splits if_splits)
  have "process (add_bytes (d1 @ d2) p) = process (add_bytes d2 (add_bytes d1 p))"
    by (simp add: add_bytes_def)
  also have "\<dots> = process (add_bytes d2 q)"
    using assms(2-4) by (intro process_add[OF q]) (simp_all add: no_blank_line_def)
  finally have "process (add_bytes (d1 @ d2) p) = process (add_bytes d2 q)" .
  then show ?thesis
    using p assms(2)
    by (simp add: parse_def parser_done_def split: option.split prod.split flip: add_bytes_def)
qed

definition half_request :: bytes where
  "half_request = ''GET / H'' @ crlf @ ''A:b'' @ crlf"

definition half_parsed :: http_parser where
  "half_parsed = (new_parser 64)\<lparr>pstate := PS_Headers, raw := half_request,
     request := \<lparr>req_method = ''GET'', req_path = ''/'', req_version = ''H'',
       req_headers = [(''a'', ''b'')], req_body = []\<rparr>\<rparr>"

lemma parse_half_request: "parse half_request (new_parser 64) = Some (14, half_parsed)"
  by code_simp

theorem parse_fragmentation_witness:
  "map_option snd (parse (half_request @ crlf) (new_parser 64)) =
   Some (half_parsed\<lparr>pstate := PS_Complete, raw := half_request @ crlf\<rparr>)"
proof -
  have "map_option snd (parse (half_request @ crlf) (new_parser 64)) = map_option snd (parse crlf half_parsed)"
    by (rule parse_fragmentation[OF parse_half_request])
      (simp_all add: half_parsed_def half_request_def parser_done_def new_parser_def crlf_def CR_def)
  also have "\<dots> = Some (half_parsed\<lparr>pstate := PS_Complete, raw := half_request @ crlf\<rparr>)"
    by code_simp
  finally show ?thesis .
qed

text \<open>C20: the parser neither loses, duplicates nor reorders bytes, and a message it has not
  refused is within the size limit.\<close>

theorem parse_conserves_bytes:
  assumes "parse d p = Some (n, q)" and "\<not> parser_done p"
  shows "raw q @ partial q = raw p @ partial p @ d
    \<and> (pstate q = PS_Error \<or> length (raw q) \<le> size_of_int (max_size p))"
  using assms by (rule parse_stream)

theorem parse_conserves_bytes_witness:
  "raw half_parsed @ partial half_parsed = half_request \<and> length (raw half_parsed) \<le> size_of_int 64"
  using parse_conserves_bytes[OF parse_half_request]
  by (simp add: new_parser_def parser_done_def half_parsed_def)

text \<open>a call of \<^verbatim>\<open>process()\<close> that does not enter the chunked state returns.\<close>

theorem process_returns:
  assumes "pstate p \<noteq> PS_ChunkedBody" and "pstate (process_state p) \<noteq> PS_ChunkedBody"
    and "pstate (process_state (process_state p)) \<noteq> PS_ChunkedBody"
  shows "\<exists>q. process p = Some q"
proof (cases "pstate p")
  case PS_RequestLine
  let ?q = "process_request_line p"
  have r: "process p = (if parser_waits ?q \<and> pstate ?q \<noteq> PS_Headers then Some ?q else process ?q)"
    using PS_RequestLine by (subst process_round) (simp_all add: parser_done_def process_state_def)
  show ?thesis
    using r request_line_any_state[OF PS_RequestLine] assms process_headers_returns[of ?q] PS_RequestLine
    by (auto simp: parser_done_def parser_waits_def process_state_def)
next
  case PS_Headers
  with assms show ?thesis using process_headers_returns[of p] by (simp add: process_state_def)
next
  case PS_Body
  then show ?thesis by (rule process_body_returns)
qed (use assms in \<open>simp_all add: parser_done_def\<close>)

theorem process_returns_witness: "\<exists>q. process ((new_parser 64)\<lparr>partial := half_request\<rparr>) = Some q"
  by (rule process_returns) code_simp+

text \<open>a call that is made in the chunked state never returns exactly when the chunk decoder
  stops for want of bytes while unconsumed bytes are left: \<^verbatim>\<open>process()\<close> calls it again on the same
  state for ever.\<close>

theorem process_chunked_hangs_iff:
  assumes "pstate p = PS_ChunkedBody"
  shows "process p = None \<longleftrightarrow>
    pstate (process_chunked p) = PS_ChunkedBody \<and> partial (process_chunked p) \<noteq> []"
  using assms by (rule chunked_hangs_iff)

theorem process_chunked_hangs_iff_witness:
  "process ((new_parser 64)\<lparr>pstate := PS_ChunkedBody, partial := ''5''\<rparr>) = None"
proof -
  let ?p = "(new_parser 64)\<lparr>pstate := PS_ChunkedBody, partial := ''5''\<rparr>"
  have "process_chunked ?p = ?p" by code_simp
  then show ?thesis
    using process_chunked_hangs_iff[of ?p] by (simp add: new_parser_def)
qed

text \<open>the size limit does not bound what the parser buffers. However small the limit, a line
  without an end is kept whole and the parser asks for more.\<close>

theorem parse_buffers_unterminated_line:
  assumes "CR \<notin> set d"
  shows "parse d (new_parser mx) = Some (length d, (new_parser mx)\<lparr>partial := d\<rparr>)"
proof -
  let ?p = "(new_parser mx)\<lparr>partial := d\<rparr>"
  have "extract_line ?p = None" using assms by (simp add: extract_line_def option.case_eq_if)
  then have "process_state ?p = ?p" by (simp add: process_state_def request_line_stall new_parser_def)
  then have "process ?p = Some ?p"
    by (subst process_round) (simp_all add: parser_done_def parser_waits_def new_parser_def)
  then show ?thesis by (simp add: parse_def new_parser_def check_size_limit_def)
qed

theorem parse_buffers_unterminated_line_witness:
  "parse ''GET /aaaaaaaaaaaaaaaa'' (new_parser 4) = Some (21, (new_parser 4)\<lparr>partial := ''GET /aaaaaaaaaaaaaaaa''\<rparr>)"
  using parse_buffers_unterminated_line[of "''GET /aaaaaaaaaaaaaaaa''" 4] by (simp add: CR_def)

text \<open>in every state a parser can reach, the \<^verbatim>\<open>size_t\<close> differences that say how many body or
  chunk bytes are missing do not wrap around.\<close>

theorem parser_differences_exact:
  assumes "parser_reachable mx p"
  shows "(pstate p = PS_Body \<longrightarrow>
      sub64 (nat (content_length p)) (body_read p) = nat (content_length p) - body_read p)
    \<and> (pstate p = PS_ChunkedBody \<and> chunk_phase_of p = CP_Data \<longrightarrow>
      sub64 (chunk_size p) (chunk_read p) = chunk_size p - chunk_read p)"
  using inv_reachable[OF assms]
  by (auto simp: parser_inv_def size_mod_def int_max_def intro!: sub64_le)

theorem parser_differences_exact_witness:
  "(pstate half_parsed = PS_Body \<longrightarrow>
      sub64 (nat (content_length half_parsed)) (body_read half_parsed)
        = nat (content_length half_parsed) - body_read half_parsed)
    \<and> (pstate half_parsed = PS_ChunkedBody \<and> chunk_phase_of half_parsed = CP_Data \<longrightarrow>
      sub64 (chunk_size half_parsed) (chunk_read half_parsed) = chunk_size half_parsed - chunk_read half_parsed)"
  by (rule parser_differences_exact) (rule feed[OF start parse_half_request])

end
