(* ===== verification/Gw_Http_Framing.thy ===== *)
theory Gw_Http_Framing
  imports Gw_Http_Parser
begin

text \<open>
  Whole requests through the incremental parser: a request printed with a \<^verbatim>\<open>Content-Length\<close> body or
  with a chunked body is recognised exactly, whatever follows it on the connection, and the
  request it yields is the one the one-shot parser yields. A chunked request whose last received
  segment ends inside a chunk-size line makes the parser loop for ever.
\<close>

section \<open>Whole requests\<close>

lemma extract_line_clean:
  "partial p = l @ crlf @ r \<Longrightarrow> CR \<notin> set l \<Longrightarrow> extract_line p = Some l"
  by (simp add: extract_line_def crlf_def nth_append)

definition absorb :: "bytes \<Rightarrow> http_parser \<Rightarrow> http_parser" where
  "absorb s p = p\<lparr>raw := raw p @ s, partial := drop (length s) (partial p)\<rparr>"

lemma consume_absorb:
  "partial p = s @ r \<Longrightarrow> n = length s \<Longrightarrow> consume_partial n p = absorb s p"
  by (simp add: consume_partial_def absorb_def)

lemma absorb_fields [simp]:
  "pstate (absorb s p) = pstate p"
  "request (absorb s p) = request p"
  "raw (absorb s p) = raw p @ s"
  "partial (absorb s p) = drop (length s) (partial p)"
  "max_size (absorb s p) = max_size p"
  "is_chunked (absorb s p) = is_chunked p"
  "content_length (absorb s p) = content_length p"
  "body_read (absorb s p) = body_read p"
  "chunk_phase_of (absorb s p) = chunk_phase_of p"
  "chunk_size (absorb s p) = chunk_size p"
  "chunk_read (absorb s p) = chunk_read p"
  by (simp_all add: absorb_def)

lemma absorb_partial: "partial p = s @ r \<Longrightarrow> partial (absorb s p) = r"
  by simp

lemma absorb_absorb: "absorb t (absorb s p) = absorb (s @ t) p"
  by (simp add: absorb_def add.commute)

lemma absorb_request: "(absorb s p)\<lparr>request := r\<rparr> = absorb s (p\<lparr>request := r\<rparr>)"
  by (simp add: absorb_def)

lemma headers_unlines:
  assumes "\<forall>l \<in> set ls. clean_line l" and "partial p = unlines_crlf ls @ crlf @ r"
  shows "process_headers p =
    finalize_headers (absorb (unlines_crlf ls @ crlf) (p\<lparr>request := fold parse_header_line ls (request p)\<rparr>))"
  using assms
proof (induction ls arbitrary: p)
  case Nil
  then have "prefix crlf (partial p)" by simp
  moreover have "consume_partial 2 p = absorb crlf p"
    by (rule consume_absorb[where r = r]) (use Nil in simp_all)
  ultimately show ?case by (simp add: headers_eq[of p])
next
  case (Cons l ls)
  then have l: "clean_line l" "CR \<notin> set l" by (simp_all add: clean_line_def)
  have e: "extract_line p = Some l"
    using Cons.prems l by (intro extract_line_clean) simp_all
  have n: "\<not> prefix crlf (partial p)"
    using Cons.prems l(1) clean_line_no_crlf by simp
  let ?p = "p\<lparr>request := parse_header_line l (request p)\<rparr>"
  have c: "consume_line l ?p = absorb (l @ crlf) ?p"
    unfolding consume_line_def by (rule consume_absorb) (simp_all add: Cons.prems)
  have "process_headers p = process_headers (absorb (l @ crlf) ?p)"
    by (simp add: headers_eq[of p] n e c)
  also have "\<dots> = finalize_headers (absorb (unlines_crlf ls @ crlf)
      ((absorb (l @ crlf) ?p)\<lparr>request := fold parse_header_line ls (request (absorb (l @ crlf) ?p))\<rparr>))"
    by (rule Cons.IH) (use Cons.prems in simp_all)
  finally show ?case by (simp add: absorb_request absorb_absorb)
qed

lemma fold_header_lines:
  "\<forall>h \<in> set hs. wf_header h \<Longrightarrow>
   fold parse_header_line (map (\<lambda>(k, x). k @ '': '' @ x) hs) req =
     req\<lparr>req_headers := header_map hs (req_headers req)\<rparr>"
proof (induction hs arbitrary: req)
  case (Cons h hs)
  obtain k x where "h = (k, x)" by fastforce
  with Cons show ?case
    using parse_header_line_ok[of k x req] by (simp add: header_map_def wf_header_def)
qed (simp add: header_map_def)

text \<open>The state in which the parser has read the head of a request and not yet looked at it.\<close>

definition after_head :: "int \<Rightarrow> bytes \<Rightarrow> bytes \<Rightarrow> bytes \<Rightarrow> (bytes \<times> bytes) list \<Rightarrow> bytes \<Rightarrow> http_parser" where
  "after_head mx m u v hs rest =
     (new_parser mx)\<lparr>pstate := PS_Headers, raw := render_request m u v hs [], partial := rest,
        request := http_request_init\<lparr>req_method := m, req_path := u, req_version := v,
          req_headers := header_map hs []\<rparr>\<rparr>"

lemma process_head:
  assumes "wf_start_line m u v" and "\<forall>h \<in> set hs. wf_header h"
    and q: "q = finalize_headers (after_head mx m u v hs rest)"
  shows "process ((new_parser mx)\<lparr>partial := render_request m u v hs rest\<rparr>) =
    (if parser_waits q then Some q else process q)"
proof -
  let ?l = "m @ '' '' @ u @ '' '' @ v"
  let ?ls = "map (\<lambda>(k, x). k @ '': '' @ x) hs"
  let ?p0 = "(new_parser mx)\<lparr>partial := render_request m u v hs rest\<rparr>"
  define req where "req = http_request_init\<lparr>req_method := m, req_path := u, req_version := v\<rparr>"
  define p1 where "p1 = (absorb (?l @ crlf) (?p0\<lparr>request := req\<rparr>))\<lparr>pstate := PS_Headers\<rparr>"
  have clean: "clean_line ?l" "\<forall>l \<in> set ?ls. clean_line l"
    using clean_lines_request[OF assms(1,2)] by simp_all
  have part: "partial ?p0 = ?l @ crlf @ (unlines_crlf ?ls @ crlf @ rest)"
    by (simp add: render_request_def)
  have e: "extract_line ?p0 = Some ?l"
    by (rule extract_line_clean[OF part]) (use clean in \<open>simp add: clean_line_def\<close>)
  have req: "parse_request_line ?l (request ?p0) = (True, req)"
    using assms(1) parse_request_line_ok[of m u v http_request_init]
    by (simp add: wf_start_line_def new_parser_def req_def)
  have c: "consume_line ?l (?p0\<lparr>request := req\<rparr>) = absorb (?l @ crlf) (?p0\<lparr>request := req\<rparr>)"
    unfolding consume_line_def by (rule consume_absorb[where r = "unlines_crlf ?ls @ crlf @ rest"]) (simp_all add: render_request_def)
  have s0: "process_state ?p0 = p1"
    unfolding process_state_def process_request_line_def e req option.case prod.case c p1_def
    by (simp add: new_parser_def)
  have "partial p1 = partial (absorb (?l @ crlf) (?p0\<lparr>request := req\<rparr>))"
    by (simp only: p1_def) simp
  also have "\<dots> = unlines_crlf ?ls @ crlf @ rest"
    by (rule absorb_partial) (simp add: render_request_def)
  finally have p1: "partial p1 = unlines_crlf ?ls @ crlf @ rest" .
  have p1_fields: "pstate p1 = PS_Headers" "request p1 = req" "raw p1 = ?l @ crlf" "max_size p1 = mx"
    "\<not> is_chunked p1" "content_length p1 = -1" "body_read p1 = 0" "chunk_phase_of p1 = CP_SizeLine"
    "chunk_size p1 = 0" "chunk_read p1 = 0"
    by (simp_all add: p1_def new_parser_def)
  have "process_headers p1 = finalize_headers (absorb (unlines_crlf ?ls @ crlf)
      (p1\<lparr>request := fold parse_header_line ?ls (request p1)\<rparr>))"
    by (rule headers_unlines[OF clean(2) p1])
  also have "absorb (unlines_crlf ?ls @ crlf) (p1\<lparr>request := fold parse_header_line ?ls (request p1)\<rparr>)
      = after_head mx m u v hs rest"
    unfolding fold_header_lines[OF assms(2)] after_head_def
    by (rule http_parser.equality)
      (simp_all add: p1 p1_fields render_request_def req_def new_parser_def http_request_init_def)
  finally have s1: "process_state p1 = q"
    by (simp add: process_state_def p1_fields q)
  have "process ?p0 = process p1"
    using s0 p1_fields process_round[of ?p0] by (simp add: parser_done_def new_parser_def)
  also have "\<dots> = (if parser_waits q then Some q else process q)"
    using s1 p1_fields process_round[of p1] by (simp add: parser_done_def)
  finally show ?thesis .
qed

definition chunked_coding :: "(bytes \<times> bytes) list \<Rightarrow> bool" where
  "chunked_coding hs \<longleftrightarrow>
     (case map_of (header_map hs []) ''transfer-encoding'' of None \<Rightarrow> False | Some v \<Rightarrow> contains_icase ''chunked'' v)"

lemma after_head_fields [simp]:
  "raw (after_head mx m u v hs r) = render_request m u v hs []"
  "partial (after_head mx m u v hs r) = r"
  "req_headers (request (after_head mx m u v hs r)) = header_map hs []"
  "max_size (after_head mx m u v hs r) = mx"
  "\<not> is_chunked (after_head mx m u v hs r)"
  "content_length (after_head mx m u v hs r) = -1"
  by (simp_all add: after_head_def new_parser_def)

lemma finalize_plain:
  assumes "\<not> chunked_coding hs" and "map_of (header_map hs []) ''content-length'' = Some (show_nat n)"
    and "int n \<le> int_max"
  shows "finalize_headers (after_head mx m u v hs r) =
    (if 0 < n then (after_head mx m u v hs r)\<lparr>content_length := int n, pstate := PS_Body, body_read := 0\<rparr>
     else (after_head mx m u v hs r)\<lparr>content_length := int n, pstate := PS_Complete\<rparr>)"
proof -
  have d: "detect_chunked (after_head mx m u v hs r) = after_head mx m u v hs r"
    using assms(1) by (simp add: detect_chunked_def chunked_coding_def split: option.splits)
  have "parse_int_safe (show_nat n) (int (length (show_nat n))) = Some (int n)"
    using assms(3) parse_int_safe_digits[of "show_nat n" "[]"] show_nat_digits by auto
  then show ?thesis
    using assms(2) by (simp add: finalize_headers_def d read_content_length_def)
qed


lemma parse_eq:
  assumes "process ((new_parser mx)\<lparr>partial := d\<rparr>) = Some q" and "length (raw q) \<le> size_of_int (max_size q)"
    and "d \<noteq> []"
  shows "parse d (new_parser mx) = Some (length d, q)"
  using assms by (simp add: parse_def new_parser_def check_size_limit_def)

lemma render_append: "render_request m u v hs (s @ r) = render_request m u v hs s @ r"
  by (simp add: render_request_def)

lemma find_head_end:
  assumes "wf_start_line m u v" and "\<forall>h \<in> set hs. wf_header h"
  shows "find_sub crlf2 (render_request m u v hs s) = Some (length (render_request m u v hs []) - 4)"
    and "4 \<le> length (render_request m u v hs [])"
  using find_crlf2_unlines[OF _ clean_lines_request[OF assms], of s]
  by (simp_all add: render_request_def)

lemma render_nonempty [simp]: "render_request m u v hs s \<noteq> []"
  by (simp add: render_request_def)

text \<open>The state that holds a complete request with a plain body.\<close>

definition framed :: "int \<Rightarrow> bytes \<Rightarrow> bytes \<Rightarrow> bytes \<Rightarrow> (bytes \<times> bytes) list \<Rightarrow> bytes \<Rightarrow> bytes \<Rightarrow> http_parser" where
  "framed mx m u v hs body rest =
     (after_head mx m u v hs (body @ rest))\<lparr>raw := render_request m u v hs body, partial := rest,
       content_length := int (length body), pstate := PS_Complete, body_read := length body,
       request := \<lparr>req_method = m, req_path = u, req_version = v, req_headers = header_map hs [],
         req_body = body\<rparr>\<rparr>"

lemma process_whole_body:
  assumes "wf_start_line m u v" and "\<forall>h \<in> set hs. wf_header h" and "body \<noteq> []"
    and b: "b = (after_head mx m u v hs (body @ rest))\<lparr>content_length := int (length body),
      pstate := PS_Body, body_read := 0\<rparr>"
  shows "process b = Some (framed mx m u v hs body rest)"
proof -
  define t where "t = b\<lparr>raw := render_request m u v hs body, partial := rest, body_read := length body\<rparr>"
  have t: "take_body (length body) b = t"
    by (simp add: take_body_def b t_def consume_partial_def flip: render_append)
  have "drop (length (render_request m u v hs [])) (render_request m u v hs body) = body"
    using render_append[of m u v hs "[]" body] by simp
  then have e: "extract_body t = t\<lparr>request := (request t)\<lparr>req_body := body\<rparr>\<rparr>"
    using find_head_end(1)[OF assms(1,2), of body] find_head_end(2)[OF assms(1,2)]
    by (simp add: extract_body_def t_def b)
  have "body_remaining b = length body" "0 < content_length b" "length body \<le> length (partial b)"
    using assms(3) by (simp_all add: body_remaining_def b)
  then have pb: "process_state b = framed mx m u v hs body rest"
    by (simp add: body_full t e process_state_def b[THEN arg_cong[where f = pstate], simplified])
      (simp add: t_def b framed_def after_head_def new_parser_def http_request_init_def)
  have nd: "\<not> parser_done b" by (simp add: b parser_done_def)
  have d: "parser_done (framed mx m u v hs body rest)" "\<not> parser_waits (framed mx m u v hs body rest)"
    by (simp_all add: framed_def parser_done_def parser_waits_def)
  show ?thesis using process_round[OF nd] pb d by simp
qed

lemma process_plain_request:
  assumes "wf_start_line m u v" and "\<forall>h \<in> set hs. wf_header h" and "\<not> chunked_coding hs"
    and "map_of (header_map hs []) ''content-length'' = Some (show_nat (length body))"
    and "int (length body) \<le> int_max"
  shows "process ((new_parser mx)\<lparr>partial := render_request m u v hs (body @ rest)\<rparr>) =
    Some (framed mx m u v hs body rest)"
proof -
  let ?h = "after_head mx m u v hs (body @ rest)" and ?q = "framed mx m u v hs body rest"
  note fin = finalize_plain[OF assms(3-5), of mx m u v "body @ rest"]
  note hd = process_head[OF assms(1,2), of _ mx "body @ rest", OF refl]
  show ?thesis
  proof (cases "body = []")
    case True
    then have "finalize_headers ?h = ?h\<lparr>content_length := 0, pstate := PS_Complete\<rparr>"
      using fin by simp
    also have "\<dots> = ?q"
      using True by (simp add: framed_def after_head_def new_parser_def http_request_init_def)
    finally have "finalize_headers ?h = ?q" .
    moreover have "parser_done ?q" "\<not> parser_waits ?q"
      by (simp_all add: framed_def parser_done_def parser_waits_def)
    ultimately show ?thesis by (simp add: hd)
  next
    case False
    define b where "b = ?h\<lparr>content_length := int (length body), pstate := PS_Body, body_read := 0\<rparr>"
    have "finalize_headers ?h = b" "\<not> parser_waits b"
      using False by (simp_all add: fin b_def parser_waits_def)
    with process_whole_body[OF assms(1,2) False b_def] show ?thesis by (simp add: hd)
  qed
qed

section \<open>Chunked requests\<close>

text \<open>How a sender writes a chunk size: positional hexadecimal digits, each spelt in either case,
  after any number of zeros. A size line continues with nothing or with extensions after a
  semicolon.\<close>

fun hex_digits :: "nat \<Rightarrow> nat list" where
  "hex_digits n = (if n < 16 then [n] else hex_digits (n div 16) @ [n mod 16])"

declare hex_digits.simps [simp del]

definition hex_spelling :: "nat \<Rightarrow> char \<Rightarrow> bool" where
  "hex_spelling d c \<longleftrightarrow> c = ''0123456789abcdef'' ! d \<or> c = ''0123456789ABCDEF'' ! d"

definition hex_text :: "nat \<Rightarrow> bytes \<Rightarrow> bool" where
  "hex_text n w \<longleftrightarrow> (\<exists>z \<le> length w. list_all2 hex_spelling (replicate z 0 @ hex_digits n) w)"

definition wf_size_line :: "nat \<Rightarrow> bytes \<Rightarrow> bool" where
  "wf_size_line n line \<longleftrightarrow> CR \<notin> set line \<and> hex_text n (takeWhile (\<lambda>c. c \<noteq> CHR '';'') line)"

definition wf_chunk :: "bytes \<times> bytes \<Rightarrow> bool" where
  "wf_chunk ch \<longleftrightarrow> wf_size_line (length (snd ch)) (fst ch) \<and> snd ch \<noteq> []"

definition encode_chunk :: "bytes \<times> bytes \<Rightarrow> bytes" where
  "encode_chunk ch = fst ch @ crlf @ snd ch @ crlf"

definition wf_last_chunk :: "bytes \<Rightarrow> bytes list \<Rightarrow> bool" where
  "wf_last_chunk s ts \<longleftrightarrow> wf_size_line 0 s \<and> (\<forall>t \<in> set ts. clean_line t)"

definition encode_chunks :: "(bytes \<times> bytes) list \<Rightarrow> bytes \<Rightarrow> bytes list \<Rightarrow> bytes" where
  "encode_chunks cs s ts = concat (map encode_chunk cs) @ s @ crlf @ unlines_crlf ts @ crlf"

definition hex_value :: "nat \<Rightarrow> nat list \<Rightarrow> nat" where
  "hex_value v ds = foldl (\<lambda>v d. v * 16 + d) v ds"

lemma hex_value_simps [simp]:
  "hex_value v [] = v" "hex_value v (d # ds) = hex_value (v * 16 + d) ds"
  "hex_value v (ds @ es) = hex_value (hex_value v ds) es"
  by (simp_all add: hex_value_def)

lemma hex_value_ge: "v \<le> hex_value v ds"
proof (induction ds arbitrary: v)
  case (Cons d ds)
  have "v \<le> v * 16 + d" by simp
  also have "\<dots> \<le> hex_value (v * 16 + d) ds" by (rule Cons.IH)
  finally show ?case by simp
qed simp

lemma hex_value_zeros [simp]: "hex_value 0 (replicate z 0) = 0"
  by (induction z) simp_all

lemma hex_value_digits: "hex_value 0 (hex_digits n) = n"
proof (induction n rule: hex_digits.induct)
  case (1 n)
  then show ?case by (simp add: hex_digits.simps[of n])
qed

lemma hex_digits_bound: "d \<in> set (hex_digits n) \<Longrightarrow> d < 16"
proof (induction n rule: hex_digits.induct)
  case (1 n)
  then show ?case by (auto simp: hex_digits.simps[of n] split: if_splits)
qed

lemma hex_digit_spelling:
  assumes "hex_spelling d c" and "d < 16"
  shows "hex_digit c = Some d"
proof -
  have "list_all (\<lambda>d. hex_digit (''0123456789abcdef'' ! d) = Some d
      \<and> hex_digit (''0123456789ABCDEF'' ! d) = Some d) [0..<16]"
    by code_simp
  then show ?thesis using assms by (auto simp: hex_spelling_def list_all_iff)
qed

lemma parse_hex_loop_spelling:
  assumes "list_all2 hex_spelling ds w" and "\<forall>d \<in> set ds. d < 16" and "hex_value v ds < size_mod"
  shows "parse_hex_loop v w = Some (hex_value v ds)"
  using assms
proof (induction arbitrary: v rule: list_all2_induct)
  case (Cons d ds c w)
  have "v * 16 + d < size_mod" using hex_value_ge[of "v * 16 + d" ds] Cons.prems(2) by simp
  then show ?case using Cons hex_digit_spelling[of d c] by simp
qed simp

lemma parse_hex_text:
  assumes "hex_text n w" and "n < size_mod"
  shows "parse_hex w = Some n"
proof -
  obtain z where z: "list_all2 hex_spelling (replicate z 0 @ hex_digits n) w"
    using assms(1) by (auto simp: hex_text_def)
  have "w \<noteq> []" using z by (auto simp: hex_digits.simps[of n] split: if_splits)
  moreover have "\<forall>d \<in> set (replicate z 0 @ hex_digits n). d < 16" by (auto dest: hex_digits_bound)
  ultimately show ?thesis
    using parse_hex_loop_spelling[OF z, of 0] assms(2) by (simp add: parse_hex_def hex_value_digits)
qed

lemma chunk_size_text_takeWhile: "chunk_size_text line = takeWhile (\<lambda>c. c \<noteq> CHR '';'') line"
proof (cases "find_char (CHR '';'') line")
  case None
  then have "\<forall>c \<in> set line. c \<noteq> CHR '';''" by auto
  then have "takeWhile (\<lambda>c. c \<noteq> CHR '';'') line = line" by (simp only: takeWhile_eq_all_conv)
  with None show ?thesis by (simp only: chunk_size_text_def option.case)
next
  case (Some i)
  then have i: "i < length line" "line ! i = CHR '';''" "CHR '';'' \<notin> set (take i line)"
    by (simp_all add: find_char_Some_iff)
  have "takeWhile (\<lambda>c. c \<noteq> CHR '';'') (take i line @ line ! i # drop (Suc i) line) = take i line"
    using i by (subst takeWhile_append2) auto
  with Some i(1) show ?thesis by (simp add: chunk_size_text_def id_take_nth_drop[symmetric])
qed

lemma size_of_int_bound: "size_of_int m < size_mod"
  by (simp add: size_of_int_def size_mod_def nat_less_iff)

lemma wf_size_lineD:
  assumes "wf_size_line n s" and "n < size_mod"
  shows "CR \<notin> set s" and "parse_hex (chunk_size_text s) = Some n"
  using assms by (simp_all add: wf_size_line_def chunk_size_text_takeWhile parse_hex_text)

lemma round_size_line:
  assumes "chunk_phase_of p = CP_SizeLine" and "partial p = s @ crlf @ r" and "CR \<notin> set s"
    and "parse_hex (chunk_size_text s) = Some n"
    and "0 < n \<Longrightarrow> length (raw p) + length s + 2 \<le> size_of_int (max_size p)"
  shows "chunk_round p = (True, p\<lparr>raw := raw p @ s @ crlf, partial := r, chunk_size := n,
    chunk_phase_of := (if n = 0 then CP_Trailer else CP_Data), chunk_read := (if n = 0 then chunk_read p else 0)\<rparr>)"
  using assms extract_line_clean[OF assms(2,3)]
  by (cases "n = 0")
    (simp_all add: chunk_round_phase chunk_size_line_def check_size_limit_def consume_partial_def Let_def)

lemma round_data:
  assumes "chunk_phase_of p = CP_Data" and "partial p = c @ r" and "c \<noteq> []"
    and "chunk_size p = length c" and "chunk_read p = 0"
    and "length (raw p) + length c \<le> size_of_int (max_size p)"
  shows "chunk_round p = (True, p\<lparr>raw := raw p @ c, partial := r, chunk_read := length c\<rparr>)"
  using assms
  by (simp add: chunk_round_phase chunk_data_def check_size_limit_def consume_partial_def Let_def)

lemma round_data_end:
  assumes "chunk_phase_of p = CP_Data" and "partial p = crlf @ r" and "chunk_size p = chunk_read p"
  shows "chunk_round p = (True, p\<lparr>raw := raw p @ crlf, partial := r, chunk_phase_of := CP_SizeLine\<rparr>)"
  using assms
  by (simp add: chunk_round_phase chunk_data_def consume_partial_def crlf_def numeral_2_eq_2)

lemma chunked_go:
  "pstate p = PS_ChunkedBody \<Longrightarrow> chunk_round p = (True, q) \<Longrightarrow> process_chunked p = process_chunked q"
  by (simp add: chunked_eq)

lemma chunked_one:
  assumes "pstate p = PS_ChunkedBody" and "chunk_phase_of p = CP_SizeLine" and "wf_chunk ch"
    and "partial p = encode_chunk ch @ r"
    and "length (raw p) + length (encode_chunk ch) \<le> size_of_int (max_size p)"
  shows "process_chunked p = process_chunked (p\<lparr>raw := raw p @ encode_chunk ch, partial := r,
    chunk_size := length (snd ch), chunk_read := length (snd ch)\<rparr>)"
proof -
  obtain s c where ch: "ch = (s, c)" by fastforce
  define p1 where "p1 = p\<lparr>raw := raw p @ s @ crlf, partial := c @ crlf @ r, chunk_size := length c,
    chunk_phase_of := CP_Data, chunk_read := 0\<rparr>"
  define p2 where "p2 = p1\<lparr>raw := raw p1 @ c, partial := crlf @ r, chunk_read := length c\<rparr>"
  have "length c < size_mod"
    using assms(5) size_of_int_bound[of "max_size p"] by (simp add: encode_chunk_def ch)
  then have c: "c \<noteq> []" and s: "CR \<notin> set s" "parse_hex (chunk_size_text s) = Some (length c)"
    using assms(3) wf_size_lineD[of "length c" s] by (simp_all add: wf_chunk_def ch)
  have "chunk_round p = (True, p1)"
    using round_size_line[OF assms(2) _ s, of "c @ crlf @ r"] assms c
    by (simp add: p1_def encode_chunk_def ch)
  then have "process_chunked p = process_chunked p1" by (rule chunked_go[OF assms(1)])
  also have "chunk_round p1 = (True, p2)"
    using round_data[of p1 c "crlf @ r"] assms c by (simp add: p1_def p2_def encode_chunk_def ch)
  then have "process_chunked p1 = process_chunked p2"
    using assms(1) by (intro chunked_go) (simp_all add: p1_def)
  also have "chunk_round p2 = (True, p2\<lparr>raw := raw p2 @ crlf, partial := r, chunk_phase_of := CP_SizeLine\<rparr>)"
    by (rule round_data_end) (simp_all add: p1_def p2_def)
  then have "process_chunked p2 = process_chunked (p2\<lparr>raw := raw p2 @ crlf, partial := r, chunk_phase_of := CP_SizeLine\<rparr>)"
    using assms(1) by (intro chunked_go) (simp_all add: p1_def p2_def)
  also have "p2\<lparr>raw := raw p2 @ crlf, partial := r, chunk_phase_of := CP_SizeLine\<rparr> =
      p\<lparr>raw := raw p @ encode_chunk ch, partial := r, chunk_size := length c, chunk_read := length c\<rparr>"
    by (rule http_parser.equality) (simp_all add: p1_def p2_def encode_chunk_def ch assms(2))
  finally show ?thesis by (simp add: ch)
qed

lemma trailer_unlines:
  assumes "\<forall>t \<in> set ts. clean_line t" and "partial p = unlines_crlf ts @ crlf @ r"
  shows "process_trailer p =
    (True, p\<lparr>raw := raw p @ unlines_crlf ts @ crlf, partial := r, chunk_phase_of := CP_End\<rparr>)"
  using assms
proof (induction ts arbitrary: p)
  case Nil
  then show ?case by (simp add: trailer_eq[of p] consume_partial_def)
next
  case (Cons l ts)
  then have l: "clean_line l" "CR \<notin> set l" by (simp_all add: clean_line_def)
  have e: "extract_line p = Some l"
    using Cons.prems l by (intro extract_line_clean) simp_all
  have n: "\<not> prefix crlf (partial p)"
    using Cons.prems l(1) clean_line_no_crlf by simp
  have c: "consume_line l p = absorb (l @ crlf) p"
    unfolding consume_line_def by (rule consume_absorb) (simp_all add: Cons.prems)
  have "process_trailer p = process_trailer (absorb (l @ crlf) p)"
    by (simp add: trailer_eq[of p] n e c)
  also have "\<dots> = (True, (absorb (l @ crlf) p)\<lparr>raw := raw (absorb (l @ crlf) p) @ unlines_crlf ts @ crlf,
      partial := r, chunk_phase_of := CP_End\<rparr>)"
    by (rule Cons.IH) (use Cons.prems in simp_all)
  finally show ?case by (simp add: absorb_def)
qed

lemma chunked_last:
  assumes "pstate p = PS_ChunkedBody" and "chunk_phase_of p = CP_SizeLine" and "wf_last_chunk s ts"
    and "partial p = s @ crlf @ unlines_crlf ts @ crlf @ r"
  shows "process_chunked p = p\<lparr>raw := raw p @ s @ crlf @ unlines_crlf ts @ crlf, partial := r,
    chunk_size := 0, chunk_phase_of := CP_End, pstate := PS_Complete\<rparr>"
proof -
  define p1 where "p1 = p\<lparr>raw := raw p @ s @ crlf, partial := unlines_crlf ts @ crlf @ r,
    chunk_size := 0, chunk_phase_of := CP_Trailer\<rparr>"
  define p2 where "p2 = p1\<lparr>raw := raw p1 @ unlines_crlf ts @ crlf, partial := r, chunk_phase_of := CP_End\<rparr>"
  have "chunk_round p = (True, p1)"
    using round_size_line[OF assms(2) assms(4), of 0] assms(3) wf_size_lineD[of 0 s]
    by (simp add: p1_def wf_last_chunk_def size_mod_def)
  then have "process_chunked p = process_chunked p1" by (rule chunked_go[OF assms(1)])
  also have "chunk_round p1 = (True, p2)"
    using trailer_unlines[of ts p1 r] assms(3) by (simp add: p1_def p2_def chunk_round_phase wf_last_chunk_def)
  then have "process_chunked p1 = process_chunked p2"
    using assms(1) by (intro chunked_go) (simp_all add: p1_def)
  also have "\<dots> = p2\<lparr>pstate := PS_Complete\<rparr>"
    using assms(1) by (simp add: chunked_eq chunk_round_phase p1_def p2_def)
  finally show ?thesis by (simp add: p1_def p2_def)
qed

lemma chunked_all:
  assumes "pstate p = PS_ChunkedBody" and "chunk_phase_of p = CP_SizeLine"
    and "\<forall>ch \<in> set cs. wf_chunk ch" and "wf_last_chunk s ts"
    and "partial p = encode_chunks cs s ts @ r"
    and "length (raw p) + length (encode_chunks cs s ts) \<le> size_of_int (max_size p)"
  shows "\<exists>q. process_chunked p = q \<and> pstate q = PS_Complete \<and> raw q = raw p @ encode_chunks cs s ts
    \<and> partial q = r \<and> request q = request p \<and> max_size q = max_size p"
  using assms
proof (induction cs arbitrary: p)
  case Nil
  then show ?case
    using chunked_last[OF Nil.prems(1,2,4), of r] by (simp add: encode_chunks_def)
next
  case (Cons ch cs)
  let ?r = "encode_chunks cs s ts @ r"
  let ?p = "p\<lparr>raw := raw p @ encode_chunk ch, partial := ?r, chunk_size := length (snd ch),
    chunk_read := length (snd ch)\<rparr>"
  have part: "partial p = encode_chunk ch @ ?r"
    using Cons.prems(5) by (simp add: encode_chunks_def)
  have "process_chunked p = process_chunked ?p"
    using Cons.prems(1-3,6) by (intro chunked_one[OF _ _ _ part]) (simp_all add: encode_chunks_def)
  with Cons.IH[of ?p] Cons.prems show ?case by (simp add: encode_chunks_def)
qed

lemma finalize_chunked:
  assumes "chunked_coding hs"
  shows "finalize_headers (after_head mx m u v hs r) =
    (after_head mx m u v hs r)\<lparr>is_chunked := True, pstate := PS_ChunkedBody, chunk_phase_of := CP_SizeLine,
      chunk_size := 0, chunk_read := 0\<rparr>"
proof -
  have d: "detect_chunked (after_head mx m u v hs r) = (after_head mx m u v hs r)\<lparr>is_chunked := True\<rparr>"
    using assms by (simp add: detect_chunked_def chunked_coding_def split: option.splits)
  then show ?thesis by (simp add: finalize_headers_def)
qed

lemma parse_plain_request:
  assumes "wf_start_line m u v" and "\<forall>h \<in> set hs. wf_header h" and "\<not> chunked_coding hs"
    and "map_of (header_map hs []) ''content-length'' = Some (show_nat (length body))"
    and "int (length body) \<le> int_max"
    and "length (render_request m u v hs body) \<le> size_of_int mx"
  shows "\<exists>q. parse (render_request m u v hs body @ rest) (new_parser mx) =
        Some (length (render_request m u v hs body @ rest), q)
    \<and> pstate q = PS_Complete
    \<and> raw q = render_request m u v hs body
    \<and> partial q = rest
    \<and> request q = \<lparr>req_method = m, req_path = u, req_version = v, req_headers = header_map hs [],
                   req_body = body\<rparr>
    \<and> parse_http_request (raw q) http_request_init = (True, request q)"
proof -
  let ?q = "framed mx m u v hs body rest"
  have "parse (render_request m u v hs body @ rest) (new_parser mx) =
      Some (length (render_request m u v hs body @ rest), ?q)"
    using process_plain_request[OF assms(1-5), where mx = mx and rest = rest] assms(6)
    by (intro parse_eq) (simp_all add: framed_def render_append)
  with one_shot_request[OF assms(1,2), of body] show ?thesis by (simp add: framed_def)
qed

section \<open>Properties\<close>

text \<open>C4: a well-formed request with a \<^verbatim>\<open>Content-Length\<close> body is recognised whole, whatever bytes
  follow it: the parser completes, \<^verbatim>\<open>raw()\<close> is the request byte for byte, the following bytes stay
  pending for the next request, and the parsed request has the method, path, version, headers and
  body of the message, the same that \<^verbatim>\<open>parse_http_request\<close> extracts from \<^verbatim>\<open>raw()\<close>.\<close>

theorem parse_frames_content_length:
  assumes "wf_start_line m u v" and "\<forall>h \<in> set hs. wf_header h" and "\<not> chunked_coding hs"
    and "map_of (header_map hs []) ''content-length'' = Some (show_nat (length body))"
    and "int (length body) \<le> int_max"
    and "length (render_request m u v hs body) \<le> size_of_int mx"
  shows "\<exists>q. parse (render_request m u v hs body @ rest) (new_parser mx) =
        Some (length (render_request m u v hs body @ rest), q)
    \<and> pstate q = PS_Complete
    \<and> raw q = render_request m u v hs body
    \<and> partial q = rest
    \<and> request q = \<lparr>req_method = m, req_path = u, req_version = v, req_headers = header_map hs [],
                   req_body = body\<rparr>
    \<and> parse_http_request (raw q) http_request_init = (True, request q)"
  using assms by (rule parse_plain_request)

theorem parse_frames_content_length_witness:
  "\<exists>q. parse (render_request ''POST'' ''/a'' ''HTTP/1.1'' [(''Content-Length'', ''2'')] ''hi'' @ ''GET'')
        (new_parser 64) =
        Some (length (render_request ''POST'' ''/a'' ''HTTP/1.1'' [(''Content-Length'', ''2'')] ''hi'' @ ''GET''), q)
    \<and> pstate q = PS_Complete
    \<and> raw q = render_request ''POST'' ''/a'' ''HTTP/1.1'' [(''Content-Length'', ''2'')] ''hi''
    \<and> partial q = ''GET''
    \<and> request q = \<lparr>req_method = ''POST'', req_path = ''/a'', req_version = ''HTTP/1.1'',
                   req_headers = header_map [(''Content-Length'', ''2'')] [], req_body = ''hi''\<rparr>
    \<and> parse_http_request (raw q) http_request_init = (True, request q)"
  by (rule parse_frames_content_length) code_simp+

text \<open>C5: a well-formed chunked request is recognised whole, whatever bytes follow it: any number of
  non-empty chunks, each after a line with its length in hexadecimal digits of either case (leading
  zeros and extensions are allowed), a last chunk of size zero and trailer lines. The bytes after it
  stay pending. The decoder keeps the chunks in
  \<^verbatim>\<open>raw()\<close> only: the body of the parsed request stays empty.\<close>

theorem parse_frames_chunked:
  assumes "wf_start_line m u v" and "\<forall>h \<in> set hs. wf_header h" and "chunked_coding hs"
    and "\<forall>ch \<in> set cs. wf_chunk ch" and "wf_last_chunk s ts"
    and "length (render_request m u v hs (encode_chunks cs s ts)) \<le> size_of_int mx"
  shows "\<exists>q. parse (render_request m u v hs (encode_chunks cs s ts) @ rest) (new_parser mx) =
        Some (length (render_request m u v hs (encode_chunks cs s ts) @ rest), q)
    \<and> pstate q = PS_Complete
    \<and> raw q = render_request m u v hs (encode_chunks cs s ts)
    \<and> partial q = rest
    \<and> request q = \<lparr>req_method = m, req_path = u, req_version = v, req_headers = header_map hs [],
                   req_body = []\<rparr>"
proof -
  let ?e = "encode_chunks cs s ts"
  define b where "b = finalize_headers (after_head mx m u v hs (?e @ rest))"
  note b = b_def[unfolded finalize_chunked[OF assms(3)]]
  have split: "render_request m u v hs ?e = render_request m u v hs [] @ ?e"
    using render_append[of m u v hs "[]" ?e] by simp
  obtain q where q: "process_chunked b = q" "pstate q = PS_Complete" "raw q = raw b @ ?e"
      "partial q = rest" "request q = request b" "max_size q = max_size b"
    using chunked_all[of b cs s ts rest] assms(4-6) by (auto simp: b split)
  have e: "?e \<noteq> []" by (simp add: encode_chunks_def)
  have "process b = process q"
    using q by (subst process_round) (simp_all add: b parser_done_def parser_waits_def process_state_def)
  also have "\<dots> = Some q" using q by (simp add: parser_done_def)
  finally have "process ((new_parser mx)\<lparr>partial := render_request m u v hs (?e @ rest)\<rparr>) = Some q"
    using process_head[OF assms(1,2) b_def] e by (simp add: b parser_waits_def)
  then have "parse (render_request m u v hs ?e @ rest) (new_parser mx) =
      Some (length (render_request m u v hs ?e @ rest), q)"
    using assms(6) q by (intro parse_eq) (simp_all add: render_append split b)
  with q show ?thesis
    by (simp add: split b after_head_def http_request_init_def)
qed

theorem parse_frames_chunked_witness:
  "\<exists>q. parse (render_request ''POST'' ''/a'' ''HTTP/1.1'' [(''Transfer-Encoding'', ''chunked'')]
            (encode_chunks [(''0A;x'', ''abcdefghij''), (''b'', ''abcdefghijk'')] ''00'' [''T: 1'']) @ ''GET'') (new_parser 200) =
        Some (length (render_request ''POST'' ''/a'' ''HTTP/1.1'' [(''Transfer-Encoding'', ''chunked'')]
            (encode_chunks [(''0A;x'', ''abcdefghij''), (''b'', ''abcdefghijk'')] ''00'' [''T: 1'']) @ ''GET''), q)
    \<and> pstate q = PS_Complete
    \<and> raw q = render_request ''POST'' ''/a'' ''HTTP/1.1'' [(''Transfer-Encoding'', ''chunked'')]
            (encode_chunks [(''0A;x'', ''abcdefghij''), (''b'', ''abcdefghijk'')] ''00'' [''T: 1''])
    \<and> partial q = ''GET''
    \<and> request q = \<lparr>req_method = ''POST'', req_path = ''/a'', req_version = ''HTTP/1.1'',
                   req_headers = header_map [(''Transfer-Encoding'', ''chunked'')] [], req_body = []\<rparr>"
  by (rule parse_frames_chunked) code_simp+

lemma split_size_line_hangs:
  assumes "wf_start_line m u v" and "\<forall>h \<in> set hs. wf_header h" and "chunked_coding hs"
    and "s \<noteq> []" and "CR \<notin> set s"
  shows "parse (render_request m u v hs s) (new_parser mx) = None"
proof -
  define b where "b = finalize_headers (after_head mx m u v hs s)"
  note b = b_def[unfolded finalize_chunked[OF assms(3)]]
  have "extract_line b = None"
    using assms(5) by (simp add: b extract_line_def option.case_eq_if)
  then have c: "process_chunked b = b"
    by (simp add: chunked_eq chunk_round_phase size_line_wait b)
  then have "process b = None"
    using assms(4) by (simp add: chunked_hangs_iff c b)
  then have "process ((new_parser mx)\<lparr>partial := render_request m u v hs s\<rparr>) = None"
    using process_head[OF assms(1,2) b_def] assms(4) by (simp add: b parser_waits_def)
  then show ?thesis by (simp add: parse_def new_parser_def)
qed

text \<open>when the bytes received so far end inside the first chunk-size line, as happens whenever
  a client flushes the header separately or a segment boundary falls there, the call of \<^verbatim>\<open>parse()\<close>
  never returns and the reactor thread that made it is lost.\<close>

theorem parse_hangs_on_split_size_line:
  assumes "wf_start_line m u v" and "\<forall>h \<in> set hs. wf_header h" and "chunked_coding hs"
    and "s \<noteq> []" and "CR \<notin> set s"
  shows "parse (render_request m u v hs s) (new_parser mx) = None"
  using assms by (rule split_size_line_hangs)

theorem parse_hangs_on_split_size_line_witness:
  "parse (render_request ''POST'' ''/a'' ''HTTP/1.1'' [(''Transfer-Encoding'', ''chunked'')] ''5'')
     (new_parser 65536) = None"
  by (rule parse_hangs_on_split_size_line) code_simp+

end
