(* ===== verification/Gw_Response.thy ===== *)
theory Gw_Response
  imports Gw_Http
begin

text \<open>
  Response serialisation and the canned error responses of \<^verbatim>\<open>src/src/http/response.cpp\<close>. The
  properties measure the serialiser against the gateway's own \<^verbatim>\<open>parse_content_length\<close>.
\<close>

section \<open>Responses\<close>

record http_response =
  status_code :: int
  status_text :: bytes
  resp_headers :: "bytes smap"
  resp_body :: bytes

definition http_response_init :: http_response where
  "http_response_init = \<lparr>status_code = 200, status_text = ''OK'', resp_headers = [], resp_body = []\<rparr>"

definition header_line :: "bytes \<times> bytes \<Rightarrow> bytes" where
  "header_line kv = fst kv @ '': '' @ snd kv @ crlf"

definition response_to_string :: "http_response \<Rightarrow> bytes" where
  "response_to_string r =
     ''HTTP/1.1 '' @ show_int (status_code r) @ '' '' @ status_text r @ crlf
     @ concat (map header_line (resp_headers r))
     @ (if list_ex (\<lambda>kv. fst kv = ''Content-Length'') (resp_headers r) then []
        else ''Content-Length: '' @ show_nat (length (resp_body r)) @ crlf)
     @ (if list_ex (\<lambda>kv. fst kv = ''Connection'') (resp_headers r) then []
        else ''Connection: close'' @ crlf)
     @ crlf @ resp_body r"

definition make_common :: "int \<Rightarrow> bytes \<Rightarrow> bool \<Rightarrow> http_response" where
  "make_common code txt keep_alive =
     http_response_init
       \<lparr>status_code := code, status_text := txt,
        resp_headers := smap_put ''Connection'' (if keep_alive then ''keep-alive'' else ''close'') []\<rparr>"

definition make_400 :: "bool \<Rightarrow> http_response" where
  "make_400 keep_alive = (make_common 400 ''Bad Request'' keep_alive)\<lparr>resp_body := ''Bad Request''\<rparr>"

definition make_404 :: "bool \<Rightarrow> http_response" where
  "make_404 keep_alive = (make_common 404 ''Not Found'' keep_alive)\<lparr>resp_body := ''Not Found''\<rparr>"

definition make_502 :: "bool \<Rightarrow> http_response" where
  "make_502 keep_alive = (make_common 502 ''Bad Gateway'' keep_alive)\<lparr>resp_body := ''Bad Gateway''\<rparr>"

section \<open>Lemmas\<close>

definition wf_response :: "http_response \<Rightarrow> bool" where
  "wf_response r \<longleftrightarrow> CR \<notin> set (status_text r)
     \<and> (\<forall>kv \<in> set (resp_headers r). CR \<notin> set (fst kv) \<and> CR \<notin> set (snd kv))"

text \<open>The lines of the header block that \<^const>\<open>response_to_string\<close> writes.\<close>

definition response_lines :: "http_response \<Rightarrow> bytes list" where
  "response_lines r =
     (''HTTP/1.1 '' @ show_int (status_code r) @ '' '' @ status_text r)
     # map (\<lambda>kv. fst kv @ '': '' @ snd kv) (resp_headers r)
     @ (if ''Content-Length'' \<in> fst ` set (resp_headers r) then []
        else [''Content-Length: '' @ show_nat (length (resp_body r))])
     @ (if ''Connection'' \<in> fst ` set (resp_headers r) then [] else [''Connection: close''])"

lemma list_ex_fst_iff: "list_ex (\<lambda>kv. fst kv = k) m \<longleftrightarrow> k \<in> fst ` set m"
  by (auto simp: list_ex_iff)

lemma concat_header_lines:
  "concat (map header_line hs) = unlines_crlf (map (\<lambda>kv. fst kv @ '': '' @ snd kv) hs)"
  by (induction hs) (simp_all add: header_line_def)

lemma response_to_string_lines:
  "response_to_string r = unlines_crlf (response_lines r) @ crlf @ resp_body r"
  by (simp add: response_to_string_def response_lines_def concat_header_lines list_ex_fst_iff)

lemma CR_notin_show_nat: "CR \<notin> set (show_nat n)"
  using show_nat_digits[of CR n] by (auto simp: is_digit_def CR_def)

lemma CR_notin_show_int: "CR \<notin> set (show_int i)"
  using CR_notin_show_nat by (simp add: show_int_def) (simp add: CR_def)

lemma clean_line_append: "a \<noteq> [] \<Longrightarrow> CR \<notin> set a \<Longrightarrow> CR \<notin> set b \<Longrightarrow> clean_line (a @ b)"
  by (simp add: clean_line_def)

lemma CR_notin_response_literals:
  "CR \<notin> set ''HTTP/1.1 ''" "CR \<notin> set ''Content-Length: ''" "CR \<notin> set ''Connection: close''"
  by (simp_all add: CR_def)

lemma response_lines_clean:
  assumes "wf_response r"
  shows "\<forall>l \<in> set (response_lines r). clean_line l"
proof -
  have "clean_line (''HTTP/1.1 '' @ show_int (status_code r) @ '' '' @ status_text r)"
    using assms CR_notin_show_int
    by (intro clean_line_append CR_notin_response_literals) (simp_all add: wf_response_def)
  moreover have "clean_line (fst kv @ '': '' @ snd kv)" if "kv \<in> set (resp_headers r)" for kv
    using assms that by (simp add: clean_line_def wf_response_def)
  moreover have "clean_line (''Content-Length: '' @ show_nat (length (resp_body r)))"
    using CR_notin_show_nat by (intro clean_line_append CR_notin_response_literals) simp_all
  moreover have "clean_line ''Connection: close''"
    using CR_notin_response_literals by (simp add: clean_line_def)
  ultimately show ?thesis
    unfolding response_lines_def by (simp only: set_simps set_append) auto
qed

text \<open>The line test of \<^const>\<open>header_find_icase\<close>.\<close>

definition names_field :: "bytes \<Rightarrow> bytes \<Rightarrow> bool" where
  "names_field name l \<longleftrightarrow>
     length name < length l \<and> l ! length name = CHR '':'' \<and> str_iequal (take (length name) l) name"

lemma header_find_icase_step:
  assumes "CR \<notin> set l"
  shows "header_find_icase (l @ crlf @ r) name =
    (if names_field name l then Some (l @ crlf @ r) else header_find_icase r name)"
proof -
  have "length name < length l \<Longrightarrow> (l @ crlf @ r) ! length name = l ! length name"
    by (simp add: nth_append)
  then show ?thesis
    using find_crlf[OF assms, of r]
    by (subst header_find_icase.simps) (auto simp: Let_def names_field_def)
qed

lemma header_find_icase_last:
  assumes "CR \<notin> set l" and "names_field name l"
  shows "header_find_icase l name = Some l"
  using assms find_crlf_none[OF assms(1)]
  by (subst header_find_icase.simps) (auto simp: Let_def names_field_def)

lemma header_find_icase_skip:
  "\<forall>l \<in> set ls. CR \<notin> set l \<and> \<not> names_field name l \<Longrightarrow>
   header_find_icase (unlines_crlf ls @ r) name = header_find_icase r name"
proof (induction ls)
  case (Cons l ls)
  then show ?case using header_find_icase_step[of l "unlines_crlf ls @ r" name] by simp
qed simp

lemma names_content_length: "names_field ''Content-Length'' (''Content-Length: '' @ v)"
  by (simp add: names_field_def str_iequal_def)

lemma parse_content_length_found:
  assumes "header_find_icase data ''Content-Length'' = Some (''Content-Length: '' @ show_nat n @ tl_part)"
    and "tl_part = [] \<or> prefix crlf tl_part" and "tl_part = [] \<Longrightarrow> beyond = [] \<or> \<not> is_digit (hd beyond)"
    and "int n \<le> int_max"
  shows "parse_content_length data beyond = int n"
proof -
  let ?ds = "show_nat n"
  have "skip_blanks (?ds @ tl_part) = ?ds @ tl_part"
  proof (rule skip_blanks_id)
    have "is_digit (hd ?ds)" using show_nat_digits[of "hd ?ds" n] by simp
    then show "?ds @ tl_part = [] \<or> hd (?ds @ tl_part) \<noteq> CHR '' '' \<and> hd (?ds @ tl_part) \<noteq> TAB"
      by (auto simp: is_digit_def TAB_def)
  qed
  then have pos: "skip_blanks (drop 15 (''Content-Length: '' @ ?ds @ tl_part)) = ?ds @ tl_part"
    by simp
  have n: "(case find_sub crlf (?ds @ tl_part) of None \<Rightarrow> length (?ds @ tl_part) | Some e \<Rightarrow> e) = length ?ds"
    using assms(2) find_crlf[OF CR_notin_show_nat] find_crlf_none[OF CR_notin_show_nat, of n]
    by (auto simp: prefix_def)
  have "tl_part @ beyond = [] \<or> \<not> is_digit (hd (tl_part @ beyond))"
    using assms(2,3) by (auto simp: prefix_def crlf_def CR_def is_digit_def)
  then have "parse_int_safe (?ds @ tl_part @ beyond) (int (length ?ds)) = Some (int n)"
    using parse_int_safe_digits[of ?ds "tl_part @ beyond"] show_nat_digits assms(4) by auto
  then show ?thesis
    using assms(1) pos n by (simp add: parse_content_length_def Let_def)
qed

section \<open>Properties\<close>

text \<open>a serialised response frames its body. The header block ends at the first empty line,
  what follows is exactly the body, and unless the caller supplied a \<^verbatim>\<open>Content-Length\<close> of its own
  the gateway's parser reads the length of the body back from the header block.\<close>

theorem response_frames_body:
  assumes "wf_response r"
    and "\<forall>kv \<in> set (resp_headers r). \<not> names_field ''Content-Length'' (fst kv @ '': '' @ snd kv)"
    and "''Content-Length'' \<notin> fst ` set (resp_headers r)"
    and "int (length (resp_body r)) \<le> int_max"
  shows "\<exists>h. find_sub crlf2 (response_to_string r) = Some h
    \<and> drop (h + 4) (response_to_string r) = resp_body r
    \<and> parse_content_length (take h (response_to_string r)) (drop h (response_to_string r))
        = int (length (resp_body r))"
proof -
  define s where "s = response_to_string r"
  define cl where "cl = ''Content-Length: '' @ show_nat (length (resp_body r))"
  define A where "A = (''HTTP/1.1 '' @ show_int (status_code r) @ '' '' @ status_text r)
     # map (\<lambda>kv. fst kv @ '': '' @ snd kv) (resp_headers r)"
  define C where "C = (if ''Connection'' \<in> fst ` set (resp_headers r) then [] else [''Connection: close''])"
  define T where "T = concat (map (\<lambda>l. crlf @ l) C)"
  define h where "h = length (unlines_crlf A @ cl @ T)"
  have lines: "response_lines r = A @ cl # C"
    using assms(3) by (simp add: response_lines_def A_def cl_def C_def)
  have clean: "\<forall>l \<in> set (A @ cl # C). clean_line l"
    using response_lines_clean[OF assms(1)] by (simp add: lines)
  have T: "T @ crlf = crlf @ unlines_crlf C"
    by (simp add: T_def C_def)
  have s: "s = (unlines_crlf A @ cl @ T) @ crlf @ crlf @ resp_body r"
    using T by (simp add: s_def response_to_string_lines lines)
  have "length T + 2 = 2 + length (unlines_crlf C)"
    using arg_cong[OF T, of length] by simp
  then have "h = length (unlines_crlf (A @ cl # C)) - 2"
    by (simp add: h_def)
  then have find: "find_sub crlf2 s = Some h"
    using find_crlf2_unlines[OF _ clean, of "resp_body r"]
    by (simp add: s_def response_to_string_lines lines)
  have head: "take h s = unlines_crlf A @ cl @ T"
    and behind: "drop h s = crlf @ crlf @ resp_body r"
    unfolding s h_def by (rule take_length_append drop_length_append)+
  then have body: "drop (h + 4) s = resp_body r"
    using drop_drop[of 4 h s] by (simp add: add.commute)
  have "\<not> names_field ''Content-Length'' (hd A)"
    by (simp add: A_def names_field_def str_iequal_def ascii_to_lower_def)
  then have "\<forall>l \<in> set A. CR \<notin> set l \<and> \<not> names_field ''Content-Length'' l"
    using assms(2) clean by (auto simp: A_def clean_line_def)
  then have "header_find_icase (take h s) ''Content-Length'' = header_find_icase (cl @ T) ''Content-Length''"
    unfolding head by (rule header_find_icase_skip)
  also have "\<dots> = Some (cl @ T)"
  proof -
    have n: "names_field ''Content-Length'' cl" and "CR \<notin> set cl"
      using names_content_length clean by (simp_all add: cl_def clean_line_def)
    with header_find_icase_step[of cl "''Connection: close''" "''Content-Length''"]
      header_find_icase_last[of cl "''Content-Length''"]
    show ?thesis by (simp add: T_def C_def)
  qed
  finally have "header_find_icase (take h s) ''Content-Length'' =
      Some (''Content-Length: '' @ show_nat (length (resp_body r)) @ T)"
    by (simp add: cl_def)
  then have "parse_content_length (take h s) (drop h s) = int (length (resp_body r))"
    by (rule parse_content_length_found)
      (use assms(4) in \<open>simp_all add: behind T_def C_def is_digit_def crlf_def CR_def\<close>)
  with find body show ?thesis unfolding s_def by blast
qed

theorem response_frames_body_witness:
  "\<exists>h. find_sub crlf2 (response_to_string (make_404 False)) = Some h
    \<and> drop (h + 4) (response_to_string (make_404 False)) = ''Not Found''
    \<and> parse_content_length (take h (response_to_string (make_404 False)))
        (drop h (response_to_string (make_404 False))) = 9"
proof -
  have "wf_response (make_404 False)"
    and "\<forall>kv \<in> set (resp_headers (make_404 False)).
           \<not> names_field ''Content-Length'' (fst kv @ '': '' @ snd kv)"
    and "''Content-Length'' \<notin> fst ` set (resp_headers (make_404 False))"
    and "int (length (resp_body (make_404 False))) \<le> int_max"
    and "resp_body (make_404 False) = ''Not Found''"
    by (simp_all add: make_404_def make_common_def http_response_init_def wf_response_def
        names_field_def CR_def int_max_def)
  with response_frames_body[OF this(1-4)] show ?thesis by simp
qed

end
