(* ===== verification/Gw_Buffer.thy ===== *)
theory Gw_Buffer
  imports Gw_Prelude
begin

text \<open>
  The read/write buffer of \<^verbatim>\<open>src/src/net/buffer.cpp\<close>: one vector with a read and a write index,
  laid out as prependable, readable and writable space. A buffer refines a queue of bytes: the
  abstraction is its readable part. The locale \<open>byte_queue\<close> states what the connection layer relies
  on (append at the end, consume from the front) and derives that whatever is taken out is, in
  order, what was put in. The results of \<^verbatim>\<open>readv\<close> and \<^verbatim>\<open>write\<close> are arguments.
\<close>

section \<open>State and operations\<close>

definition kInitialSize :: nat where "kInitialSize = 4096"
definition kPrependableSize :: nat where "kPrependableSize = 128"
definition stack_buf_size :: nat where "stack_buf_size = 65536"

record buffer =
  buf :: bytes
  read_idx :: nat
  write_idx :: nat

definition zeros :: "nat \<Rightarrow> bytes" where
  "zeros n = replicate n (CHR 0x00)"

definition new_buffer :: buffer where
  "new_buffer = \<lparr>buf = zeros (kInitialSize + kPrependableSize), read_idx = kPrependableSize,
     write_idx = kPrependableSize\<rparr>"

definition readable_size :: "buffer \<Rightarrow> nat" where
  "readable_size b = sub64 (write_idx b) (read_idx b)"

text \<open>The bytes between \<^verbatim>\<open>readable_data()\<close> and its end.\<close>

definition readable :: "buffer \<Rightarrow> bytes" where
  "readable b = take (readable_size b) (drop (read_idx b) (buf b))"

definition writable_size :: "buffer \<Rightarrow> nat" where
  "writable_size b = sub64 (length (buf b)) (write_idx b)"

definition prependable_size :: "buffer \<Rightarrow> nat" where
  "prependable_size b = read_idx b"

text \<open>\<^verbatim>\<open>memcpy(buf_.data() + i, d)\<close> and \<^verbatim>\<open>memmove\<close>: overwrite from offset \<open>i\<close>.\<close>

definition write_at :: "nat \<Rightarrow> bytes \<Rightarrow> bytes \<Rightarrow> bytes" where
  "write_at i d xs = take i xs @ d @ drop (i + length d) xs"

definition consume :: "nat \<Rightarrow> buffer \<Rightarrow> buffer" where
  "consume n b =
     (let n' = (if readable_size b < n then readable_size b else n);
          r = read_idx b + n'
      in if r = write_idx b then b\<lparr>read_idx := kPrependableSize, write_idx := kPrependableSize\<rparr>
         else b\<lparr>read_idx := r\<rparr>)"

definition consume_all :: "buffer \<Rightarrow> buffer" where
  "consume_all b = b\<lparr>read_idx := kPrependableSize, write_idx := kPrependableSize\<rparr>"

definition has_written :: "nat \<Rightarrow> buffer \<Rightarrow> buffer" where
  "has_written n b = b\<lparr>write_idx := write_idx b + n\<rparr>"

definition buffer_swap :: "buffer \<times> buffer \<Rightarrow> buffer \<times> buffer" where
  "buffer_swap ab =
     (let (a, b) = ab in
      (\<lparr>buf = buf b, read_idx = read_idx b, write_idx = write_idx b\<rparr>,
       \<lparr>buf = buf a, read_idx = read_idx a, write_idx = write_idx a\<rparr>))"

definition shrink :: "buffer \<Rightarrow> buffer" where
  "shrink b =
     (if read_idx b = kPrependableSize then b
      else
        let n = readable_size b in
        b\<lparr>buf := (if 0 < n then write_at kPrependableSize (readable b) (buf b) else buf b),
          read_idx := kPrependableSize, write_idx := kPrependableSize + n\<rparr>)"

definition ensure_writable :: "nat \<Rightarrow> buffer \<Rightarrow> buffer" where
  "ensure_writable n b =
     (if n \<le> writable_size b then b
      else
        let needed = n - writable_size b in
        if n + kPrependableSize \<le> prependable_size b + writable_size b then shrink b
        else b\<lparr>buf := buf b @ zeros needed\<rparr>)"

definition append_bytes :: "bytes \<Rightarrow> buffer \<Rightarrow> buffer" where
  "append_bytes d b =
     (if d = [] then b
      else
        let b1 = ensure_writable (length d) b in
        b1\<lparr>buf := write_at (write_idx b1) d (buf b1), write_idx := write_idx b1 + length d\<rparr>)"

definition append_buffer :: "buffer \<Rightarrow> buffer \<Rightarrow> buffer" where
  "append_buffer other b = append_bytes (readable other) b"

text \<open>In the reallocating branch \<^verbatim>\<open>readable_size()\<close> is evaluated after \<^verbatim>\<open>read_idx_\<close> has been
  overwritten, so it is a difference of the old write index and the new read index.\<close>

definition prepend :: "bytes \<Rightarrow> buffer \<Rightarrow> buffer" where
  "prepend d b =
     (let b1 =
        (if prependable_size b < length d then
           let needed = length d + readable_size b;
               new_read = kPrependableSize + length d;
               new_buf = write_at new_read (readable b) (zeros (needed + kPrependableSize));
               b' = b\<lparr>buf := new_buf, read_idx := new_read\<rparr>
           in b'\<lparr>write_idx := add64 (read_idx b') (readable_size b')\<rparr>
         else b);
        r = read_idx b1 - length d
      in b1\<lparr>read_idx := r, buf := write_at r d (buf b1)\<rparr>)"

definition read_from_fd :: "bytes option \<Rightarrow> buffer \<Rightarrow> int \<times> buffer" where
  "read_from_fd res b =
     (case res of
        None \<Rightarrow> (-1, b)
      | Some d \<Rightarrow>
          if d = [] then (0, b)
          else
            let w = writable_size b;
                b1 = b\<lparr>buf := write_at (write_idx b) (take w d) (buf b)\<rparr>
            in (int (length d),
                if length d \<le> w then b1\<lparr>write_idx := write_idx b + length d\<rparr>
                else append_bytes (drop w d) (b1\<lparr>write_idx := length (buf b1)\<rparr>)))"

definition read_capacity :: "buffer \<Rightarrow> nat" where
  "read_capacity b =
     (if stack_buf_size \<le> writable_size b then writable_size b else writable_size b + stack_buf_size)"

definition write_to_fd :: "int \<Rightarrow> buffer \<Rightarrow> int \<times> buffer" where
  "write_to_fd ret b =
     (if readable_size b = 0 then (0, b)
      else if 0 < ret then (ret, consume (nat ret) b)
      else (ret, b))"

definition buffer_find :: "bytes \<Rightarrow> buffer \<Rightarrow> nat option" where
  "buffer_find needle b =
     (if needle = [] \<or> readable_size b < length needle then None else find_sub needle (readable b))"

definition buffer_find_char :: "char \<Rightarrow> buffer \<Rightarrow> nat option" where
  "buffer_find_char c b = find_char c (readable b)"

definition find_crlf_in :: "buffer \<Rightarrow> nat option" where
  "find_crlf_in b = buffer_find crlf b"

definition find_double_crlf :: "buffer \<Rightarrow> nat option" where
  "find_double_crlf b = buffer_find crlf2 b"

section \<open>Invariant\<close>

definition buffer_inv :: "buffer \<Rightarrow> bool" where
  "buffer_inv b \<longleftrightarrow>
     read_idx b \<le> write_idx b \<and> write_idx b \<le> length (buf b) \<and> kPrependableSize \<le> length (buf b)
     \<and> length (buf b) < size_mod"

definition buffer_room :: "buffer \<Rightarrow> bytes \<Rightarrow> bool" where
  "buffer_room b d \<longleftrightarrow> length (buf b) + length d < size_mod"

lemma length_zeros [simp]: "length (zeros n) = n"
  by (simp add: zeros_def)

lemma length_write_at [simp]: "i + length d \<le> length xs \<Longrightarrow> length (write_at i d xs) = length xs"
  by (simp add: write_at_def)

lemma sizes [simp]:
  "buffer_inv b \<Longrightarrow> readable_size b = write_idx b - read_idx b"
  "buffer_inv b \<Longrightarrow> writable_size b = length (buf b) - write_idx b"
  by (simp_all add: buffer_inv_def readable_size_def writable_size_def)

lemma readable_eq:
  "buffer_inv b \<Longrightarrow> readable b = take (write_idx b - read_idx b) (drop (read_idx b) (buf b))"
  by (simp add: readable_def)

lemma length_readable [simp]: "buffer_inv b \<Longrightarrow> length (readable b) = write_idx b - read_idx b"
  by (auto simp: readable_eq) (auto simp: buffer_inv_def)

lemma new_buffer_ok: "buffer_inv new_buffer" "readable new_buffer = []"
  by (simp_all add: new_buffer_def buffer_inv_def readable_def readable_size_def sub64_def
      kPrependableSize_def kInitialSize_def size_mod_def)

lemma readable_append_at:
  assumes "r \<le> w" and "w + length d \<le> length xs"
  shows "take (w + length d - r) (drop r (write_at w d xs)) = take (w - r) (drop r xs) @ d"
  using assms by (simp add: write_at_def take_drop)

lemma shrink_ok:
  assumes "buffer_inv b" and "kPrependableSize < read_idx b"
  shows "buffer_inv (shrink b)" and "readable (shrink b) = readable b"
    and "write_idx (shrink b) = kPrependableSize + (write_idx b - read_idx b)"
    and "length (buf (shrink b)) = length (buf b)"
proof -
  have r: "kPrependableSize + length (readable b) \<le> length (buf b)"
    using assms(2) length_readable[OF assms(1)] assms(1)[unfolded buffer_inv_def] by arith
  then show l: "length (buf (shrink b)) = length (buf b)"
    by (simp add: shrink_def Let_def)
  show w: "write_idx (shrink b) = kPrependableSize + (write_idx b - read_idx b)"
    using assms by (simp add: shrink_def Let_def)
  have rd: "read_idx (shrink b) = kPrependableSize"
    using assms by (simp add: shrink_def Let_def)
  show inv: "buffer_inv (shrink b)"
    using assms r l w rd by (auto simp: buffer_inv_def)
  show "readable (shrink b) = readable b"
  proof (cases "readable_size b = 0")
    case True
    then show ?thesis
      using assms(1) inv w rd by (simp add: readable_eq)
  next
    case False
    then have "buf (shrink b) = write_at kPrependableSize (readable b) (buf b)"
      using assms by (simp add: shrink_def Let_def)
    then show ?thesis
      using assms r inv w rd by (simp add: readable_eq[of "shrink b"] write_at_def min_def)
  qed
qed

lemma ensure_writable_ok:
  assumes "buffer_inv b" and "length (buf b) + n < size_mod"
  shows "buffer_inv (ensure_writable n b)" and "readable (ensure_writable n b) = readable b"
    and "write_idx (ensure_writable n b) + n \<le> length (buf (ensure_writable n b))"
proof -
  let ?e = "ensure_writable n b"
  consider (fits) "n \<le> length (buf b) - write_idx b"
    | (move) "\<not> n \<le> length (buf b) - write_idx b" "n + kPrependableSize \<le> read_idx b + (length (buf b) - write_idx b)"
    | (grow) "\<not> n \<le> length (buf b) - write_idx b" "\<not> n + kPrependableSize \<le> read_idx b + (length (buf b) - write_idx b)"
    by blast
  then have "buffer_inv ?e \<and> readable ?e = readable b \<and> write_idx ?e + n \<le> length (buf ?e)"
  proof cases
    case fits
    then have "?e = b" using assms(1) by (simp add: ensure_writable_def)
    with fits assms(1) show ?thesis by (auto simp: buffer_inv_def)
  next
    case move
    then have e: "?e = shrink b"
      using assms(1) by (simp add: ensure_writable_def prependable_size_def Let_def)
    have "kPrependableSize < read_idx b" using move by linarith
    from shrink_ok[OF assms(1) this] move assms(1) show ?thesis
      by (auto simp: e buffer_inv_def)
  next
    case grow
    then have e: "?e = b\<lparr>buf := buf b @ zeros (n - (length (buf b) - write_idx b))\<rparr>"
      using assms(1) by (simp add: ensure_writable_def prependable_size_def Let_def)
    have inv: "buffer_inv ?e" using assms grow by (auto simp: e buffer_inv_def)
    moreover have "readable ?e = readable b"
      using inv assms(1) by (simp add: readable_eq e) (auto simp: buffer_inv_def)
    moreover have "write_idx ?e + n \<le> length (buf ?e)"
      using grow assms(1)[unfolded buffer_inv_def] by (simp add: e)
    ultimately show ?thesis by simp
  qed
  then show "buffer_inv ?e" "readable ?e = readable b" "write_idx ?e + n \<le> length (buf ?e)" by simp_all
qed

lemma append_bytes_ok:
  assumes "buffer_inv b" and "buffer_room b d"
  shows "buffer_inv (append_bytes d b) \<and> readable (append_bytes d b) = readable b @ d"
proof (cases "d = []")
  case True
  with assms show ?thesis by (simp add: append_bytes_def)
next
  case False
  define e where "e = ensure_writable (length d) b"
  have e: "buffer_inv e" "readable e = readable b" "write_idx e + length d \<le> length (buf e)"
    using ensure_writable_ok[of b "length d"] assms by (simp_all add: e_def buffer_room_def)
  let ?a = "e\<lparr>buf := write_at (write_idx e) d (buf e), write_idx := write_idx e + length d\<rparr>"
  have a: "append_bytes d b = ?a" using False by (simp add: append_bytes_def Let_def e_def)
  have inv: "buffer_inv ?a" using e(1,3) by (simp add: buffer_inv_def)
  have "readable ?a = readable e @ d"
    using e inv readable_append_at[of "read_idx e" "write_idx e" d "buf e"]
    by (simp add: readable_eq[OF inv] readable_eq[OF e(1)]) (simp add: buffer_inv_def)
  with inv e(2) show ?thesis by (simp add: a)
qed

lemma consume_ok:
  assumes "buffer_inv b"
  shows "buffer_inv (consume n b) \<and> readable (consume n b) = drop n (readable b)"
proof -
  define k where "k = min n (write_idx b - read_idx b)"
  have k: "(if readable_size b < n then readable_size b else n) = k"
    using assms by (auto simp: k_def)
  have d: "drop n (readable b) = drop k (readable b)"
    using assms by (cases "n \<le> write_idx b - read_idx b") (simp_all add: k_def)
  show ?thesis
  proof (cases "read_idx b + k = write_idx b")
    case True
    then have c: "consume n b = b\<lparr>read_idx := kPrependableSize, write_idx := kPrependableSize\<rparr>"
      unfolding consume_def k Let_def by simp
    have inv: "buffer_inv (consume n b)" using assms by (simp add: c buffer_inv_def)
    have "drop k (readable b) = []" using True assms by simp
    then show ?thesis using inv by (simp add: d readable_eq[OF inv]) (simp add: c)
  next
    case False
    then have c: "consume n b = b\<lparr>read_idx := read_idx b + k\<rparr>"
      unfolding consume_def k Let_def by simp
    have le: "read_idx b + k \<le> write_idx b" using assms by (auto simp: k_def buffer_inv_def)
    with assms have inv: "buffer_inv (consume n b)" by (simp add: c buffer_inv_def)
    have "readable (consume n b) = drop k (readable b)"
      unfolding readable_eq[OF inv] readable_eq[OF assms] by (simp add: c drop_take add.commute)
    with inv d show ?thesis by simp
  qed
qed

section \<open>The queue interface\<close>

text \<open>The client's view: a history of appends and consumes, and the bytes the consumes hand out.\<close>

datatype queue_op = Q_Append bytes | Q_Consume nat

fun queue_run :: "(bytes \<Rightarrow> 'q \<Rightarrow> 'q) \<Rightarrow> (nat \<Rightarrow> 'q \<Rightarrow> 'q) \<Rightarrow> queue_op list \<Rightarrow> 'q \<Rightarrow> 'q" where
  "queue_run put get [] q = q"
| "queue_run put get (Q_Append d # ops) q = queue_run put get ops (put d q)"
| "queue_run put get (Q_Consume n # ops) q = queue_run put get ops (get n q)"

fun queue_taken :: "('q \<Rightarrow> bytes) \<Rightarrow> (bytes \<Rightarrow> 'q \<Rightarrow> 'q) \<Rightarrow> (nat \<Rightarrow> 'q \<Rightarrow> 'q) \<Rightarrow> queue_op list \<Rightarrow> 'q \<Rightarrow> bytes" where
  "queue_taken content put get [] q = []"
| "queue_taken content put get (Q_Append d # ops) q = queue_taken content put get ops (put d q)"
| "queue_taken content put get (Q_Consume n # ops) q =
     take n (content q) @ queue_taken content put get ops (get n q)"

fun queue_given :: "queue_op list \<Rightarrow> bytes" where
  "queue_given [] = []"
| "queue_given (Q_Append d # ops) = d @ queue_given ops"
| "queue_given (Q_Consume n # ops) = queue_given ops"

text \<open>Every append of the history finds room.\<close>

fun queue_fits :: "('q \<Rightarrow> bytes \<Rightarrow> bool) \<Rightarrow> (bytes \<Rightarrow> 'q \<Rightarrow> 'q) \<Rightarrow> (nat \<Rightarrow> 'q \<Rightarrow> 'q) \<Rightarrow> queue_op list \<Rightarrow> 'q \<Rightarrow> bool" where
  "queue_fits room put get [] q = True"
| "queue_fits room put get (Q_Append d # ops) q = (room q d \<and> queue_fits room put get ops (put d q))"
| "queue_fits room put get (Q_Consume n # ops) q = queue_fits room put get ops (get n q)"

locale byte_queue =
  fixes content :: "'q \<Rightarrow> bytes" and good :: "'q \<Rightarrow> bool" and room :: "'q \<Rightarrow> bytes \<Rightarrow> bool"
    and put :: "bytes \<Rightarrow> 'q \<Rightarrow> 'q" and get :: "nat \<Rightarrow> 'q \<Rightarrow> 'q"
  assumes put_ok: "good q \<Longrightarrow> room q d \<Longrightarrow> good (put d q) \<and> content (put d q) = content q @ d"
    and get_ok: "good q \<Longrightarrow> good (get n q) \<and> content (get n q) = drop n (content q)"
begin

lemma run_good: "good q \<Longrightarrow> queue_fits room put get ops q \<Longrightarrow> good (queue_run put get ops q)"
proof (induction ops arbitrary: q)
  case (Cons op ops)
  then show ?case by (cases op) (simp_all add: put_ok get_ok)
qed simp

lemma run_fifo:
  "good q \<Longrightarrow> queue_fits room put get ops q \<Longrightarrow>
   content q @ queue_given ops = queue_taken content put get ops q @ content (queue_run put get ops q)"
proof (induction ops arbitrary: q)
  case (Cons op ops)
  show ?case
  proof (cases op)
    case (Q_Append d)
    then show ?thesis
      using Cons.prems Cons.IH[of "put d q"] put_ok[of q d] by simp
  next
    case (Q_Consume n)
    then have "drop n (content q) @ queue_given ops =
        queue_taken content put get ops (get n q) @ content (queue_run put get ops (get n q))"
      using Cons.prems Cons.IH[of "get n q"] get_ok[of q n] by simp
    with Q_Consume show ?thesis
      by (simp add: append_assoc[symmetric, of "take n (content q)"] del: append_assoc)
        (metis append.assoc append_take_drop_id)
  qed
qed simp

end

interpretation buffer_queue: byte_queue readable buffer_inv buffer_room append_bytes consume
  by unfold_locales (simp_all add: append_bytes_ok consume_ok)

section \<open>Reading from and writing to a descriptor\<close>

lemma read_from_fd_ok:
  assumes "buffer_inv b" and "buffer_room b d" and "d \<noteq> []"
  shows "fst (read_from_fd (Some d) b) = int (length d)
    \<and> buffer_inv (snd (read_from_fd (Some d) b))
    \<and> readable (snd (read_from_fd (Some d) b)) = readable b @ d"
proof -
  define w where "w = length (buf b) - write_idx b"
  define b1 where "b1 = b\<lparr>buf := write_at (write_idx b) (take w d) (buf b)\<rparr>"
  have wb: "writable_size b = w" using assms(1) by (simp add: w_def)
  have i: "read_idx b \<le> write_idx b" "write_idx b \<le> length (buf b)"
    using assms(1) by (simp_all add: buffer_inv_def)
  have fit: "write_idx b + length (take w d) \<le> length (buf b)" using i by (simp add: w_def)
  define b2 where "b2 = b1\<lparr>write_idx := write_idx b + length (take w d)\<rparr>"
  have inv: "buffer_inv b2"
    using assms(1) fit by (simp add: buffer_inv_def b2_def b1_def)
  have r: "readable b2 = readable b @ take w d"
    using readable_append_at[OF i(1) fit]
    unfolding readable_eq[OF inv] readable_eq[OF assms(1)] by (simp add: b2_def b1_def)
  show ?thesis
  proof (cases "length d \<le> w")
    case True
    then have "snd (read_from_fd (Some d) b) = b2"
      using assms(3) by (simp add: read_from_fd_def Let_def wb b1_def b2_def)
    with r inv True assms(3) show ?thesis by (simp add: read_from_fd_def Let_def)
  next
    case False
    then have "write_idx b + length (take w d) = length (buf b1)"
      using i fit by (simp add: b1_def w_def)
    then have "snd (read_from_fd (Some d) b) = append_bytes (drop w d) b2"
      using False assms(3) by (simp add: read_from_fd_def Let_def wb b2_def flip: b1_def)
    moreover have "buffer_room b2 (drop w d)"
      using assms(2) fit by (simp add: buffer_room_def b2_def b1_def)
    ultimately show ?thesis
      using append_bytes_ok[OF inv] r assms(3) by (simp add: read_from_fd_def Let_def)
  qed
qed

lemma write_to_fd_ok:
  assumes "buffer_inv b"
  shows "buffer_inv (snd (write_to_fd ret b))"
    and "readable (snd (write_to_fd ret b)) = drop (nat ret) (readable b)"
  using assms consume_ok[OF assms, of "nat ret"] length_readable[OF assms]
  by (auto simp: write_to_fd_def simp del: length_readable)

lemma readable_find:
  assumes "buffer_inv b" and "needle \<noteq> []"
  shows "buffer_find needle b = find_sub needle (readable b)"
proof (cases "readable_size b < length needle")
  case True
  then have "find_sub needle (readable b) = None"
    using assms find_sub_SomeD[of needle "readable b"] by (cases "find_sub needle (readable b)") fastforce+
  with True show ?thesis by (simp add: buffer_find_def)
qed (use assms in \<open>simp add: buffer_find_def\<close>)

section \<open>Prepending\<close>

lemma prepend_fits_ok:
  assumes "buffer_inv b" and "length d \<le> read_idx b"
  shows "buffer_inv (prepend d b) \<and> readable (prepend d b) = d @ readable b"
proof -
  let ?r = "read_idx b - length d"
  have p: "prepend d b = b\<lparr>read_idx := ?r, buf := write_at ?r d (buf b)\<rparr>"
    using assms(2) by (simp add: prepend_def prependable_size_def Let_def)
  have i: "read_idx b \<le> write_idx b" "write_idx b \<le> length (buf b)"
    using assms(1) by (simp_all add: buffer_inv_def)
  have inv: "buffer_inv (prepend d b)"
    using assms i by (simp add: p buffer_inv_def)
  have "readable (prepend d b) = take (write_idx b - ?r) (d @ drop (read_idx b) (buf b))"
    unfolding readable_eq[OF inv] using assms(2) i by (simp add: p write_at_def)
  also have "write_idx b - ?r = length d + (write_idx b - read_idx b)"
    using assms(2) i by simp
  finally show ?thesis using inv by (simp add: readable_eq[OF assms(1)])
qed

lemma prepend_realloc:
  assumes "buffer_inv b" and "read_idx b = kPrependableSize" and "kPrependableSize < length d"
    and "buffer_room b d" and "kPrependableSize + length d < size_mod"
  shows "readable (prepend d b) = take (length (readable b)) (d @ readable b)"
proof -
  let ?k = "write_idx b - read_idx b"
  let ?n = "kPrependableSize + length d"
  have i: "read_idx b \<le> write_idx b" "write_idx b < size_mod"
    using assms(1) by (simp_all add: buffer_inv_def)
  have w: "add64 ?n (sub64 (write_idx b) ?n) = write_idx b"
    by (rule add64_sub64_cancel) (use i assms(5) in simp_all)
  have z: "write_at ?n (readable b) (zeros (length d + ?k + kPrependableSize)) = zeros ?n @ readable b"
    using assms(1) by (simp add: write_at_def zeros_def)
  have "prepend d b = \<lparr>buf = write_at kPrependableSize d (zeros ?n @ readable b),
      read_idx = kPrependableSize, write_idx = write_idx b\<rparr>"
    using assms(2,3) w z sizes(1)[OF assms(1)]
    by (intro buffer.equality) (simp_all add: prepend_def prependable_size_def Let_def readable_size_def)
  moreover have "write_at kPrependableSize d (zeros ?n @ readable b) = zeros kPrependableSize @ d @ readable b"
    by (simp add: write_at_def zeros_def)
  ultimately have p: "prepend d b = \<lparr>buf = zeros kPrependableSize @ d @ readable b,
      read_idx = kPrependableSize, write_idx = write_idx b\<rparr>" by simp
  have "readable (prepend d b) = take (write_idx b - kPrependableSize) (d @ readable b)"
    unfolding readable_def[of "prepend d b"] readable_size_def[of "prepend d b"]
    using i assms(2) by (simp add: p)
  then show ?thesis using assms(1,2) by simp
qed

section \<open>Properties\<close>

text \<open>C28: a buffer is a first-in first-out queue of bytes. Starting from a new buffer, for every
  history of appends and consumes the bytes handed out, followed by what is still readable, are
  the bytes appended, in order; nothing is lost when the vector is compacted or grown.\<close>

theorem buffer_is_fifo:
  assumes "queue_fits buffer_room append_bytes consume ops new_buffer"
  shows "queue_given ops =
      queue_taken readable append_bytes consume ops new_buffer
      @ readable (queue_run append_bytes consume ops new_buffer)
    \<and> buffer_inv (queue_run append_bytes consume ops new_buffer)"
  using buffer_queue.run_fifo[OF new_buffer_ok(1) assms] buffer_queue.run_good[OF new_buffer_ok(1) assms]
  by (simp add: new_buffer_ok)

theorem buffer_is_fifo_witness:
  "queue_given [Q_Append ''abc'', Q_Consume 2, Q_Append ''d''] =
      queue_taken readable append_bytes consume [Q_Append ''abc'', Q_Consume 2, Q_Append ''d''] new_buffer
      @ readable (queue_run append_bytes consume [Q_Append ''abc'', Q_Consume 2, Q_Append ''d''] new_buffer)
    \<and> buffer_inv (queue_run append_bytes consume [Q_Append ''abc'', Q_Consume 2, Q_Append ''d''] new_buffer)"
proof (rule buffer_is_fifo)
  have l: "length (buf new_buffer) = 4224" by (simp add: new_buffer_def kInitialSize_def kPrependableSize_def)
  have a: "buffer_room new_buffer ''abc''" by (simp add: buffer_room_def l size_mod_def)
  have "append_bytes ''abc'' new_buffer =
      \<lparr>buf = write_at 128 ''abc'' (buf new_buffer), read_idx = 128, write_idx = 131\<rparr>"
    using sizes(2)[OF new_buffer_ok(1)]
    by (simp add: append_bytes_def ensure_writable_def Let_def l) (simp add: new_buffer_def kPrependableSize_def)
  then have "length (buf (consume 2 (append_bytes ''abc'' new_buffer))) = 4224"
    by (simp add: consume_def Let_def l)
  then show "queue_fits buffer_room append_bytes consume [Q_Append ''abc'', Q_Consume 2, Q_Append ''d''] new_buffer"
    using a by (simp add: buffer_room_def size_mod_def)
qed

text \<open>whatever \<^verbatim>\<open>readv\<close> delivers, up to the capacity of its two segments, is appended to the
  readable bytes, also when it spills over into the stack buffer; an error or end of file leaves the
  buffer unchanged. What \<^verbatim>\<open>write\<close> accepts is removed from the front.\<close>

theorem buffer_io_exact:
  assumes "buffer_inv b" and "buffer_room b d" and "d \<noteq> []" and "length d \<le> read_capacity b"
  shows "fst (read_from_fd (Some d) b) = int (length d)
    \<and> buffer_inv (snd (read_from_fd (Some d) b))
    \<and> readable (snd (read_from_fd (Some d) b)) = readable b @ d
    \<and> read_from_fd None b = (-1, b) \<and> read_from_fd (Some []) b = (0, b)
    \<and> readable (snd (write_to_fd ret b)) = drop (nat ret) (readable b)"
  using read_from_fd_ok[OF assms(1-3)] write_to_fd_ok(2)[OF assms(1)]
  by (simp add: read_from_fd_def)

theorem buffer_io_exact_witness:
  "readable (snd (read_from_fd (Some ''hello'') new_buffer)) = ''hello''"
proof -
  have "buffer_room new_buffer ''hello''"
    by (simp add: buffer_room_def new_buffer_def kInitialSize_def kPrependableSize_def size_mod_def)
  moreover have "length ''hello'' \<le> read_capacity new_buffer"
    by (simp add: read_capacity_def stack_buf_size_def)
  ultimately show ?thesis
    using buffer_io_exact[OF new_buffer_ok(1), of "''hello''"] by (simp add: new_buffer_ok)
qed

text \<open>prepending works as long as the reserved space suffices. When it does not, the
  reallocating branch sets the write index from the already overwritten read index: the readable
  size stays what it was, so as many bytes as were prepended are cut off the end.\<close>

theorem buffer_prepend:
  assumes "buffer_inv b"
  shows "(length d \<le> read_idx b \<longrightarrow> buffer_inv (prepend d b) \<and> readable (prepend d b) = d @ readable b)
    \<and> (read_idx b = kPrependableSize \<and> kPrependableSize < length d \<and> buffer_room b d \<longrightarrow>
         readable (prepend d b) = take (length (readable b)) (d @ readable b))"
proof -
  have "kPrependableSize + length d < size_mod" if "buffer_room b d"
    using assms that by (simp add: buffer_room_def buffer_inv_def)
  then show ?thesis using prepend_fits_ok[OF assms] prepend_realloc[OF assms] by simp
qed

theorem buffer_prepend_witness:
  "readable (prepend ''X: 1'' new_buffer) = ''X: 1''
    \<and> readable (prepend (replicate 129 CR) new_buffer) = []"
proof -
  have "buffer_room new_buffer (replicate 129 CR)" "read_idx new_buffer = kPrependableSize"
    by (simp_all add: buffer_room_def new_buffer_def kInitialSize_def kPrependableSize_def size_mod_def)
  then show ?thesis
    using buffer_prepend[OF new_buffer_ok(1), of "''X: 1''"]
      buffer_prepend[OF new_buffer_ok(1), of "replicate 129 CR"]
    by (simp add: new_buffer_ok kPrependableSize_def)
qed

end
