(* ===== verification/Gw_Heap.thy ===== *)
theory Gw_Heap
  imports Gw_Prelude
begin

text \<open>
  \<^verbatim>\<open>std::push_heap\<close> and \<^verbatim>\<open>std::pop_heap\<close> as libstdc++ implements them, on a vector ordered by
  \<^verbatim>\<open>std::greater\<close> over an integer key, so that the front is the smallest element. Both keep the
  elements and the heap order. The locale \<open>min_queue\<close> is the contract that the timer relies on.
\<close>

section \<open>The heap algorithms\<close>

definition heap_parent :: "nat \<Rightarrow> nat" where
  "heap_parent i = (i - 1) div 2"

lemma heap_parent_less [simp]: "0 < i \<Longrightarrow> heap_parent i < i"
  by (simp add: heap_parent_def)

lemma heap_parent_bound [simp]: "0 < i \<Longrightarrow> i < n \<Longrightarrow> heap_parent i < n"
  using heap_parent_less[of i] by linarith

lemma heap_parent_neq [simp]: "0 < i \<Longrightarrow> heap_parent i \<noteq> i" "0 < i \<Longrightarrow> i \<noteq> heap_parent i"
  using heap_parent_less[of i] by linarith+

text \<open>\<^verbatim>\<open>__push_heap\<close>: move the hole up until the value fits.\<close>

function sift_up :: "('a \<Rightarrow> int) \<Rightarrow> 'a list \<Rightarrow> nat \<Rightarrow> 'a \<Rightarrow> 'a list" where
  "sift_up key xs i v =
     (if 0 < i \<and> key v < key (xs ! heap_parent i)
      then sift_up key (xs[i := xs ! heap_parent i]) (heap_parent i) v
      else xs[i := v])"
  by pat_completeness auto
termination by (relation "measure (\<lambda>(key, xs, i, v). i)") auto

declare sift_up.simps [simp del]

text \<open>\<^verbatim>\<open>push_back\<close> followed by \<^verbatim>\<open>push_heap\<close>.\<close>

definition heap_push :: "('a \<Rightarrow> int) \<Rightarrow> 'a \<Rightarrow> 'a list \<Rightarrow> 'a list" where
  "heap_push key v xs = sift_up key (xs @ [v]) (length xs) v"

text \<open>\<^verbatim>\<open>__adjust_heap\<close>: move the hole down to a leaf along the smaller children, then up.\<close>

definition small_child :: "('a \<Rightarrow> int) \<Rightarrow> 'a list \<Rightarrow> nat \<Rightarrow> nat" where
  "small_child key xs hole =
     (let s = 2 * (hole + 1) in if key (xs ! (s - 1)) < key (xs ! s) then s - 1 else s)"

function adjust_heap :: "('a \<Rightarrow> int) \<Rightarrow> 'a list \<Rightarrow> nat \<Rightarrow> 'a \<Rightarrow> 'a list" where
  "adjust_heap key xs hole v =
     (if hole < (length xs - 1) div 2 then
        let c = small_child key xs hole in adjust_heap key (xs[hole := xs ! c]) c v
      else if even (length xs) \<and> hole = (length xs - 2) div 2 then
        let c = 2 * (hole + 1) - 1 in sift_up key (xs[hole := xs ! c]) c v
      else sift_up key xs hole v)"
  by pat_completeness auto
termination by (relation "measure (\<lambda>(key, xs, i, v). length xs - i)") (auto simp: Let_def small_child_def)

declare adjust_heap.simps [simp del]

text \<open>\<^verbatim>\<open>pop_heap\<close> followed by \<^verbatim>\<open>pop_back\<close>.\<close>

definition heap_pop :: "('a \<Rightarrow> int) \<Rightarrow> 'a list \<Rightarrow> 'a list" where
  "heap_pop key xs =
     (if length xs \<le> 1 then [] else adjust_heap key (butlast xs) 0 (last xs))"

lemma adjust_one_child:
  assumes "\<not> hole < (length xs - 1) div 2" and "even (length xs) \<and> hole = (length xs - 2) div 2"
  shows "adjust_heap key xs hole v =
    sift_up key (xs[hole := xs ! (2 * (hole + 1) - 1)]) (2 * (hole + 1) - 1) v"
  unfolding adjust_heap.simps[of key xs hole v] if_not_P[OF assms(1)] if_P[OF assms(2)] Let_def ..

lemma adjust_leaf:
  assumes "\<not> hole < (length xs - 1) div 2" and "\<not> (even (length xs) \<and> hole = (length xs - 2) div 2)"
  shows "adjust_heap key xs hole v = sift_up key xs hole v"
  unfolding adjust_heap.simps[of key xs hole v] if_not_P[OF assms(1)] if_not_P[OF assms(2)] ..

section \<open>Elements are kept\<close>

lemma mset_move:
  assumes "i < length xs" and "j < length xs" and "i \<noteq> j"
  shows "mset (xs[i := xs ! j, j := v]) = mset (xs[i := v])"
proof -
  let ?ys = "xs[i := v]"
  have "xs[i := xs ! j, j := v] = ?ys[i := ?ys ! j, j := ?ys ! i]"
    using assms by (simp add: list_update_swap)
  then show ?thesis using assms mset_swap[of j ?ys i] by simp
qed

lemma length_sift_up [simp]: "length (sift_up key xs i v) = length xs"
proof (induction key xs i v rule: sift_up.induct)
  case (1 key xs i v)
  then show ?case by (subst sift_up.simps) simp
qed

lemma mset_sift_up: "i < length xs \<Longrightarrow> mset (sift_up key xs i v) = mset (xs[i := v])"
proof (induction key xs i v rule: sift_up.induct)
  case (1 key xs i v)
  show ?case
  proof (cases "0 < i \<and> key v < key (xs ! heap_parent i)")
    case True
    then have p: "heap_parent i < length xs" "i \<noteq> heap_parent i"
      using "1.prems" heap_parent_neq(1)[of i] by (auto simp del: heap_parent_neq)
    have "mset (sift_up key xs i v) = mset (xs[i := xs ! heap_parent i, heap_parent i := v])"
      using True "1.IH" p by (simp add: sift_up.simps[of key xs i v])
    then show ?thesis using mset_move[OF "1.prems" p] by simp
  qed (auto simp: sift_up.simps[of key xs i v])
qed

lemma mset_adjust: "hole < length xs \<Longrightarrow> mset (adjust_heap key xs hole v) = mset (xs[hole := v])"
proof (induction key xs hole v rule: adjust_heap.induct)
  case (1 key xs hole v)
  define c where "c = small_child key xs hole"
  consider (two) "hole < (length xs - 1) div 2"
    | (one) "\<not> hole < (length xs - 1) div 2" "even (length xs)" "hole = (length xs - 2) div 2"
    | (leaf) "\<not> hole < (length xs - 1) div 2" "\<not> (even (length xs) \<and> hole = (length xs - 2) div 2)"
    by blast
  then show ?case
  proof cases
    case two
    then have c: "c < length xs" "hole \<noteq> c" by (auto simp: c_def small_child_def Let_def)
    have "mset (adjust_heap key xs hole v) = mset (xs[hole := xs ! c, c := v])"
      using "1.IH"[OF two c_def] c two
      by (simp add: adjust_heap.simps[of key xs hole v] Let_def flip: c_def)
    then show ?thesis using mset_move[OF "1.prems" c] by simp
  next
    case one
    define d where "d = 2 * (hole + 1) - 1"
    have "2 \<le> length xs" using one(2) "1.prems" by presburger
    then have d: "d < length xs" "hole \<noteq> d" using one by (auto simp: d_def)
    have "mset (adjust_heap key xs hole v) = mset (xs[hole := xs ! d, d := v])"
      unfolding adjust_one_child[OF one(1) conjI[OF one(2,3)]] d_def[symmetric]
      using d by (simp add: mset_sift_up)
    then show ?thesis using mset_move[OF "1.prems" d] by simp
  next
    case leaf
    show ?thesis unfolding adjust_leaf[OF leaf] using "1.prems" by (rule mset_sift_up)
  qed
qed

lemma mset_heap_push [simp]: "mset (heap_push key v xs) = add_mset v (mset xs)"
  by (simp add: heap_push_def mset_sift_up)

lemma mset_heap_pop: "xs \<noteq> [] \<Longrightarrow> mset (heap_pop key xs) = mset xs - {#hd xs#}"
proof -
  assume ne: "xs \<noteq> []"
  show ?thesis
  proof (cases "length xs \<le> 1")
    case True
    with ne show ?thesis by (cases xs) (auto simp: heap_pop_def)
  next
    case False
    then obtain x ys where xs: "xs = x # ys" "ys \<noteq> []" by (cases xs) auto
    then have b: "butlast xs = x # butlast ys" "last xs = last ys" by auto
    have "mset (heap_pop key xs) = mset ((x # butlast ys)[0 := last ys])"
      using False unfolding heap_pop_def b by (simp add: mset_adjust del: list_update_code)
    also have "\<dots> = mset ys"
      using xs(2) by (cases ys rule: rev_cases) simp_all
    finally show ?thesis by (simp add: xs)
  qed
qed

section \<open>Heap order\<close>

definition heap_edge :: "('a \<Rightarrow> int) \<Rightarrow> 'a list \<Rightarrow> nat \<Rightarrow> bool" where
  "heap_edge key xs j \<longleftrightarrow> key (xs ! heap_parent j) \<le> key (xs ! j)"

definition heap_ok :: "('a \<Rightarrow> int) \<Rightarrow> 'a list \<Rightarrow> bool" where
  "heap_ok key xs \<longleftrightarrow> (\<forall>j. 0 < j \<and> j < length xs \<longrightarrow> heap_edge key xs j)"

text \<open>The only edge that may be wrong is the one above \<open>i\<close>, and its upper end is below the children
  of \<open>i\<close>.\<close>

definition heap_up :: "('a \<Rightarrow> int) \<Rightarrow> 'a list \<Rightarrow> nat \<Rightarrow> bool" where
  "heap_up key ys i \<longleftrightarrow>
     (\<forall>j. 0 < j \<and> j < length ys \<and> j \<noteq> i \<longrightarrow> heap_edge key ys j)
     \<and> (0 < i \<longrightarrow> (\<forall>j. 0 < j \<and> j < length ys \<and> heap_parent j = i \<longrightarrow> key (ys ! heap_parent i) \<le> key (ys ! j)))"

lemma nth_swapped:
  "p \<noteq> i \<Longrightarrow> p < length xs \<Longrightarrow> j < length xs \<Longrightarrow>
   xs[i := xs ! p, p := v] ! j = (if j = p then v else if j = i then xs ! p else xs ! j)"
  by (simp add: nth_list_update)

lemma heap_upD:
  assumes "heap_up key (xs[i := v]) i" and "0 < j" and "j < length xs"
  shows "j \<noteq> i \<Longrightarrow> key (xs[i := v] ! heap_parent j) \<le> key (xs[i := v] ! j)"
    and "0 < i \<Longrightarrow> i < length xs \<Longrightarrow> heap_parent j = i \<Longrightarrow> key (xs ! heap_parent i) \<le> key (xs ! j)"
proof -
  show "key (xs[i := v] ! heap_parent j) \<le> key (xs[i := v] ! j)" if "j \<noteq> i"
    using assms that by (simp add: heap_up_def heap_edge_def)
  assume i: "0 < i" "i < length xs" "heap_parent j = i"
  then have "key (xs[i := v] ! heap_parent i) \<le> key (xs[i := v] ! j)" using assms by (simp add: heap_up_def)
  then show "key (xs ! heap_parent i) \<le> key (xs ! j)" using assms i by auto
qed

lemma heap_up_edges:
  assumes up: "heap_up key (xs[i := v]) i" and i: "0 < i" "i < length xs" and p_def: "p = heap_parent i"
    and lt: "key v < key (xs ! p)" and j: "0 < j" "j < length xs" "j \<noteq> p"
  shows "heap_edge key (xs[i := xs ! p, p := v]) j"
proof -
  have pi: "p < i" "p \<noteq> i" "p < length xs" using i by (simp_all add: p_def)
  note z = nth_swapped[OF pi(2,3)] and E = heap_upD(1)[OF up j(1,2)]
  have y: "xs[i := v] ! j = (if j = i then v else xs ! j)" if "j < length xs" for j
    using that by (simp add: nth_list_update)
  have hp: "heap_parent j < j" "heap_parent j < length xs" using j by simp_all
  consider "j = i" | "j \<noteq> i" "heap_parent j = i" | "j \<noteq> i" "heap_parent j = p" | "j \<noteq> i" "heap_parent j \<noteq> i" "heap_parent j \<noteq> p"
    by blast
  then show ?thesis
  proof cases
    case 1
    then show ?thesis using lt pi i by (simp add: heap_edge_def z p_def[symmetric])
  next
    case 2
    then show ?thesis using heap_upD(2)[OF up j(1,2) i] j pi i by (simp add: heap_edge_def z p_def[symmetric])
  next
    case 3
    then show ?thesis using E lt j pi by (simp add: heap_edge_def z y p_def[symmetric])
  next
    case 4
    then show ?thesis using E j hp by (simp add: heap_edge_def z y)
  qed
qed

lemma heap_up_step:
  assumes up: "heap_up key (xs[i := v]) i" and i: "0 < i" "i < length xs"
    and lt: "key v < key (xs ! heap_parent i)"
  shows "heap_up key (xs[i := xs ! heap_parent i, heap_parent i := v]) (heap_parent i)"
proof -
  define p where "p = heap_parent i"
  have pi: "p < i" "p \<noteq> i" "p < length xs" using i by (simp_all add: p_def)
  let ?zs = "xs[i := xs ! p, p := v]"
  note z = nth_swapped[OF pi(2,3)] and E = heap_upD(1)[OF up]
  have y: "xs[i := v] ! j = (if j = i then v else xs ! j)" if "j < length xs" for j
    using that by (simp add: nth_list_update)
  have "key (?zs ! heap_parent p) \<le> key (?zs ! j)" if p0: "0 < p" and j: "0 < j" "j < length xs" "heap_parent j = p" for j
  proof -
    have hp: "heap_parent p < p" "heap_parent p < length xs" using p0 pi by simp_all
    have gp: "key (xs ! heap_parent p) \<le> key (xs ! p)" using E[OF p0] pi hp by (simp add: y)
    have jp: "j \<noteq> p" using j heap_parent_neq(1)[of j] by (auto simp del: heap_parent_neq)
    show ?thesis
    proof (cases "j = i")
      case True
      then show ?thesis using gp hp pi i by (simp add: z)
    next
      case False
      then have "key (xs ! p) \<le> key (xs ! j)" using E[OF j(1,2)] j pi by (simp add: y)
      then show ?thesis using gp hp pi j jp False by (simp add: z)
    qed
  qed
  moreover have "heap_edge key ?zs j" if "0 < j" "j < length xs" "j \<noteq> p" for j
    using heap_up_edges[OF up i p_def] lt that by (simp add: p_def)
  ultimately show ?thesis by (simp add: heap_up_def p_def)
qed

lemma sift_up_heap:
  "heap_up key (xs[i := v]) i \<Longrightarrow> i < length xs \<Longrightarrow> heap_ok key (sift_up key xs i v)"
proof (induction key xs i v rule: sift_up.induct)
  case (1 key xs i v)
  show ?case
  proof (cases "0 < i \<and> key v < key (xs ! heap_parent i)")
    case True
    then have "heap_parent i < length xs" using "1.prems"(2) by simp
    with True "1.IH"[OF True] heap_up_step[OF "1.prems"(1) _ "1.prems"(2)]
    show ?thesis by (simp add: sift_up.simps[of key xs i v])
  next
    case False
    have "heap_edge key (xs[i := v]) j" if j: "0 < j" "j < length xs" for j
    proof (cases "j = i")
      case True
      with False j show ?thesis by (auto simp: heap_edge_def)
    next
      case False
      then show ?thesis using "1.prems"(1) j by (simp add: heap_up_def)
    qed
    with False show ?thesis by (auto simp: heap_ok_def sift_up.simps[of key xs i v])
  qed
qed

text \<open>On the way down: every edge that does not touch the hole is right, and the parent of the hole
  is below its children.\<close>

definition heap_down :: "('a \<Rightarrow> int) \<Rightarrow> 'a list \<Rightarrow> nat \<Rightarrow> bool" where
  "heap_down key xs i \<longleftrightarrow>
     (\<forall>j. 0 < j \<and> j < length xs \<and> j \<noteq> i \<and> heap_parent j \<noteq> i \<longrightarrow> heap_edge key xs j)
     \<and> (0 < i \<longrightarrow> (\<forall>j. 0 < j \<and> j < length xs \<and> heap_parent j = i \<longrightarrow> key (xs ! heap_parent i) \<le> key (xs ! j)))"

lemma heap_down_step:
  assumes d: "heap_down key xs i" and c: "heap_parent c = i" "0 < c" "c < length xs"
    and min: "\<And>j. 0 < j \<Longrightarrow> j < length xs \<Longrightarrow> heap_parent j = i \<Longrightarrow> key (xs ! c) \<le> key (xs ! j)"
  shows "heap_down key (xs[i := xs ! c]) c"
proof -
  have ic: "i < c" "i < length xs" "i \<noteq> c"
    using c heap_parent_less[of c] by (simp_all del: heap_parent_less)
  let ?zs = "xs[i := xs ! c]"
  have z: "?zs ! j = (if j = i then xs ! c else xs ! j)" if "j < length xs" for j
    using that by (simp add: nth_list_update)
  have "heap_edge key ?zs j" if j: "0 < j" "j < length xs" "j \<noteq> c" "heap_parent j \<noteq> c" for j
  proof -
    have hp: "heap_parent j < j" "heap_parent j < length xs" using j by simp_all
    show ?thesis
    proof (cases "j = i")
      case True
      then have "key (xs ! heap_parent i) \<le> key (xs ! c)" using d c j by (simp add: heap_down_def)
      then show ?thesis using True hp ic by (simp add: heap_edge_def z)
    next
      case False
      show ?thesis
      proof (cases "heap_parent j = i")
        case True
        then show ?thesis using min[OF j(1,2)] j False ic by (simp add: heap_edge_def z)
      next
        case False
        then have "heap_edge key xs j" using d j \<open>j \<noteq> i\<close> by (simp add: heap_down_def)
        then show ?thesis using j hp False \<open>j \<noteq> i\<close> by (simp add: heap_edge_def z)
      qed
    qed
  qed
  moreover have "key (?zs ! heap_parent c) \<le> key (?zs ! j)" if j: "0 < j" "j < length xs" "heap_parent j = c" for j
  proof -
    have "j \<noteq> i" "heap_parent j \<noteq> i"
      using j ic heap_parent_less[of j] by (auto simp del: heap_parent_less)
    then have "key (xs ! c) \<le> key (xs ! j)" using d j by (auto simp: heap_down_def heap_edge_def)
    then show ?thesis using j c ic \<open>j \<noteq> i\<close> by (simp add: z)
  qed
  ultimately show ?thesis by (simp add: heap_down_def)
qed

lemma heap_children: "0 < j \<Longrightarrow> heap_parent j = i \<longleftrightarrow> j = 2 * i + 1 \<or> j = 2 * i + 2"
  by (auto simp: heap_parent_def)

lemma heap_down_leaf:
  assumes "heap_down key xs i" and "i < length xs" and "length xs \<le> 2 * i + 1"
  shows "heap_up key (xs[i := v]) i"
proof -
  have no: "heap_parent j \<noteq> i" if "0 < j" "j < length xs" for j
    using that assms(3) heap_children[of j i] by auto
  have "heap_edge key (xs[i := v]) j" if "0 < j" "j < length xs" "j \<noteq> i" for j
    using assms(1) that no[OF that(1,2)] by (simp add: heap_down_def heap_edge_def)
  with no show ?thesis by (auto simp: heap_up_def)
qed

lemma adjust_heap_ok:
  "heap_down key xs i \<Longrightarrow> i < length xs \<Longrightarrow> heap_ok key (adjust_heap key xs i v)"
proof (induction key xs i v rule: adjust_heap.induct)
  case (1 key xs i v)
  define c where "c = small_child key xs i"
  consider (two) "i < (length xs - 1) div 2"
    | (one) "\<not> i < (length xs - 1) div 2" "even (length xs)" "i = (length xs - 2) div 2"
    | (leaf) "\<not> i < (length xs - 1) div 2" "\<not> (even (length xs) \<and> i = (length xs - 2) div 2)"
    by blast
  then show ?case
  proof cases
    case two
    have c: "c = 2 * i + 1 \<or> c = 2 * i + 2" by (simp add: c_def small_child_def Let_def)
    then have "heap_parent c = i" "0 < c" "c < length xs" using two by (auto simp: heap_parent_def)
    moreover have "key (xs ! c) \<le> key (xs ! j)" if "0 < j" "heap_parent j = i" for j
      using that heap_children[of j i] by (auto simp: c_def small_child_def Let_def)
    ultimately show ?thesis
      using "1.IH"[OF two c_def] heap_down_step[OF "1.prems"(1), of c] two
      by (simp add: adjust_heap.simps[of key xs i v] Let_def flip: c_def)
  next
    case one
    define d where "d = 2 * (i + 1) - 1"
    have "2 \<le> length xs" using one(2) "1.prems"(2) by presburger
    then have d: "heap_parent d = i" "0 < d" "d < length xs" "length xs = d + 1"
      using one by (auto simp: d_def heap_parent_def)
    have "key (xs ! d) \<le> key (xs ! j)" if "0 < j" "j < length xs" "heap_parent j = i" for j
      using that d heap_children[of j i] by (auto simp: d_def)
    then have "heap_up key (xs[i := xs ! d, d := v]) d"
      using heap_down_step[OF "1.prems"(1) d(1-3)] d by (intro heap_down_leaf) auto
    then show ?thesis
      unfolding adjust_one_child[OF one(1) conjI[OF one(2,3)]] d_def[symmetric]
      using d by (simp add: sift_up_heap)
  next
    case leaf
    then have "length xs \<le> 2 * i + 1" using "1.prems"(2) by presburger
    then show ?thesis
      unfolding adjust_leaf[OF leaf] using "1.prems" heap_down_leaf[OF "1.prems"]
      by (simp add: sift_up_heap)
  qed
qed

lemma heap_push_ok: "heap_ok key xs \<Longrightarrow> heap_ok key (heap_push key v xs)"
proof -
  assume h: "heap_ok key xs"
  have e: "heap_edge key (xs @ [v]) j" if "0 < j" "j < length xs" for j
    using h that by (simp add: heap_ok_def heap_edge_def nth_append)
  have c: "heap_parent j \<noteq> length xs" if "0 < j" "j < Suc (length xs)" for j
    using that heap_parent_less[of j] by linarith
  have "heap_up key ((xs @ [v])[length xs := v]) (length xs)"
    using e c by (auto simp: heap_up_def)
  then show ?thesis by (simp add: heap_push_def sift_up_heap)
qed

lemma heap_pop_ok: "heap_ok key xs \<Longrightarrow> heap_ok key (heap_pop key xs)"
proof (cases "length xs \<le> 1")
  case False
  assume h: "heap_ok key xs"
  have "heap_edge key (butlast xs) j" if "0 < j" "j < length (butlast xs)" for j
    using h that by (simp add: heap_ok_def heap_edge_def nth_butlast)
  then have "heap_down key (butlast xs) 0" by (simp add: heap_down_def)
  with False show ?thesis by (simp add: heap_pop_def adjust_heap_ok)
qed (simp add: heap_pop_def heap_ok_def)

lemma heap_front_min: "heap_ok key xs \<Longrightarrow> i < length xs \<Longrightarrow> key (xs ! 0) \<le> key (xs ! i)"
proof (induction i rule: less_induct)
  case (less i)
  show ?case
  proof (cases "i = 0")
    case False
    then have "key (xs ! 0) \<le> key (xs ! heap_parent i)"
      using less by simp
    also have "\<dots> \<le> key (xs ! i)" using less.prems False by (simp add: heap_ok_def heap_edge_def)
    finally show ?thesis .
  qed simp
qed

section \<open>The contract of a priority queue\<close>

locale min_queue =
  fixes elems :: "'q \<Rightarrow> 'a multiset" and good :: "'q \<Rightarrow> bool" and key :: "'a \<Rightarrow> int"
    and top :: "'q \<Rightarrow> 'a" and push :: "'a \<Rightarrow> 'q \<Rightarrow> 'q" and pop :: "'q \<Rightarrow> 'q"
  assumes push_ok: "good q \<Longrightarrow> good (push x q) \<and> elems (push x q) = add_mset x (elems q)"
    and top_ok: "good q \<Longrightarrow> elems q \<noteq> {#} \<Longrightarrow> top q \<in># elems q \<and> (\<forall>x \<in># elems q. key (top q) \<le> key x)"
    and pop_ok: "good q \<Longrightarrow> elems q \<noteq> {#} \<Longrightarrow> good (pop q) \<and> elems (pop q) = elems q - {#top q#}"
begin

lemma none_due: "good q \<Longrightarrow> elems q = {#} \<or> t < key (top q) \<Longrightarrow> x \<in># elems q \<Longrightarrow> t < key x"
  using top_ok[of q] by force

lemma pop_split: "good q \<Longrightarrow> elems q \<noteq> {#} \<Longrightarrow> elems q = add_mset (top q) (elems (pop q))"
  using top_ok[of q] pop_ok[of q] by simp

end

interpretation vector_heap: min_queue mset "heap_ok key" key hd "heap_push key" "heap_pop key"
proof
  show "heap_ok key (heap_push key x q) \<and> mset (heap_push key x q) = add_mset x (mset q)"
    if "heap_ok key q" for q x
    using that by (simp add: heap_push_ok)
  show "hd q \<in># mset q \<and> (\<forall>x \<in># mset q. key (hd q) \<le> key x)" if "heap_ok key q" "mset q \<noteq> {#}" for q
    using that heap_front_min[of key q] by (auto simp: in_set_conv_nth hd_conv_nth)
  show "heap_ok key (heap_pop key q) \<and> mset (heap_pop key q) = mset q - {#hd q#}"
    if "heap_ok key q" "mset q \<noteq> {#}" for q
    using that by (simp add: heap_pop_ok mset_heap_pop)
qed

end
