(* ===== verification/Gw_Timer.thy ===== *)
theory Gw_Timer
  imports Gw_Heap
begin

text \<open>
  The timer heap of \<^verbatim>\<open>src/src/timer/timer.cpp\<close>. Times are nanoseconds of the steady clock, delays
  and intervals milliseconds; the current time is an argument of every operation that reads the
  clock. Callbacks are values of an arbitrary type, a null \<^verbatim>\<open>std::function\<close> is \<^const>\<open>None\<close>.
\<close>

section \<open>Model\<close>

record 'cb timer_entry =
  te_id :: nat
  te_expire :: int
  te_interval :: int
  te_callback :: "'cb option"
  te_cancelled :: bool

record 'cb timer =
  theap :: "'cb timer_entry list"
  next_id :: nat

definition new_timer :: "'cb timer" where
  "new_timer = \<lparr>theap = [], next_id = 1\<rparr>"

definition ms_to_ns :: "int \<Rightarrow> int" where
  "ms_to_ns ms = ms * 1000000"

definition run_after :: "int \<Rightarrow> int \<Rightarrow> 'cb option \<Rightarrow> 'cb timer \<Rightarrow> nat \<times> 'cb timer" where
  "run_after now delay_ms cb t =
     (next_id t,
      t\<lparr>next_id := add64 (next_id t) 1,
        theap := heap_push te_expire
          \<lparr>te_id = next_id t, te_expire = now + ms_to_ns delay_ms, te_interval = 0,
           te_callback = cb, te_cancelled = False\<rparr> (theap t)\<rparr>)"

definition run_every :: "int \<Rightarrow> int \<Rightarrow> 'cb option \<Rightarrow> 'cb timer \<Rightarrow> nat \<times> 'cb timer" where
  "run_every now interval_ms cb t =
     (next_id t,
      t\<lparr>next_id := add64 (next_id t) 1,
        theap := heap_push te_expire
          \<lparr>te_id = next_id t, te_expire = now + ms_to_ns interval_ms, te_interval = interval_ms,
           te_callback = cb, te_cancelled = False\<rparr> (theap t)\<rparr>)"

fun cancel_first :: "nat \<Rightarrow> 'cb timer_entry list \<Rightarrow> 'cb timer_entry list" where
  "cancel_first i [] = []"
| "cancel_first i (e # es) =
     (if te_id e = i then e\<lparr>te_cancelled := True, te_callback := None\<rparr> # es else e # cancel_first i es)"

definition cancel :: "nat \<Rightarrow> 'cb timer \<Rightarrow> 'cb timer" where
  "cancel i t = t\<lparr>theap := cancel_first i (theap t)\<rparr>"

definition rearm :: "int \<Rightarrow> 'cb timer_entry \<Rightarrow> 'cb timer_entry" where
  "rearm now e =
     \<lparr>te_id = te_id e, te_expire = now + ms_to_ns (te_interval e), te_interval = te_interval e,
      te_callback = te_callback e, te_cancelled = False\<rparr>"

definition due :: "int \<Rightarrow> 'cb timer_entry \<Rightarrow> bool" where
  "due now e \<longleftrightarrow> te_expire e \<le> now"

lemma rearm_not_due: "0 < te_interval e \<Longrightarrow> \<not> due now (rearm now e)"
  by (simp add: rearm_def due_def ms_to_ns_def)

lemma due_front_less:
  assumes "h \<noteq> []" and "\<not> now < te_expire (hd h)"
  shows "size (filter_mset (due now) (mset (heap_pop te_expire h))) < size (filter_mset (due now) (mset h))"
proof -
  have "mset h = add_mset (hd h) (mset (heap_pop te_expire h))"
    using assms(1) by (simp add: mset_heap_pop)
  then have "filter_mset (due now) (mset h) = add_mset (hd h) (filter_mset (due now) (mset (heap_pop te_expire h)))"
    using assms(2) by (simp add: due_def)
  then show ?thesis by simp
qed

text \<open>The loop of \<^verbatim>\<open>tick()\<close> under the lock: the callbacks that are ready, and the heap it leaves.\<close>

function tick_loop :: "int \<Rightarrow> 'cb timer_entry list \<Rightarrow> 'cb option list \<Rightarrow> 'cb option list \<times> 'cb timer_entry list" where
  "tick_loop now h ready =
     (if h = [] then (ready, h)
      else if now < te_expire (hd h) then (ready, h)
      else if te_cancelled (hd h) then tick_loop now (heap_pop te_expire h) ready
      else
        let e = hd h;
            h1 = heap_pop te_expire h;
            h2 = (if 0 < te_interval e then heap_push te_expire (rearm now e) h1 else h1)
        in tick_loop now h2 (ready @ [te_callback e]))"
  by pat_completeness auto

termination
  by (relation "measure (\<lambda>(now, h, ready). size (filter_mset (due now) (mset h)))")
    (auto simp: due_front_less rearm_not_due Let_def)

declare tick_loop.simps [simp del]

definition tick :: "int \<Rightarrow> 'cb timer \<Rightarrow> 'cb option list \<times> 'cb timer" where
  "tick now t = (case tick_loop now (theap t) [] of (ready, h) \<Rightarrow> (ready, t\<lparr>theap := h\<rparr>))"

text \<open>The calls the second part of \<^verbatim>\<open>tick()\<close> makes, after the lock is released.\<close>

definition tick_calls :: "'cb option list \<Rightarrow> 'cb list" where
  "tick_calls ready = map the (filter (\<lambda>cb. cb \<noteq> None) ready)"

definition remaining_ms :: "int \<Rightarrow> 'cb timer_entry \<Rightarrow> int" where
  "remaining_ms now e =
     (let d = te_expire e - now;
          ms = (if d < 0 then - (- d div 1000000) else d div 1000000)
      in if ms < 0 then 0 else ms)"

definition next_timeout_ms :: "int \<Rightarrow> 'cb timer \<Rightarrow> int" where
  "next_timeout_ms now t =
     (case List.find (\<lambda>e. \<not> te_cancelled e) (theap t) of
        None \<Rightarrow> -1
      | Some e \<Rightarrow> remaining_ms now e)"

definition pending_count :: "'cb timer \<Rightarrow> nat" where
  "pending_count t = length (theap t)"

section \<open>What a tick does\<close>

definition fires :: "int \<Rightarrow> 'cb timer_entry \<Rightarrow> bool" where
  "fires now e \<longleftrightarrow> due now e \<and> \<not> te_cancelled e"

definition rearmed :: "int \<Rightarrow> 'cb timer_entry multiset \<Rightarrow> 'cb timer_entry multiset" where
  "rearmed now M = image_mset (rearm now) (filter_mset (\<lambda>e. fires now e \<and> 0 < te_interval e) M)"

definition tick_spec ::
  "int \<Rightarrow> 'cb timer_entry list \<Rightarrow> 'cb option list \<Rightarrow> 'cb option list \<times> 'cb timer_entry list \<Rightarrow> bool" where
  "tick_spec now h ready r \<longleftrightarrow>
     (\<exists>es. fst r = ready @ map te_callback es
        \<and> mset es = filter_mset (fires now) (mset h)
        \<and> sorted (map te_expire es)
        \<and> mset (snd r) = filter_mset (\<lambda>e. \<not> due now e) (mset h) + rearmed now (mset h)
        \<and> heap_ok te_expire (snd r))"

lemma filter_none: "\<forall>e \<in># M. \<not> P e \<Longrightarrow> filter_mset P M = {#}"
  by (induction M) auto

lemma filter_all: "\<forall>e \<in># M. P e \<Longrightarrow> filter_mset P M = M"
  by (induction M) auto

lemma tick_loop_rest:
  assumes "heap_ok te_expire h" and "h = [] \<or> now < te_expire (hd h)"
  shows "tick_spec now h ready (tick_loop now h ready)"
proof -
  have "\<forall>e \<in># mset h. now < te_expire e"
    using vector_heap.none_due[OF assms(1)] assms(2) by auto
  then have n: "filter_mset (fires now) (mset h) = {#}" "filter_mset (\<lambda>e. \<not> due now e) (mset h) = mset h"
    "rearmed now (mset h) = {#}"
    by (auto simp: fires_def due_def rearmed_def not_le intro!: filter_none filter_all)
  have "tick_loop now h ready = (ready, h)"
    using assms(2) by (subst tick_loop.simps) auto
  with n assms(1) show ?thesis by (auto simp: tick_spec_def intro!: exI[of _ "[]"])
qed

text \<open>One expired, live entry at the front.\<close>

lemma tick_spec_fire:
  assumes split: "mset h = add_mset e (mset h1)" and d: "due now e" and nc: "\<not> te_cancelled e"
    and min: "\<And>x. x \<in># mset h1 \<Longrightarrow> te_expire e \<le> te_expire x"
    and h2: "h2 = (if 0 < te_interval e then heap_push te_expire (rearm now e) h1 else h1)"
    and spec: "tick_spec now h2 (ready @ [te_callback e]) r"
  shows "tick_spec now h ready r"
proof -
  have f: "filter_mset (fires now) (mset h2) = filter_mset (fires now) (mset h1)"
    "filter_mset (\<lambda>x. fires now x \<and> 0 < te_interval x) (mset h2) =
     filter_mset (\<lambda>x. fires now x \<and> 0 < te_interval x) (mset h1)"
    using rearm_not_due[of e now] by (simp_all add: h2 fires_def)
  from spec obtain es where es: "fst r = ready @ te_callback e # map te_callback es"
    "mset es = filter_mset (fires now) (mset h1)" "sorted (map te_expire es)"
    "mset (snd r) = filter_mset (\<lambda>x. \<not> due now x) (mset h2) + rearmed now (mset h1)"
    "heap_ok te_expire (snd r)"
    by (auto simp: tick_spec_def f rearmed_def)
  have "x \<in># mset h1" if "x \<in> set es" for x
    using that es(2) by (metis filter_mset_eq_conv mset_subset_eqD multiset_filter_subset set_mset_mset)
  then have "sorted (map te_expire (e # es))" using es(3) min by auto
  moreover have "filter_mset (\<lambda>x. \<not> due now x) (mset h2) + rearmed now (mset h1) =
      filter_mset (\<lambda>x. \<not> due now x) (mset h) + rearmed now (mset h)"
    using d nc rearm_not_due[of e now] by (simp add: h2 split rearmed_def fires_def)
  ultimately show ?thesis
    unfolding tick_spec_def using es d nc
    by (intro exI[of _ "e # es"]) (simp add: split fires_def)
qed

lemma tick_loop_ok:
  "heap_ok te_expire h \<Longrightarrow> tick_spec now h ready (tick_loop now h ready)"
proof (induction now h ready rule: tick_loop.induct)
  case (1 now h ready)
  define e where "e = hd h"
  define h1 where "h1 = heap_pop te_expire h"
  define h2 where "h2 = (if 0 < te_interval e then heap_push te_expire (rearm now e) h1 else h1)"
  show ?case
  proof (cases "h = [] \<or> now < te_expire (hd h)")
    case True
    with "1.prems" show ?thesis by (rule tick_loop_rest)
  next
    case False
    then have ne: "h \<noteq> []" and d: "due now e" by (auto simp: due_def e_def)
    have split: "mset h = add_mset e (mset h1)"
      using vector_heap.pop_split[OF "1.prems"] ne by (simp add: e_def h1_def)
    have ok1: "heap_ok te_expire h1" by (simp add: h1_def heap_pop_ok "1.prems")
    then have ok2: "heap_ok te_expire h2" by (simp add: h2_def heap_push_ok)
    have min: "te_expire e \<le> te_expire x" if "x \<in># mset h1" for x
      using vector_heap.top_ok[OF "1.prems"] ne that split by (auto simp: e_def)
    show ?thesis
    proof (cases "te_cancelled e")
      case True
      have "tick_loop now h ready = tick_loop now h1 ready"
        using False True by (subst tick_loop.simps) (auto simp: e_def h1_def)
      moreover have "tick_spec now h1 ready (tick_loop now h1 ready)"
        using "1.IH"(1) False True ok1 by (simp add: e_def h1_def)
      ultimately show ?thesis
        using True d by (simp add: tick_spec_def split fires_def rearmed_def)
    next
      case nc: False
      have l: "tick_loop now h ready = tick_loop now h2 (ready @ [te_callback e])"
        using False nc by (subst tick_loop.simps) (auto simp: e_def h1_def h2_def Let_def)
      have "tick_spec now h2 (ready @ [te_callback e]) (tick_loop now h2 (ready @ [te_callback e]))"
        using "1.IH"(2) False nc ok2 by (simp add: e_def h1_def h2_def)
      from tick_spec_fire[OF split d nc _ h2_def this] min show ?thesis unfolding l by blast
    qed
  qed
qed

section \<open>Invariant\<close>

definition timer_inv :: "'cb timer \<Rightarrow> bool" where
  "timer_inv t \<longleftrightarrow>
     heap_ok te_expire (theap t) \<and> distinct (map te_id (theap t)) \<and> (\<forall>e \<in> set (theap t). te_id e < next_id t)"

lemma distinct_iff_count: "distinct xs \<longleftrightarrow> (\<forall>a. count (mset xs) a \<le> 1)"
proof -
  have "count (mset xs) a \<le> 1 \<longleftrightarrow> count (mset xs) a = (if a \<in> set xs then 1 else 0)" for a
    by (cases "a \<in> set xs") (simp_all add: le_Suc_eq count_eq_zero_iff)
  then show ?thesis by (simp add: distinct_count_atmost_1)
qed

lemma distinct_submset: "mset xs \<subseteq># mset ys \<Longrightarrow> distinct ys \<Longrightarrow> distinct xs"
  unfolding distinct_iff_count by (meson mset_subset_eq_count order_trans)

lemma tick_ids:
  assumes "tick_spec now h ready r"
  shows "mset (map te_id (snd r)) \<subseteq># mset (map te_id h)"
proof -
  let ?M = "mset h"
  have "image_mset te_id (rearmed now ?M) = image_mset te_id (filter_mset (\<lambda>e. fires now e \<and> 0 < te_interval e) ?M)"
    by (simp add: rearmed_def rearm_def image_mset.compositionality comp_def)
  then have "mset (map te_id (snd r)) =
      image_mset te_id (filter_mset (\<lambda>e. \<not> due now e) ?M + filter_mset (\<lambda>e. fires now e \<and> 0 < te_interval e) ?M)"
    using assms by (auto simp: tick_spec_def)
  also have "\<dots> = image_mset te_id (filter_mset (\<lambda>e. \<not> due now e \<or> fires now e \<and> 0 < te_interval e) ?M)"
    by (rule arg_cong[where f = "image_mset te_id"], rule multiset_eqI) (auto simp: fires_def)
  also have "\<dots> \<subseteq># image_mset te_id ?M" by (intro image_mset_subseteq_mono multiset_filter_subset)
  finally show ?thesis by simp
qed

lemma cancel_first_same [simp]:
  "map te_expire (cancel_first i es) = map te_expire es" "map te_id (cancel_first i es) = map te_id es"
  "length (cancel_first i es) = length es"
  by (induction i es rule: cancel_first.induct) simp_all

lemma heap_ok_map: "map key xs = map key ys \<Longrightarrow> heap_ok key xs = heap_ok key ys"
proof -
  assume m: "map key xs = map key ys"
  then have "length xs = length ys" by (rule map_eq_imp_length_eq)
  moreover have "key (xs ! i) = key (ys ! i)" if "i < length xs" for i
    using that m calculation by (metis nth_map)
  ultimately show ?thesis by (simp add: heap_ok_def heap_edge_def)
qed

lemma inv_new_timer [gw_inv]: "timer_inv new_timer"
  by (simp add: timer_inv_def new_timer_def heap_ok_def)

lemma inv_push:
  assumes "timer_inv t" and "next_id t + 1 < size_mod" and "te_id e = next_id t"
  shows "timer_inv (t\<lparr>next_id := add64 (next_id t) 1, theap := heap_push te_expire e (theap t)\<rparr>)"
proof -
  have m: "mset (map te_id (heap_push te_expire e (theap t))) = mset (map te_id (e # theap t))"
    by simp
  have "distinct (map te_id (e # theap t))" using assms by (auto simp: timer_inv_def)
  then have "distinct (map te_id (heap_push te_expire e (theap t)))"
    using m by (metis distinct_submset subset_mset.order_refl)
  moreover have "set (heap_push te_expire e (theap t)) = insert e (set (theap t))"
    using mset_heap_push[of te_expire e "theap t"] by (metis set_mset_add_mset_insert set_mset_mset)
  ultimately show ?thesis
    using assms by (auto simp: timer_inv_def heap_push_ok)
qed

lemma inv_run_after [gw_inv]:
  "timer_inv t \<Longrightarrow> next_id t + 1 < size_mod \<Longrightarrow> timer_inv (snd (run_after now ms cb t))"
  unfolding run_after_def snd_conv by (rule inv_push) simp_all

lemma inv_run_every [gw_inv]:
  "timer_inv t \<Longrightarrow> next_id t + 1 < size_mod \<Longrightarrow> timer_inv (snd (run_every now ms cb t))"
  unfolding run_every_def snd_conv by (rule inv_push) simp_all

lemma inv_cancel [gw_inv]: "timer_inv t \<Longrightarrow> timer_inv (cancel i t)"
proof -
  assume t: "timer_inv t"
  have "\<forall>e \<in> set (cancel_first i (theap t)). te_id e < next_id t"
    using t cancel_first_same(2)[of i "theap t"] unfolding timer_inv_def by (metis imageE image_eqI list.set_map)
  then show ?thesis
    using t heap_ok_map[OF cancel_first_same(1)[of i "theap t"]] by (simp add: timer_inv_def cancel_def)
qed

lemma inv_tick [gw_inv]: "timer_inv t \<Longrightarrow> timer_inv (snd (tick now t))"
proof -
  assume t: "timer_inv t"
  define r where "r = tick_loop now (theap t) []"
  have s: "tick_spec now (theap t) [] r" using t by (simp add: timer_inv_def tick_loop_ok r_def)
  have sub: "mset (map te_id (snd r)) \<subseteq># mset (map te_id (theap t))" by (rule tick_ids[OF s])
  then have "te_id ` set (snd r) \<subseteq> te_id ` set (theap t)"
    by (metis list.set_map set_mset_mono set_mset_mset)
  moreover have "distinct (map te_id (snd r))" using distinct_submset[OF sub] t by (simp add: timer_inv_def)
  ultimately have "timer_inv (t\<lparr>theap := snd r\<rparr>)"
    using t s by (fastforce simp: timer_inv_def tick_spec_def)
  then show ?thesis by (simp add: tick_def r_def case_prod_beta)
qed

section \<open>Properties\<close>

text \<open>C24: a tick runs exactly the timers that are due and not cancelled, each once and in the order
  of their expiry. Afterwards the heap holds the timers that were not due and the periodic ones
  among those that fired, re-armed for one interval from now; it is again a heap with distinct ids.\<close>

theorem tick_exact:
  assumes "timer_inv t"
  shows "(\<exists>es. fst (tick now t) = map te_callback es
        \<and> mset es = filter_mset (\<lambda>e. te_expire e \<le> now \<and> \<not> te_cancelled e) (mset (theap t))
        \<and> sorted (map te_expire es))
    \<and> mset (theap (snd (tick now t))) =
        filter_mset (\<lambda>e. now < te_expire e) (mset (theap t))
        + image_mset (rearm now)
            (filter_mset (\<lambda>e. te_expire e \<le> now \<and> \<not> te_cancelled e \<and> 0 < te_interval e) (mset (theap t)))
    \<and> timer_inv (snd (tick now t))"
proof -
  define r where "r = tick_loop now (theap t) []"
  have "tick_spec now (theap t) [] r" using assms by (simp add: timer_inv_def tick_loop_ok r_def)
  moreover have "tick now t = (fst r, t\<lparr>theap := snd r\<rparr>)" by (simp add: tick_def r_def case_prod_beta)
  ultimately show ?thesis
    using inv_tick[OF assms, of now]
    by (simp add: tick_spec_def fires_def[abs_def] due_def rearmed_def not_le conj_assoc) blast
qed

definition two_timers :: "nat timer" where
  "two_timers = snd (run_every 0 10 (Some 7) (snd (run_after 0 20 (Some 8) new_timer)))"

lemma two_timers_inv: "timer_inv two_timers"
  unfolding two_timers_def
  by (intro inv_run_every inv_run_after inv_new_timer)
    (simp_all add: new_timer_def run_after_def size_mod_def)

theorem tick_exact_witness:
  "\<exists>es. fst (tick 15000000 two_timers) = map te_callback es
     \<and> mset es = filter_mset (\<lambda>e. te_expire e \<le> 15000000 \<and> \<not> te_cancelled e) (mset (theap two_timers))
     \<and> sorted (map te_expire es)"
  using tick_exact[OF two_timers_inv, of 15000000] by blast

text \<open>a cancelled timer never fires: after \<^verbatim>\<open>cancel(id)\<close> no later tick runs a callback of that
  timer.\<close>

theorem cancelled_never_fires:
  assumes "timer_inv t"
  shows "\<exists>es. fst (tick now (cancel i t)) = map te_callback es
    \<and> set es \<subseteq> set (theap (cancel i t)) \<and> i \<notin> te_id ` set es"
proof -
  have d: "distinct (map te_id (theap t))" using assms by (simp add: timer_inv_def)
  have c: "te_cancelled e" if "e \<in> set (cancel_first i h)" "te_id e = i" "distinct (map te_id h)" for e h
    using that by (induction i h rule: cancel_first.induct) (auto split: if_splits)
  obtain es where es: "fst (tick now (cancel i t)) = map te_callback es"
    "mset es = filter_mset (fires now) (mset (theap (cancel i t)))"
    using tick_loop_ok[of "theap (cancel i t)" now "[]"] inv_cancel[OF assms, of i]
    by (auto simp: tick_def timer_inv_def tick_spec_def case_prod_beta)
  have s: "set es = {e \<in> set (theap (cancel i t)). fires now e}"
    using es(2) by (metis set_mset_filter set_mset_mset)
  with es(1) c[OF _ _ d] show ?thesis by (intro exI[of _ es]) (auto simp: fires_def cancel_def)
qed

theorem cancelled_never_fires_witness:
  "\<exists>es. fst (tick 50000000 (cancel 2 two_timers)) = map te_callback es
    \<and> set es \<subseteq> set (theap (cancel 2 two_timers)) \<and> 2 \<notin> te_id ` set es"
  by (rule cancelled_never_fires[OF two_timers_inv])

text \<open>while the front of the heap is a live timer, the timeout handed to \<^verbatim>\<open>epoll_wait\<close> is the
  time that remains to the earliest timer, zero when it is overdue.\<close>

theorem next_timeout_front:
  assumes "timer_inv t" and "theap t \<noteq> []" and "\<not> te_cancelled (hd (theap t))"
  shows "next_timeout_ms now t = remaining_ms now (hd (theap t))
    \<and> (\<forall>e \<in> set (theap t). te_expire (hd (theap t)) \<le> te_expire e)"
proof -
  have "List.find (\<lambda>e. \<not> te_cancelled e) (theap t) = Some (hd (theap t))"
    using assms(2,3) by (cases "theap t") simp_all
  moreover have "\<forall>e \<in># mset (theap t). te_expire (hd (theap t)) \<le> te_expire e"
    using vector_heap.top_ok[of te_expire "theap t"] assms(1,2) by (simp add: timer_inv_def)
  ultimately show ?thesis by (simp add: next_timeout_ms_def)
qed

lemma two_timers_heap:
  "theap two_timers =
     [\<lparr>te_id = 2, te_expire = 10000000, te_interval = 10, te_callback = Some 7, te_cancelled = False\<rparr>,
      \<lparr>te_id = 1, te_expire = 20000000, te_interval = 0, te_callback = Some 8, te_cancelled = False\<rparr>]"
  by (simp add: two_timers_def new_timer_def run_after_def run_every_def heap_push_def ms_to_ns_def
      sift_up.simps heap_parent_def size_mod_def)

theorem next_timeout_front_witness: "next_timeout_ms 4000000 two_timers = 6"
  using next_timeout_front[OF two_timers_inv, of 4000000]
  by (simp add: two_timers_heap remaining_ms_def)

text \<open>when the front has been cancelled the reported timeout may be later than the earliest live
  timer, because the search goes through the array in storage order: here a timer due in 50 ms is
  reported as due in 100 ms.\<close>

theorem next_timeout_overshoots:
  "\<exists>t :: nat timer. timer_inv t \<and> next_timeout_ms 0 t = 100
     \<and> (\<exists>e \<in> set (theap t). \<not> te_cancelled e \<and> remaining_ms 0 e = 50)"
proof -
  define t1 :: "nat timer" where "t1 = snd (run_after 0 10 (Some 1) new_timer)"
  define t2 where "t2 = snd (run_after 0 100 (Some 2) t1)"
  define t3 where "t3 = snd (run_after 0 50 (Some 3) t2)"
  note runs = t1_def t2_def t3_def new_timer_def run_after_def size_mod_def
  have "timer_inv t1" unfolding t1_def
    by (intro inv_run_after inv_new_timer) (simp add: new_timer_def size_mod_def)
  then have "timer_inv t2" unfolding t2_def by (rule inv_run_after) (simp add: runs)
  then have "timer_inv t3" unfolding t3_def by (rule inv_run_after) (simp add: runs)
  moreover have "theap (cancel 1 t3) =
    [\<lparr>te_id = 1, te_expire = 10000000, te_interval = 0, te_callback = None, te_cancelled = True\<rparr>,
     \<lparr>te_id = 2, te_expire = 100000000, te_interval = 0, te_callback = Some 2, te_cancelled = False\<rparr>,
     \<lparr>te_id = 3, te_expire = 50000000, te_interval = 0, te_callback = Some 3, te_cancelled = False\<rparr>]"
    by (simp add: runs cancel_def heap_push_def ms_to_ns_def sift_up.simps heap_parent_def)
  ultimately show ?thesis
    by (intro exI[of _ "cancel 1 t3"]) (simp add: inv_cancel next_timeout_ms_def remaining_ms_def)
qed

end
