(* ===== verification/Gw_Load_Balancer.thy ===== *)
theory Gw_Load_Balancer
  imports Gw_Config
begin

text \<open>
  The load balancer of \<^verbatim>\<open>src/src/proxy/load_balancer.cpp\<close>. The random generator is an argument:
  \<open>pick n\<close> is the number \<^verbatim>\<open>uniform_int_distribution(0, n)\<close> draws. The connection counts are a total
  function, since \<^verbatim>\<open>operator[]\<close> of the map inserts zero for an unknown key. Each atomic or
  mutex-protected call is one step.
\<close>

section \<open>Model\<close>

datatype lb_algorithm = LB_RoundRobin | LB_Random | LB_LeastConnections

record load_balancer =
  lb_algo :: lb_algorithm
  rr_counter :: nat
  conn_counts :: "string \<Rightarrow> nat"

definition new_load_balancer :: "lb_algorithm \<Rightarrow> load_balancer" where
  "new_load_balancer algo = \<lparr>lb_algo = algo, rr_counter = 0, conn_counts = (\<lambda>_. 0)\<rparr>"

definition no_backend :: backend where
  "no_backend = \<lparr>be_host = [], be_port = 0\<rparr>"

definition select_roundRobin :: "backend list \<Rightarrow> load_balancer \<Rightarrow> backend \<times> load_balancer" where
  "select_roundRobin bs lb =
     (bs ! (rr_counter lb mod length bs), lb\<lparr>rr_counter := add64 (rr_counter lb) 1\<rparr>)"

definition select_random :: "(nat \<Rightarrow> nat) \<Rightarrow> backend list \<Rightarrow> backend" where
  "select_random pick bs = bs ! pick (length bs - 1)"

text \<open>The counts are \<^verbatim>\<open>size_t\<close> values that the comparison narrows to \<^verbatim>\<open>int\<close>.\<close>

definition narrow_int :: "nat \<Rightarrow> int" where
  "narrow_int n = (let m = int n mod 2 ^ 32 in if m < 2 ^ 31 then m else m - 2 ^ 32)"

fun least_loop :: "(string \<Rightarrow> nat) \<Rightarrow> backend \<Rightarrow> int \<Rightarrow> backend list \<Rightarrow> backend" where
  "least_loop counts best min_conn [] = best"
| "least_loop counts best min_conn (b # bs) =
     (let count = narrow_int (counts (make_key b)) in
      if count < min_conn then least_loop counts b count bs
      else least_loop counts best min_conn bs)"

definition select_leastConnections :: "backend list \<Rightarrow> load_balancer \<Rightarrow> backend \<times> load_balancer" where
  "select_leastConnections bs lb =
     (let counts = conn_counts lb;
          best = least_loop counts (hd bs) (narrow_int (counts (make_key (hd bs)))) (tl bs);
          k = make_key best
      in (best, lb\<lparr>conn_counts := counts(k := add64 (counts k) 1)\<rparr>))"

definition lb_select :: "(nat \<Rightarrow> nat) \<Rightarrow> backend list \<Rightarrow> load_balancer \<Rightarrow> backend \<times> load_balancer" where
  "lb_select pick bs lb =
     (if bs = [] then (no_backend, lb)
      else if length bs = 1 then (hd bs, lb)
      else
        (case lb_algo lb of
           LB_RoundRobin \<Rightarrow> select_roundRobin bs lb
         | LB_Random \<Rightarrow> (select_random pick bs, lb)
         | LB_LeastConnections \<Rightarrow> select_leastConnections bs lb))"

definition on_connect :: "backend \<Rightarrow> load_balancer \<Rightarrow> load_balancer" where
  "on_connect b lb =
     (let k = make_key b in
      lb\<lparr>conn_counts := (conn_counts lb)(k := add64 (conn_counts lb k) 1)\<rparr>)"

definition on_disconnect :: "backend \<Rightarrow> load_balancer \<Rightarrow> load_balancer" where
  "on_disconnect b lb =
     (let k = make_key b in
      if 0 < conn_counts lb k
      then lb\<lparr>conn_counts := (conn_counts lb)(k := conn_counts lb k - 1)\<rparr>
      else lb)"

section \<open>Auxiliary runs\<close>

text \<open>The backends that \<open>n\<close> consecutive calls of \<^verbatim>\<open>select\<close> return.\<close>

fun selections :: "nat \<Rightarrow> (nat \<Rightarrow> nat) \<Rightarrow> backend list \<Rightarrow> load_balancer \<Rightarrow> backend list" where
  "selections 0 pick bs lb = []"
| "selections (Suc n) pick bs lb =
     (case lb_select pick bs lb of (b, lb') \<Rightarrow> b # selections n pick bs lb')"

text \<open>What the gateway does with the balancer for one forwarded request.\<close>

definition request_cycle :: "(nat \<Rightarrow> nat) \<Rightarrow> backend list \<Rightarrow> load_balancer \<Rightarrow> load_balancer" where
  "request_cycle pick bs lb =
     (case lb_select pick bs lb of (b, lb') \<Rightarrow> on_disconnect b (on_connect b lb'))"

section \<open>Lemmas\<close>

lemma narrow_small [simp]: "n < 2 ^ 31 \<Longrightarrow> narrow_int n = int n"
  by (simp add: narrow_int_def Let_def)

lemma least_loop_in: "least_loop counts best m bs \<in> insert best (set bs)"
  by (induction counts best m bs rule: least_loop.induct) (auto simp: Let_def)

lemma least_loop_min:
  assumes "m = narrow_int (counts (make_key best))"
  shows "\<forall>b \<in> insert best (set bs).
    narrow_int (counts (make_key (least_loop counts best m bs))) \<le> narrow_int (counts (make_key b))"
  using assms
proof (induction counts best m bs rule: least_loop.induct)
  case (2 counts best m b bs)
  show ?case
  proof (cases "narrow_int (counts (make_key b)) < m")
    case True
    with "2.IH"(1)[OF refl True refl] "2.prems" show ?thesis by (auto simp: Let_def)
  next
    case False
    with "2.IH"(2)[OF refl False "2.prems"] "2.prems" show ?thesis by (auto simp: Let_def)
  qed
qed simp

lemma hd_tl_set: "bs \<noteq> [] \<Longrightarrow> insert (hd bs) (set (tl bs)) = set bs"
  by (cases bs) auto

lemma lb_select_mem:
  assumes "bs \<noteq> []" and "\<forall>n. pick n \<le> n"
  shows "fst (lb_select pick bs lb) \<in> set bs"
proof -
  have "pick (length bs - 1) < length bs"
    using assms(2)[rule_format, of "length bs - 1"] assms(1) by (cases bs) auto
  moreover have "rr_counter lb mod length bs < length bs" using assms(1) by simp
  moreover have "least_loop counts (hd bs) m (tl bs) \<in> set bs" for counts m
    using least_loop_in[of counts "hd bs" m "tl bs"] assms(1) by (simp add: hd_tl_set)
  ultimately show ?thesis
    using assms(1)
    by (auto simp: lb_select_def select_roundRobin_def select_random_def select_leastConnections_def
        Let_def split: lb_algorithm.split)
qed

lemma rr_selections:
  assumes "lb_algo lb = LB_RoundRobin" and "2 \<le> length bs" and "rr_counter lb + n \<le> size_mod"
  shows "selections n pick bs lb = map (\<lambda>i. bs ! (i mod length bs)) [rr_counter lb ..< rr_counter lb + n]"
  using assms
proof (induction n arbitrary: lb)
  case (Suc n)
  define c where "c = rr_counter lb"
  have nw: "c < size_mod" using Suc.prems(3) by (simp add: c_def)
  have s: "lb_select pick bs lb = (bs ! (c mod length bs), lb\<lparr>rr_counter := add64 c 1\<rparr>)"
    using Suc.prems by (auto simp: lb_select_def select_roundRobin_def c_def)
  have r: "[c ..< c + Suc n] = c # [Suc c ..< c + Suc n]" by (simp add: upt_conv_Cons)
  show ?case
  proof (cases "n = 0")
    case True
    then show ?thesis using s r by (simp add: c_def)
  next
    case False
    then have "add64 c 1 = Suc c" using Suc.prems(3) by (simp add: c_def)
    then show ?thesis
      using Suc.IH[of "lb\<lparr>rr_counter := Suc c\<rparr>"] Suc.prems s r by (simp add: c_def)
  qed
qed simp

lemma mset_rotation: "n = length xs \<Longrightarrow> mset (map (\<lambda>i. xs ! (i mod n)) [c ..< c + n]) = mset xs"
proof (induction c)
  case 0
  then have "map (\<lambda>i. xs ! (i mod n)) [0 ..< n] = xs"
    by (intro nth_equalityI) simp_all
  then show ?case by simp
next
  case (Suc c)
  show ?case
  proof (cases "n = 0")
    case False
    let ?f = "\<lambda>i. xs ! (i mod n)"
    have a: "[c ..< c + n] = c # [Suc c ..< c + n]" using False by (simp add: upt_conv_Cons)
    have b: "[Suc c ..< Suc c + n] = [Suc c ..< c + n] @ [c + n]" using False by simp
    have "mset (map ?f [Suc c ..< Suc c + n]) = mset (map ?f [Suc c ..< c + n]) + {#?f (c + n)#}"
      unfolding b by simp
    also have "?f (c + n) = ?f c" by simp
    also have "mset (map ?f [Suc c ..< c + n]) + {#?f c#} = mset (map ?f [c ..< c + n])"
      unfolding a by simp
    finally show ?thesis using Suc by simp
  qed (use Suc in simp)
qed

section \<open>Properties\<close>

text \<open>whatever the algorithm, a non-empty list yields one of its backends, and an empty list
  yields the empty backend.\<close>

theorem lb_select_sound:
  assumes "\<forall>n. pick n \<le> n"
  shows "(bs \<noteq> [] \<longrightarrow> fst (lb_select pick bs lb) \<in> set bs)
    \<and> (bs = [] \<longrightarrow> lb_select pick bs lb = (no_backend, lb))"
  using lb_select_mem[OF _ assms] by (simp add: lb_select_def)

theorem lb_select_sound_witness:
  "fst (lb_select (\<lambda>n. n) [\<lparr>be_host = ''a'', be_port = 1\<rparr>, \<lparr>be_host = ''b'', be_port = 2\<rparr>]
     (new_load_balancer LB_Random)) \<in> {\<lparr>be_host = ''a'', be_port = 1\<rparr>, \<lparr>be_host = ''b'', be_port = 2\<rparr>}"
  using lb_select_sound[of "\<lambda>n. n" "[\<lparr>be_host = ''a'', be_port = 1\<rparr>, \<lparr>be_host = ''b'', be_port = 2\<rparr>]"
      "new_load_balancer LB_Random"] by simp

text \<open>C32: round robin is fair. From any counter value, as long as the 64-bit counter does not wrap,
  as many consecutive selections as there are backends return each backend exactly once.\<close>

theorem round_robin_fair:
  assumes "lb_algo lb = LB_RoundRobin" and "2 \<le> length bs" and "rr_counter lb + length bs \<le> size_mod"
  shows "mset (selections (length bs) pick bs lb) = mset bs"
  unfolding rr_selections[OF assms] by (rule mset_rotation) simp

definition three_backends :: "backend list" where
  "three_backends = [\<lparr>be_host = ''a'', be_port = 1\<rparr>, \<lparr>be_host = ''b'', be_port = 2\<rparr>,
     \<lparr>be_host = ''c'', be_port = 3\<rparr>]"

theorem round_robin_fair_witness:
  "mset (selections (length three_backends) (\<lambda>n. n) three_backends
     ((new_load_balancer LB_RoundRobin)\<lparr>rr_counter := 7\<rparr>)) = mset three_backends"
  by (rule round_robin_fair) (simp_all add: new_load_balancer_def size_mod_def three_backends_def)

text \<open>least connections picks a backend with the smallest count.\<close>

theorem least_connections_minimal:
  assumes "lb_algo lb = LB_LeastConnections" and "2 \<le> length bs"
    and "\<forall>b \<in> set bs. conn_counts lb (make_key b) < 2 ^ 31"
  shows "\<forall>b \<in> set bs. conn_counts lb (make_key (fst (lb_select pick bs lb))) \<le> conn_counts lb (make_key b)"
proof
  fix b assume b: "b \<in> set bs"
  define best where "best = least_loop (conn_counts lb) (hd bs) (narrow_int (conn_counts lb (make_key (hd bs)))) (tl bs)"
  have ne: "bs \<noteq> []" using assms(2) by auto
  have f: "fst (lb_select pick bs lb) = best"
  proof -
    have "length bs \<noteq> 1" using assms(2) by simp
    with ne assms(1) show ?thesis
      by (simp add: lb_select_def select_leastConnections_def Let_def best_def)
  qed
  have "best \<in> set bs"
    unfolding best_def hd_tl_set[OF ne, symmetric] by (rule least_loop_in)
  moreover have "narrow_int (conn_counts lb (make_key best)) \<le> narrow_int (conn_counts lb (make_key b))"
    using least_loop_min[OF refl, where counts = "conn_counts lb" and best = "hd bs" and bs = "tl bs"] b unfolding hd_tl_set[OF ne] best_def by blast
  ultimately show "conn_counts lb (make_key (fst (lb_select pick bs lb))) \<le> conn_counts lb (make_key b)"
    using assms(3) b by (simp add: f)
qed

definition two_backends :: "backend list" where
  "two_backends = [\<lparr>be_host = ''a'', be_port = 1\<rparr>, \<lparr>be_host = ''b'', be_port = 2\<rparr>]"

theorem least_connections_minimal_witness:
  "conn_counts (on_connect (hd two_backends) (new_load_balancer LB_LeastConnections))
     (make_key (fst (lb_select (\<lambda>n. n) two_backends
        (on_connect (hd two_backends) (new_load_balancer LB_LeastConnections))))) = 0"
  using least_connections_minimal[of "on_connect (hd two_backends) (new_load_balancer LB_LeastConnections)" two_backends "\<lambda>n. n"]
  by (simp add: two_backends_def new_load_balancer_def on_connect_def make_key_inject Let_def size_mod_def add64_def)

text \<open>one forwarded request (select, connect, disconnect) in least-connections mode leaves the
  count of the chosen backend one higher than before, because both \<^verbatim>\<open>select\<close> and \<^verbatim>\<open>on_connect\<close>
  count the request and only \<^verbatim>\<open>on_disconnect\<close> takes it back. The other counts are unchanged. So the
  counts never return to zero: they measure requests served, not open connections.\<close>

theorem least_connections_leak:
  assumes "lb_algo lb = LB_LeastConnections" and "2 \<le> length bs"
    and "\<forall>k. conn_counts lb k + 2 < size_mod"
  shows "conn_counts (request_cycle pick bs lb) =
    (conn_counts lb)(make_key (fst (lb_select pick bs lb)) :=
       conn_counts lb (make_key (fst (lb_select pick bs lb))) + 1)"
proof -
  obtain b where b: "lb_select pick bs lb =
      (b, lb\<lparr>conn_counts := (conn_counts lb)(make_key b := add64 (conn_counts lb (make_key b)) 1)\<rparr>)"
    using assms(1,2) by (fastforce simp: lb_select_def select_leastConnections_def Let_def)
  have "conn_counts lb (make_key b) + 2 < size_mod" using assms(3) by blast
  then show ?thesis
    by (simp add: request_cycle_def b on_connect_def on_disconnect_def Let_def)
qed

theorem least_connections_leak_witness:
  "conn_counts (request_cycle (\<lambda>n. n) [\<lparr>be_host = ''a'', be_port = 1\<rparr>, \<lparr>be_host = ''b'', be_port = 2\<rparr>]
     (new_load_balancer LB_LeastConnections)) (make_key \<lparr>be_host = ''a'', be_port = 1\<rparr>) = 1"
proof -
  let ?bs = "[\<lparr>be_host = ''a'', be_port = 1\<rparr>, \<lparr>be_host = ''b'', be_port = 2\<rparr>]"
  let ?lb = "new_load_balancer LB_LeastConnections"
  have "fst (lb_select (\<lambda>n. n) ?bs ?lb) = \<lparr>be_host = ''a'', be_port = 1\<rparr>"
    by (simp add: lb_select_def select_leastConnections_def new_load_balancer_def Let_def)
  then show ?thesis
    using least_connections_leak[of ?lb ?bs "\<lambda>n. n"] by (simp add: new_load_balancer_def size_mod_def)
qed

end
