(* ===== verification/Gw_Double.thy ===== *)
theory Gw_Double
  imports Complex_Main "HOL-Library.Log_Nat"
begin

text \<open>
  The \<^verbatim>\<open>double\<close> of the C++ sources: IEEE binary64 with rounding to nearest, ties to even, which every
  arithmetic operation and every conversion from an integer type applies to its exact result. A
  value is the rational number it stands for. The sources compute with finite values far from the
  limits of the exponent (token counts and nanoseconds), so the model leaves the exponent unbounded:
  it has 53 significant bits, and no infinities, NaNs or subnormal numbers.
\<close>

section \<open>Rounding\<close>

definition round_even :: "rat \<Rightarrow> int" where
  "round_even y =
     (let f = \<lfloor>y\<rfloor>; d = y - of_int f in
      if d < 1 / 2 \<or> d = 1 / 2 \<and> even f then f else f + 1)"

text \<open>The exponent of a positive number: \<open>2 ^ e \<le> x < 2 ^ (e + 1)\<close>.\<close>

definition exponent :: "rat \<Rightarrow> int" where
  "exponent x =
     (case quotient_of x of (p, q) \<Rightarrow>
        let e = bitlen p - bitlen q in if power_int 2 e \<le> x then e else e - 1)"

definition dbl :: "rat \<Rightarrow> rat" where
  "dbl x =
     (if x = 0 then 0
      else let e = exponent \<bar>x\<bar> - 52 in of_int (round_even (x * power_int 2 (- e))) * power_int 2 e)"

definition ulp_bound :: rat where "ulp_bound = 1 / 2 ^ 53"

section \<open>Error bounds\<close>

lemma round_even_error: "\<bar>of_int (round_even y) - y\<bar> \<le> 1 / 2"
proof -
  define d where "d = y - of_int \<lfloor>y\<rfloor>"
  have "0 \<le> d" "d < 1" unfolding d_def by linarith+
  then have "d < 1 / 2 \<or> d = 1 / 2 \<and> even \<lfloor>y\<rfloor> \<Longrightarrow> \<bar>- d\<bar> \<le> 1 / 2"
    "\<not> (d < 1 / 2 \<or> d = 1 / 2 \<and> even \<lfloor>y\<rfloor>) \<Longrightarrow> \<bar>1 - d\<bar> \<le> 1 / 2" by auto
  moreover have "of_int \<lfloor>y\<rfloor> - y = - d" "of_int (\<lfloor>y\<rfloor> + 1) - y = 1 - d" by (simp_all add: d_def)
  ultimately show ?thesis unfolding round_even_def Let_def by (simp only: flip: d_def split: if_split) blast
qed

lemma round_even_int [simp]: "round_even (of_int n) = n"
  by (simp add: round_even_def)

lemma exponent_lower:
  assumes "0 < x"
  shows "power_int 2 (exponent x) \<le> x"
proof -
  obtain p q where pq: "quotient_of x = (p, q)" by fastforce
  define e where "e = bitlen p - bitlen q"
  have q: "0 < q" using quotient_of_denom_pos[OF pq] .
  have x: "x = of_int p / of_int q" using quotient_of_div[OF pq] .
  have p: "0 < p" using assms q x by (simp add: zero_less_divide_iff)
  have bp: "2 ^ nat (bitlen p - 1) \<le> p" and bq: "q < 2 ^ nat (bitlen q)"
    using bitlen_bounds[OF p] bitlen_bounds[OF q] by simp_all
  have "0 < bitlen n" if "0 < n" for n
    using bitlen_bounds[OF that] that by (cases "bitlen n \<le> 0") simp_all
  then have pos: "0 < bitlen p" "0 < bitlen q" using p q by simp_all
  have "power_int 2 (e - 1) \<le> x"
  proof -
    have "power_int (2 :: rat) (e - 1) = power_int 2 (bitlen p - 1) / power_int 2 (bitlen q)"
      by (simp add: e_def algebra_simps flip: power_int_diff)
    also have "\<dots> = 2 ^ nat (bitlen p - 1) / 2 ^ nat (bitlen q)" using pos by (simp add: power_int_def)
    also have "\<dots> \<le> of_int p / of_int q"
    proof (rule frac_le)
      show "(2 :: rat) ^ nat (bitlen p - 1) \<le> of_int p"
        using bp by (metis of_int_le_iff of_int_numeral of_int_power)
      show "of_int q \<le> (2 :: rat) ^ nat (bitlen q)"
        using bq by (metis of_int_le_iff of_int_numeral of_int_power less_imp_le)
    qed (use p q in auto)
    finally show ?thesis by (simp add: x)
  qed
  then show ?thesis by (simp add: exponent_def pq flip: e_def)
qed

lemma dbl_error: "\<bar>dbl x - x\<bar> \<le> \<bar>x\<bar> * ulp_bound"
proof (cases "x = 0")
  case False
  define e where "e = exponent \<bar>x\<bar> - 52"
  have P: "0 < power_int (2 :: rat) e" by simp
  have inv: "power_int (2 :: rat) (- e) * power_int 2 e = 1"
    by (simp flip: power_int_add)
  define y where "y = x * power_int 2 (- e)"
  have x: "x = y * power_int 2 e" by (simp add: y_def mult.assoc inv)
  have "dbl x = of_int (round_even y) * power_int 2 e"
    using False by (simp add: dbl_def Let_def e_def y_def)
  then have "dbl x - x = (of_int (round_even y) - y) * power_int 2 e"
    by (subst x) (simp add: left_diff_distrib)
  then have "\<bar>dbl x - x\<bar> = \<bar>of_int (round_even y) - y\<bar> * power_int 2 e"
    by (simp add: abs_mult)
  also have "\<dots> \<le> 1 / 2 * power_int 2 e"
    using round_even_error[of y] P by (intro mult_right_mono) simp_all
  also have "\<dots> = power_int 2 (exponent \<bar>x\<bar>) * ulp_bound"
    by (simp add: e_def power_int_diff ulp_bound_def)
  also have "\<dots> \<le> \<bar>x\<bar> * ulp_bound"
    using exponent_lower[of "\<bar>x\<bar>"] False by (intro mult_right_mono) (simp_all add: ulp_bound_def)
  finally show ?thesis .
qed (simp add: dbl_def)

lemma dbl_bounds:
  assumes "0 \<le> x"
  shows "x * (1 - ulp_bound) \<le> dbl x" and "dbl x \<le> x * (1 + ulp_bound)"
  using dbl_error[of x] assms by (auto simp: algebra_simps abs_le_iff)

lemma dbl_nonneg: "0 \<le> x \<Longrightarrow> 0 \<le> dbl x"
  by (rule order_trans[OF _ dbl_bounds(1)]) (simp_all add: ulp_bound_def)

lemma dbl_zero [simp]: "dbl 0 = 0"
  by (simp add: dbl_def)

text \<open>Integers of up to 53 bits are represented exactly.\<close>

lemma dbl_of_int:
  assumes "\<bar>n\<bar> < 2 ^ 53"
  shows "dbl (of_int n) = of_int n"
proof (cases "n = 0")
  case False
  define e where "e = exponent \<bar>of_int n\<bar> - 52"
  have "power_int 2 (exponent \<bar>of_int n\<bar>) \<le> (\<bar>of_int n\<bar> :: rat)" using False by (intro exponent_lower) simp
  also have "\<dots> < power_int 2 53"
  proof -
    have "(of_int \<bar>n\<bar> :: rat) < of_int (2 ^ 53)" using assms by (simp only: of_int_less_iff)
    then show ?thesis by simp
  qed
  finally have "power_int (2 :: rat) (exponent \<bar>of_int n\<bar>) < power_int 2 53" .
  then have "exponent \<bar>of_int n :: rat\<bar> < 53"
    using power_int_increasing[of 53 "exponent \<bar>of_int n :: rat\<bar>" "2 :: rat"] by linarith
  then have "e \<le> 0" by (simp add: e_def)
  then have "power_int (2 :: rat) (- e) = of_int (2 ^ nat (- e))" by (simp add: power_int_def)
  then have y: "of_int n * power_int (2 :: rat) (- e) = of_int (n * 2 ^ nat (- e))" by simp
  have "dbl (of_int n) = of_int (round_even (of_int n * power_int 2 (- e))) * power_int 2 e"
    using False by (simp add: dbl_def Let_def e_def)
  also have "\<dots> = of_int n * power_int 2 (- e) * power_int 2 e" unfolding y by (simp only: round_even_int)
  also have "\<dots> = of_int n" by (simp add: mult.assoc flip: power_int_add)
  finally show ?thesis .
qed simp

text \<open>The neighbours of one tenth and of \<open>2 ^ 53 + 1\<close>.\<close>

lemma dbl_samples:
  "dbl (1 / 10) = 3602879701896397 / 36028797018963968"
  "dbl (2 ^ 53 + 1) = 2 ^ 53" "dbl (2 ^ 53 + 3) = 2 ^ 53 + 4"
  by code_simp+

end
