(* ===== verification/Gw_Filters.thy ===== *)
theory Gw_Filters
  imports Gw_Http Gw_Response Gw_Double
begin

text \<open>
  The filter chain: \<^verbatim>\<open>src/include/gateway/filter/filter.h\<close>, the logging, request-id and rate-limit
  filters under \<^verbatim>\<open>src/src/filter/\<close>, and the way \<^verbatim>\<open>Gateway::process_request\<close> runs them. The clocks
  and the random generator are arguments. The token bucket computes with \<^verbatim>\<open>double\<close>,
  every operation rounded by \<open>dbl\<close>. \<^verbatim>\<open>std::unordered_map\<close> is an association list with one entry per key, kept in key
  order since nothing depends on its order.
\<close>

section \<open>Context\<close>

record filter_ctx =
  ctx_req :: "http_request option"
  ctx_resp :: "http_response option"
  ctx_request_id :: bytes
  ctx_start_time :: int

definition filter_ctx_init :: filter_ctx where
  "filter_ctx_init = \<lparr>ctx_req = None, ctx_resp = None, ctx_request_id = [], ctx_start_time = 0\<rparr>"

text \<open>What a filter reads from its surroundings: \<^verbatim>\<open>time()\<close> in seconds, the steady clock in
  nanoseconds, and the draws of \<^verbatim>\<open>uniform_int_distribution<int>(0, 15)\<close>.\<close>

record filter_env =
  env_time :: int
  env_now :: int
  env_draw :: "nat \<Rightarrow> nat"

section \<open>Request ids\<close>

definition hex_char :: "nat \<Rightarrow> char" where
  "hex_char d = (if d < 10 then digit_char d else char_of (87 + d))"

definition generate_id :: "(nat \<Rightarrow> nat) \<Rightarrow> bytes" where
  "generate_id draw = map (\<lambda>i. hex_char (draw i)) [0..<8]"

definition request_id_on_request :: "filter_env \<Rightarrow> filter_ctx \<Rightarrow> filter_ctx" where
  "request_id_on_request env ctx =
     ctx\<lparr>ctx_request_id :=
       (case map_of (req_headers (the (ctx_req ctx))) ''x-request-id'' of
          Some v \<Rightarrow> v
        | None \<Rightarrow> generate_id (env_draw env))\<rparr>"

definition request_id_on_response :: "filter_ctx \<Rightarrow> filter_ctx" where
  "request_id_on_response ctx =
     (case ctx_resp ctx of
        None \<Rightarrow> ctx
      | Some r \<Rightarrow>
          ctx\<lparr>ctx_resp := Some (r\<lparr>resp_headers := smap_put ''X-Request-Id'' (ctx_request_id ctx) (resp_headers r)\<rparr>)\<rparr>)"

section \<open>Logging\<close>

text \<open>\<^verbatim>\<open>c_str()\<close> printed with \<^verbatim>\<open>%s\<close> stops at the first null byte.\<close>

definition c_str :: "bytes \<Rightarrow> bytes" where
  "c_str s = takeWhile (\<lambda>c. c \<noteq> CHR 0x00) s"

definition logging_on_request :: "filter_env \<Rightarrow> filter_ctx \<Rightarrow> bytes \<times> filter_ctx" where
  "logging_on_request env ctx =
     (let req = the (ctx_req ctx) in
      (c_str (ctx_request_id ctx) @ '' -> '' @ c_str (req_method req) @ '' '' @ c_str (req_path req),
       ctx\<lparr>ctx_start_time := env_time env\<rparr>))"

definition logging_on_response :: "filter_env \<Rightarrow> filter_ctx \<Rightarrow> bytes" where
  "logging_on_response env ctx =
     (let req = the (ctx_req ctx);
          elapsed = env_time env - ctx_start_time ctx;
          status = (case ctx_resp ctx of None \<Rightarrow> 0 | Some r \<Rightarrow> status_code r)
      in c_str (ctx_request_id ctx) @ '' <- '' @ c_str (req_method req) @ '' '' @ c_str (req_path req)
         @ '' '' @ show_int status @ '' ('' @ show_int elapsed @ ''.0s)'')"

section \<open>Rate limiting\<close>

record token_bucket =
  tb_tokens :: rat
  tb_last_fill :: int

record rate_limiter =
  rl_rate :: int
  rl_burst :: int
  rl_token_per_ns :: rat
  rl_buckets :: "token_bucket smap"
  rl_extractor :: "(filter_ctx \<Rightarrow> bytes) option"

definition blank :: "char \<Rightarrow> bool" where
  "blank c \<longleftrightarrow> c = CHR '' '' \<or> c = TAB"

definition trim_blanks :: "bytes \<Rightarrow> bytes" where
  "trim_blanks ip =
     (if list_all blank ip then ip
      else rev (dropWhile blank (rev (dropWhile blank ip))))"

definition extract_client_ip :: "filter_ctx \<Rightarrow> bytes" where
  "extract_client_ip ctx =
     (case ctx_req ctx of
        None \<Rightarrow> []
      | Some req \<Rightarrow>
          (case map_of (req_headers req) ''x-forwarded-for'' of
             Some v \<Rightarrow>
               trim_blanks (case find_char (CHR '','') v of Some comma \<Rightarrow> take comma v | None \<Rightarrow> v)
           | None \<Rightarrow>
               (case map_of (req_headers req) ''x-real-ip'' of Some v \<Rightarrow> v | None \<Rightarrow> [])))"

definition new_rate_limiter :: "int \<Rightarrow> int \<Rightarrow> rate_limiter" where
  "new_rate_limiter rate burst =
     \<lparr>rl_rate = rate, rl_burst = burst, rl_token_per_ns = dbl (dbl (of_int rate) / 1000000000), rl_buckets = [], rl_extractor = Some extract_client_ip\<rparr>"

definition set_key_extractor :: "(filter_ctx \<Rightarrow> bytes) option \<Rightarrow> rate_limiter \<Rightarrow> rate_limiter" where
  "set_key_extractor f rl = rl\<lparr>rl_extractor := f\<rparr>"

text \<open>The refilling of a bucket; \<open>now\<close> is the steady clock, so the difference is a 64-bit count of
  nanoseconds.\<close>

definition refill :: "int \<Rightarrow> rate_limiter \<Rightarrow> token_bucket \<Rightarrow> token_bucket" where
  "refill now rl b =
     (let elapsed_ns = dbl (of_int (now - tb_last_fill b));
          t = dbl (tb_tokens b + dbl (elapsed_ns * rl_token_per_ns rl))
      in \<lparr>tb_tokens = (if dbl (of_int (rl_burst rl)) < t then dbl (of_int (rl_burst rl)) else t),
          tb_last_fill = now\<rparr>)"

text \<open>The critical section of \<^verbatim>\<open>on_request\<close> for a known key.\<close>

definition take_token :: "int \<Rightarrow> bytes \<Rightarrow> rate_limiter \<Rightarrow> bool \<times> rate_limiter" where
  "take_token now key rl =
     (let b0 = (case map_of (rl_buckets rl) key of
                  Some b \<Rightarrow> b
                | None \<Rightarrow> \<lparr>tb_tokens = dbl (of_int (rl_burst rl)), tb_last_fill = now\<rparr>);
          b1 = refill now rl b0
      in if 1 \<le> tb_tokens b1
         then (True, rl\<lparr>rl_buckets := smap_put key (b1\<lparr>tb_tokens := dbl (tb_tokens b1 - 1)\<rparr>) (rl_buckets rl)\<rparr>)
         else (False, rl\<lparr>rl_buckets := smap_put key b1 (rl_buckets rl)\<rparr>))"

definition rate_limit_on_request :: "filter_env \<Rightarrow> filter_ctx \<Rightarrow> rate_limiter \<Rightarrow> bool \<times> rate_limiter" where
  "rate_limit_on_request env ctx rl =
     (if rl_rate rl \<le> 0 then (True, rl)
      else
        let key = (case rl_extractor rl of Some f \<Rightarrow> f ctx | None \<Rightarrow> []) in
        if key = [] then (True, rl) else take_token (env_now env) key rl)"

definition cleanup_expired_buckets :: "int \<Rightarrow> int \<Rightarrow> rate_limiter \<Rightarrow> rate_limiter" where
  "cleanup_expired_buckets now idle_sec rl =
     rl\<lparr>rl_buckets := filter (\<lambda>(k, b). \<not> idle_sec * 1000000000 < now - tb_last_fill b) (rl_buckets rl)\<rparr>"

definition active_buckets :: "rate_limiter \<Rightarrow> nat" where
  "active_buckets rl = length (rl_buckets rl)"

section \<open>The chain\<close>

datatype gw_filter = F_Logging | F_RequestId | F_RateLimit rate_limiter

definition filter_on_request ::
  "filter_env \<Rightarrow> gw_filter \<Rightarrow> filter_ctx \<Rightarrow> bool \<times> gw_filter \<times> filter_ctx" where
  "filter_on_request env f ctx =
     (case f of
        F_Logging \<Rightarrow> (True, f, snd (logging_on_request env ctx))
      | F_RequestId \<Rightarrow> (True, f, request_id_on_request env ctx)
      | F_RateLimit rl \<Rightarrow> (case rate_limit_on_request env ctx rl of (ok, rl') \<Rightarrow> (ok, F_RateLimit rl', ctx)))"

definition filter_on_response :: "gw_filter \<Rightarrow> filter_ctx \<Rightarrow> filter_ctx" where
  "filter_on_response f ctx = (case f of F_RequestId \<Rightarrow> request_id_on_response ctx | _ \<Rightarrow> ctx)"

text \<open>The request phase stops at the first filter that refuses; \<open>env i\<close> is what the \<open>i\<close>-th filter
  reads.\<close>

fun run_request_filters ::
  "(nat \<Rightarrow> filter_env) \<Rightarrow> gw_filter list \<Rightarrow> filter_ctx \<Rightarrow> bool \<times> gw_filter list \<times> filter_ctx" where
  "run_request_filters env [] ctx = (True, [], ctx)"
| "run_request_filters env (f # fs) ctx =
     (case filter_on_request (env 0) f ctx of (ok, f', ctx') \<Rightarrow>
        if \<not> ok then (False, f' # fs, ctx')
        else (case run_request_filters (\<lambda>i. env (Suc i)) fs ctx' of (ok', fs', ctx'') \<Rightarrow> (ok', f' # fs', ctx'')))"

definition run_response_filters :: "gw_filter list \<Rightarrow> filter_ctx \<Rightarrow> filter_ctx" where
  "run_response_filters fs ctx = fold filter_on_response fs ctx"

section \<open>Histories of a limiter\<close>

text \<open>What happens to a limiter: requests and the periodic removal of idle buckets, each at a reading
  of the steady clock. The clock is read inside the critical section, so the readings never decrease.\<close>

datatype limiter_event = Limit filter_env filter_ctx | Expire int int

fun event_time :: "limiter_event \<Rightarrow> int" where
  "event_time (Limit env ctx) = env_now env"
| "event_time (Expire now idle_sec) = now"

fun limiter_step :: "limiter_event \<Rightarrow> rate_limiter \<Rightarrow> bool \<times> rate_limiter" where
  "limiter_step (Limit env ctx) rl = rate_limit_on_request env ctx rl"
| "limiter_step (Expire now idle_sec) rl = (False, cleanup_expired_buckets now idle_sec rl)"

definition limiter_run :: "limiter_event list \<Rightarrow> rate_limiter \<Rightarrow> rate_limiter" where
  "limiter_run es rl = fold (\<lambda>e rl. snd (limiter_step e rl)) es rl"

text \<open>The key under which the default extractor files an event, if it is a request that has one.\<close>

fun event_key :: "limiter_event \<Rightarrow> bytes" where
  "event_key (Limit env ctx) = extract_client_ip ctx"
| "event_key (Expire now idle_sec) = []"

text \<open>The requests of key \<open>k\<close> in a history, and those of them that are let through.\<close>

definition requests_of :: "bytes \<Rightarrow> limiter_event list \<Rightarrow> nat" where
  "requests_of k es = length (filter (\<lambda>e. event_key e = k) es)"

fun accepted :: "bytes \<Rightarrow> limiter_event list \<Rightarrow> rate_limiter \<Rightarrow> nat" where
  "accepted k [] rl = 0"
| "accepted k (e # es) rl =
     (case limiter_step e rl of (ok, rl') \<Rightarrow>
        (if event_key e = k \<and> ok then 1 else 0) + accepted k es rl')"

text \<open>A limiter of 32-bit parameters that limits, with the buckets last filled by time \<open>now\<close>.\<close>

definition rl_ok :: "int \<Rightarrow> rate_limiter \<Rightarrow> bool" where
  "rl_ok now rl \<longleftrightarrow>
     0 < rl_rate rl \<and> rl_rate rl < 2 ^ 31 \<and> 0 \<le> rl_burst rl \<and> rl_burst rl < 2 ^ 31
     \<and> rl_token_per_ns rl = dbl (of_int (rl_rate rl) / 1000000000)
     \<and> rl_extractor rl = Some extract_client_ip
     \<and> distinct (map fst (rl_buckets rl))
     \<and> (\<forall>k b. map_of (rl_buckets rl) k = Some b \<longrightarrow>
          0 \<le> tb_tokens b \<and> tb_tokens b \<le> of_int (rl_burst rl) \<and> tb_last_fill b \<le> now)"

lemma rl_ok_mono: "rl_ok t rl \<Longrightarrow> t \<le> now \<Longrightarrow> rl_ok now rl"
  by (fastforce simp: rl_ok_def)

lemma rl_ok_new: "0 < rate \<Longrightarrow> rate < 2 ^ 31 \<Longrightarrow> 0 \<le> burst \<Longrightarrow> burst < 2 ^ 31 \<Longrightarrow> rl_ok t (new_rate_limiter rate burst)"
  by (simp add: rl_ok_def new_rate_limiter_def dbl_of_int)

section \<open>Rounding in a refill\<close>

definition drift :: rat where "drift = 1 / 2 ^ 50"

definition earned :: "rate_limiter \<Rightarrow> int \<Rightarrow> rat" where
  "earned rl ns = of_int ns * of_int (rl_rate rl) / 1000000000"

lemma earned_nonneg: "0 < rl_rate rl \<Longrightarrow> 0 \<le> ns \<Longrightarrow> 0 \<le> earned rl ns"
  by (simp add: earned_def)

lemma earned_add: "earned rl (m + n) = earned rl m + earned rl n"
  by (simp add: earned_def algebra_simps add_divide_distrib)

text \<open>Three roundings turn the exact product of the elapsed time and the rate into the increment.\<close>

lemma increment_bounds:
  assumes "0 \<le> (d :: rat)" and "0 \<le> r"
  shows "d * r * (1 - ulp_bound) ^ 3 \<le> dbl (dbl d * dbl r)" and "dbl (dbl d * dbl r) \<le> d * r * (1 + ulp_bound) ^ 3"
proof -
  have u: "0 \<le> 1 - ulp_bound" "0 \<le> 1 + ulp_bound" by (simp_all add: ulp_bound_def)
  have n: "0 \<le> dbl d" "0 \<le> dbl r" using assms by (simp_all add: dbl_nonneg)
  have "(d * (1 - ulp_bound)) * (r * (1 - ulp_bound)) \<le> dbl d * dbl r"
    using dbl_bounds(1) assms u n by (intro mult_mono) simp_all
  then have "(d * (1 - ulp_bound)) * (r * (1 - ulp_bound)) * (1 - ulp_bound) \<le> dbl d * dbl r * (1 - ulp_bound)"
    using u by (intro mult_right_mono)
  also have "\<dots> \<le> dbl (dbl d * dbl r)" using n by (intro dbl_bounds(1)) simp
  finally show "d * r * (1 - ulp_bound) ^ 3 \<le> dbl (dbl d * dbl r)" by (simp add: power3_eq_cube ac_simps)
  have "dbl (dbl d * dbl r) \<le> dbl d * dbl r * (1 + ulp_bound)" using n by (intro dbl_bounds(2)) simp
  also have "\<dots> \<le> (d * (1 + ulp_bound)) * (r * (1 + ulp_bound)) * (1 + ulp_bound)"
    using dbl_bounds(2) assms u n by (intro mult_right_mono mult_mono) simp_all
  finally show "dbl (dbl d * dbl r) \<le> d * r * (1 + ulp_bound) ^ 3" by (simp add: power3_eq_cube ac_simps)
qed

lemma ulp_powers: "(1 + ulp_bound) ^ 4 \<le> 1 + drift" "1 \<le> (1 + drift) * (1 - ulp_bound) ^ 4"
  by (simp_all add: drift_def ulp_bound_def power4_eq_xxxx)

lemma drift_nonneg [simp]: "0 \<le> drift"
  by (simp add: drift_def)

lemma refill_sum_bounds:
  assumes "0 \<le> t" and "0 \<le> ns" and "0 < rl_rate rl" and "rl_token_per_ns rl = dbl (of_int (rl_rate rl) / 1000000000)"
  defines "s \<equiv> dbl (t + dbl (dbl (of_int ns) * rl_token_per_ns rl))"
  shows "earned rl ns * (1 - ulp_bound) ^ 4 \<le> s" and "s \<le> t * (1 + ulp_bound) + earned rl ns * (1 + drift)"
proof -
  define a where "a = dbl (dbl (of_int ns) * rl_token_per_ns rl)"
  have u: "0 \<le> 1 - ulp_bound" "0 \<le> 1 + ulp_bound" by (simp_all add: ulp_bound_def)
  have e: "of_int ns * (of_int (rl_rate rl) / 1000000000) = earned rl ns" by (simp add: earned_def)
  have en: "0 \<le> earned rl ns" using assms by (simp add: earned_nonneg)
  have "earned rl ns * (1 - ulp_bound) ^ 3 \<le> a" "a \<le> earned rl ns * (1 + ulp_bound) ^ 3"
    using increment_bounds[of "of_int ns" "of_int (rl_rate rl) / 1000000000"] assms(2-4) unfolding e a_def by simp_all
  note a = this
  have "0 \<le> a" by (rule order_trans[OF _ a(1)]) (use en u in simp)
  have "earned rl ns * (1 - ulp_bound) ^ 4 = earned rl ns * (1 - ulp_bound) ^ 3 * (1 - ulp_bound)"
    by (simp add: power4_eq_xxxx power3_eq_cube)
  also have "\<dots> \<le> (t + a) * (1 - ulp_bound)" using a(1) assms(1) u by (intro mult_right_mono) simp_all
  also have "\<dots> \<le> s" unfolding s_def a_def[symmetric] using assms(1) \<open>0 \<le> a\<close> by (intro dbl_bounds(1)) simp
  finally show "earned rl ns * (1 - ulp_bound) ^ 4 \<le> s" .
  have "s \<le> (t + a) * (1 + ulp_bound)" unfolding s_def a_def[symmetric]
    using assms(1) \<open>0 \<le> a\<close> by (intro dbl_bounds(2)) simp
  also have "\<dots> \<le> (t + earned rl ns * (1 + ulp_bound) ^ 3) * (1 + ulp_bound)" using a(2) u by (intro mult_right_mono) simp_all
  also have "\<dots> = t * (1 + ulp_bound) + earned rl ns * (1 + ulp_bound) ^ 4"
    by (simp add: power4_eq_xxxx power3_eq_cube algebra_simps)
  also have "\<dots> \<le> t * (1 + ulp_bound) + earned rl ns * (1 + drift)"
    using ulp_powers(1) en by (intro add_left_mono mult_left_mono)
  finally show "s \<le> t * (1 + ulp_bound) + earned rl ns * (1 + drift)" .
qed

section \<open>Levels\<close>

text \<open>The tokens a request of key \<open>k\<close> finds at time \<open>now\<close>, whether or not the key owns a bucket yet.\<close>

definition level :: "int \<Rightarrow> bytes \<Rightarrow> rate_limiter \<Rightarrow> rat" where
  "level now k rl =
     (case map_of (rl_buckets rl) k of
        None \<Rightarrow> of_int (rl_burst rl)
      | Some b \<Rightarrow> tb_tokens (refill now rl b))"

lemma dbl_burst: "rl_ok t rl \<Longrightarrow> dbl (of_int (rl_burst rl)) = of_int (rl_burst rl)"
  by (intro dbl_of_int) (simp add: rl_ok_def)

lemma refill_tokens:
  assumes "rl_ok t rl"
  shows "tb_tokens (refill now rl b) = min (of_int (rl_burst rl))
    (dbl (tb_tokens b + dbl (dbl (of_int (now - tb_last_fill b)) * rl_token_per_ns rl)))"
  by (simp add: refill_def Let_def dbl_burst[OF assms] min_def del: of_int_diff)

lemma refill_buckets: "refill now (rl\<lparr>rl_buckets := bs\<rparr>) b = refill now rl b"
  by (simp add: refill_def Let_def)

lemma take_token_eq:
  assumes "rl_ok t rl"
  shows "take_token now key rl =
     (let l = level now key rl; ok = (1 \<le> l) in
      (ok, rl\<lparr>rl_buckets := smap_put key \<lparr>tb_tokens = (if ok then dbl (l - 1) else l), tb_last_fill = now\<rparr>
                             (rl_buckets rl)\<rparr>))"
  using dbl_burst[OF assms]
  by (simp add: take_token_def level_def refill_def Let_def split: option.split)

lemma level_bounds:
  assumes "rl_ok t rl" and "t \<le> now"
  shows "0 \<le> level now k rl" and "level now k rl \<le> of_int (rl_burst rl)"
proof -
  have "0 \<le> dbl (tb_tokens b + dbl (dbl (of_int (now - tb_last_fill b)) * rl_token_per_ns rl))"
    if "map_of (rl_buckets rl) k = Some b" for b
    using assms that by (intro dbl_nonneg add_nonneg_nonneg mult_nonneg_nonneg) (force simp: rl_ok_def dbl_nonneg)+
  then show "0 \<le> level now k rl" "level now k rl \<le> of_int (rl_burst rl)"
    using assms by (auto simp: level_def refill_tokens[OF assms(1)] rl_ok_def split: option.split)
qed

lemma dbl_spent:
  assumes "1 \<le> l" and "l \<le> of_int b" and "0 \<le> (b :: int)" and "b < 2 ^ 31"
  shows "0 \<le> dbl (l - 1)" and "dbl (l - 1) \<le> of_int b" and "dbl (l - 1) \<le> l - 1 + of_int b * ulp_bound"
proof -
  show "0 \<le> dbl (l - 1)" using assms(1) by (intro dbl_nonneg) simp
  have "dbl (l - 1) \<le> (l - 1) * (1 + ulp_bound)" using assms(1) by (intro dbl_bounds(2)) simp
  also have "\<dots> = l - 1 + (l - 1) * ulp_bound" by (simp add: distrib_left)
  also have "\<dots> \<le> l - 1 + of_int b * ulp_bound"
    using assms(2) by (intro add_left_mono mult_right_mono) (simp_all add: ulp_bound_def)
  finally show *: "dbl (l - 1) \<le> l - 1 + of_int b * ulp_bound" .
  have "of_int b * ulp_bound \<le> 1"
  proof -
    have "(of_int b :: rat) \<le> of_int (2 ^ 31)" using assms(4) by (simp only: of_int_le_iff)
    then show ?thesis by (simp add: ulp_bound_def)
  qed
  with * assms(2) show "dbl (l - 1) \<le> of_int b" by linarith
qed

lemma rl_ok_take:
  assumes "rl_ok t rl" and "t \<le> now" and "smap_ok (rl_buckets rl)"
  shows "rl_ok now (snd (take_token now key rl)) \<and> smap_ok (rl_buckets (snd (take_token now key rl)))"
proof -
  have b: "0 \<le> rl_burst rl" "rl_burst rl < 2 ^ 31" using assms(1) by (simp_all add: rl_ok_def)
  have sm: "smap_ok (smap_put key x (rl_buckets rl))" for x using assms(3) by (rule smap_ok_put)
  then have "distinct (map fst (smap_put key x (rl_buckets rl)))" for x by (simp add: smap_ok_def strict_sorted_iff)
  moreover have "\<forall>k b. map_of (rl_buckets rl) k = Some b \<longrightarrow> tb_last_fill b \<le> now"
    using assms(1,2) by (fastforce simp: rl_ok_def)
  ultimately show ?thesis
    using level_bounds[OF assms(1,2), of key] dbl_spent[OF _ _ b, of "level now key rl"] assms(1) sm
    by (auto simp: take_token_eq[OF assms(1)] Let_def rl_ok_def)
qed

lemma map_of_filter_distinct:
  "distinct (map fst m) \<Longrightarrow>
   map_of (filter (\<lambda>(k, b). P b) m) k = (case map_of m k of Some b \<Rightarrow> if P b then Some b else None | None \<Rightarrow> None)"
proof (induction m)
  case (Cons x m)
  obtain a b where x: "x = (a, b)" by fastforce
  have "map_of m a = None" using Cons.prems by (simp add: x map_of_eq_None_iff)
  with Cons show ?case by (auto simp: x)
qed simp

lemma smap_ok_filter: "smap_ok m \<Longrightarrow> smap_ok (filter P m)"
  by (induction m) (auto simp: smap_ok_def)

text \<open>An event, in terms of buckets.\<close>

definition rl_inv :: "int \<Rightarrow> rate_limiter \<Rightarrow> bool" where
  "rl_inv t rl \<longleftrightarrow> rl_ok t rl \<and> smap_ok (rl_buckets rl)"

lemma limit_step:
  assumes "rl_ok t rl"
  shows "limiter_step (Limit env ctx) rl =
    (if extract_client_ip ctx = [] then (True, rl) else take_token (env_now env) (extract_client_ip ctx) rl)"
  using assms by (simp add: rate_limit_on_request_def rl_ok_def Let_def)

lemma rl_inv_step:
  assumes "rl_inv t rl" and "t \<le> event_time e"
  shows "rl_inv (event_time e) (snd (limiter_step e rl))
    \<and> rl_rate (snd (limiter_step e rl)) = rl_rate rl \<and> rl_burst (snd (limiter_step e rl)) = rl_burst rl"
proof (cases e)
  case (Limit env ctx)
  have ok: "rl_ok t rl" "smap_ok (rl_buckets rl)" using assms(1) by (simp_all add: rl_inv_def)
  show ?thesis
  proof (cases "extract_client_ip ctx = []")
    case True
    then show ?thesis using assms ok limit_step[OF ok(1), of env ctx] Limit by (auto simp: rl_inv_def intro: rl_ok_mono)
  next
    case False
    then show ?thesis
      using limit_step[OF ok(1), of env ctx] rl_ok_take[OF ok(1) _ ok(2)] assms(2) Limit
      by (simp add: rl_inv_def take_token_eq[OF ok(1)] Let_def del: limiter_step.simps)
  qed
next
  case (Expire now idle_sec)
  have "distinct (map fst (filter P (rl_buckets rl)))" for P
    using assms(1) by (intro distinct_map_filter) (simp add: rl_inv_def rl_ok_def)
  then show ?thesis
    using assms Expire rl_ok_mono[of t rl now]
    by (auto simp: rl_inv_def rl_ok_def cleanup_expired_buckets_def smap_ok_filter map_of_filter_distinct
        split: option.splits if_splits)
qed

lemma limiter_run_simps [simp]:
  "limiter_run [] rl = rl" "limiter_run (e # es) rl = limiter_run es (snd (limiter_step e rl))"
  by (simp_all add: limiter_run_def)

lemma rl_inv_run:
  assumes "rl_inv t rl" and "sorted (t # map event_time es)" and "\<forall>e \<in> set es. event_time e \<le> u" and "t \<le> u"
  shows "rl_inv u (limiter_run es rl) \<and> rl_rate (limiter_run es rl) = rl_rate rl
    \<and> rl_burst (limiter_run es rl) = rl_burst rl"
  using assms
proof (induction es arbitrary: t rl)
  case Nil
  then show ?case by (auto simp: rl_inv_def intro: rl_ok_mono)
next
  case (Cons e es)
  have "rl_inv (event_time e) (snd (limiter_step e rl))"
    "rl_rate (snd (limiter_step e rl)) = rl_rate rl" "rl_burst (snd (limiter_step e rl)) = rl_burst rl"
    using rl_inv_step[OF Cons.prems(1), of e] Cons.prems(2) by simp_all
  then show ?case using Cons.IH[of "event_time e" "snd (limiter_step e rl)"] Cons.prems by simp
qed

lemma new_limiter_run:
  assumes "0 < rate" and "rate < 2 ^ 31" and "0 \<le> burst" and "burst < 2 ^ 31"
    and "sorted (map event_time es)" and "\<forall>e \<in> set es. event_time e \<le> u"
  shows "rl_inv u (limiter_run es (new_rate_limiter rate burst))
    \<and> rl_rate (limiter_run es (new_rate_limiter rate burst)) = rate
    \<and> rl_burst (limiter_run es (new_rate_limiter rate burst)) = burst"
proof -
  define t where "t = (if es = [] then u else event_time (hd es))"
  have "rl_inv t (new_rate_limiter rate burst)"
    using rl_ok_new[OF assms(1-4)] by (simp add: rl_inv_def) (simp add: new_rate_limiter_def)
  then show ?thesis
    using rl_inv_run[of t "new_rate_limiter rate burst" es u] assms(5,6)
    by (cases es) (simp_all add: t_def new_rate_limiter_def)
qed

section \<open>Potential\<close>

text \<open>What a key can still spend: its tokens and what it has earned since they were counted, within
  the burst.\<close>

definition potential :: "int \<Rightarrow> bytes \<Rightarrow> rate_limiter \<Rightarrow> rat" where
  "potential t k rl =
     (case map_of (rl_buckets rl) k of
        None \<Rightarrow> of_int (rl_burst rl)
      | Some b \<Rightarrow> min (of_int (rl_burst rl)) (tb_tokens b + earned rl (t - tb_last_fill b) * (1 + drift)))"

lemma potential_le: "potential t k rl \<le> of_int (rl_burst rl)"
  by (simp add: potential_def split: option.split)

lemma potential_nonneg: "rl_ok t rl \<Longrightarrow> 0 \<le> potential t k rl"
  by (auto simp: potential_def rl_ok_def earned_nonneg split: option.split)

lemma potential_grows:
  assumes "0 < rl_rate rl" and "t \<le> now"
  shows "potential now k rl \<le> potential t k rl + earned rl (now - t) * (1 + drift)"
proof -
  have nn: "0 \<le> earned rl (now - t) * (1 + drift)" using assms by (simp add: earned_nonneg)
  have e: "x + earned rl (now - l) * (1 + drift) = x + earned rl (t - l) * (1 + drift) + earned rl (now - t) * (1 + drift)"
    for x l
  proof -
    have "earned rl (now - l) = earned rl (t - l) + earned rl (now - t)"
      using earned_add[of rl "t - l" "now - t"] by simp
    then show ?thesis by (simp only: distrib_right add.assoc)
  qed
  have m: "min c (y + d) \<le> min c y + d" if "0 \<le> d" for c y d :: rat
    using that by (simp add: min_def)
  show ?thesis
  proof (cases "map_of (rl_buckets rl) k")
    case None
    then show ?thesis using nn by (simp add: potential_def)
  next
    case (Some b)
    then show ?thesis 
      unfolding potential_def by (simp only: option.case e[of "tb_tokens b" "tb_last_fill b"] m[OF nn])
  qed
qed

lemma level_potential:
  assumes "rl_ok now rl"
  shows "level now k rl \<le> potential now k rl + of_int (rl_burst rl) * ulp_bound"
proof (cases "map_of (rl_buckets rl) k")
  case None
  then show ?thesis using assms by (simp add: level_def potential_def rl_ok_def ulp_bound_def)
next
  case (Some b)
  have b: "0 \<le> tb_tokens b" "tb_tokens b \<le> of_int (rl_burst rl)" "tb_last_fill b \<le> now"
    using assms Some by (auto simp: rl_ok_def)
  have s: "dbl (tb_tokens b + dbl (dbl (of_int (now - tb_last_fill b)) * rl_token_per_ns rl))
      \<le> tb_tokens b * (1 + ulp_bound) + earned rl (now - tb_last_fill b) * (1 + drift)"
    using assms b by (intro refill_sum_bounds(2)) (simp_all add: rl_ok_def)
  have "tb_tokens b * ulp_bound \<le> of_int (rl_burst rl) * ulp_bound" "0 \<le> of_int (rl_burst rl) * ulp_bound"
    using b by (simp_all add: ulp_bound_def)
  with s Some show ?thesis
    by (simp add: level_def potential_def refill_tokens[OF assms] min_def distrib_left)
qed

text \<open>Every event costs the key what it lets through, up to the rounding of the event.\<close>

definition roundoff :: "rate_limiter \<Rightarrow> rat" where
  "roundoff rl = of_int (rl_burst rl) / 2 ^ 52"

lemma potential_step:
  assumes "rl_inv t rl" and "t \<le> event_time e" and "k \<noteq> []"
    and "\<forall>now idle. e = Expire now idle \<longrightarrow> rl_burst rl \<le> idle * rl_rate rl"
  shows "(if event_key e = k \<and> fst (limiter_step e rl) then 1 else 0)
      + potential (event_time e) k (snd (limiter_step e rl))
    \<le> potential (event_time e) k rl + (if event_key e = k then roundoff rl else 0)"
proof (cases e)
  case (Limit env ctx)
  let ?now = "env_now env" and ?key = "extract_client_ip ctx"
  have ok: "rl_ok t rl" "rl_ok ?now rl" using assms Limit by (auto simp: rl_inv_def intro: rl_ok_mono)
  have b: "0 \<le> rl_burst rl" "rl_burst rl < 2 ^ 31" using ok(1) by (simp_all add: rl_ok_def)
  have r2: "2 * (of_int (rl_burst rl) * ulp_bound) = roundoff rl" by (simp add: roundoff_def ulp_bound_def)
  show ?thesis
  proof (cases "?key = k")
    case True
    have l: "level ?now k rl \<le> potential ?now k rl + of_int (rl_burst rl) * ulp_bound" "level ?now k rl \<le> of_int (rl_burst rl)"
      using level_potential[OF ok(2)] level_bounds(2)[OF ok(2)] by simp_all
    have nn: "0 \<le> of_int (rl_burst rl) * ulp_bound" using b by (simp add: ulp_bound_def)
    have "potential ?now k (snd (limiter_step e rl)) = (if 1 \<le> level ?now k rl then dbl (level ?now k rl - 1) else level ?now k rl)"
      using True assms(3) limit_step[OF ok(1), of env ctx] dbl_spent(2)[OF _ l(2) b] l(2) Limit
      by (auto simp: take_token_eq[OF ok(1)] Let_def potential_def earned_def min_def simp del: limiter_step.simps)
    moreover have "fst (limiter_step e rl) = (1 \<le> level ?now k rl)"
      using True assms(3) limit_step[OF ok(1), of env ctx] Limit
      by (simp add: take_token_eq[OF ok(1)] Let_def del: limiter_step.simps)
    ultimately show ?thesis
      using True Limit l nn r2 dbl_spent(3)[OF _ l(2) b] by auto
  next
    case False
    have "potential ?now k (snd (limiter_step e rl)) = potential ?now k rl"
      using False limit_step[OF ok(1), of env ctx] Limit
      by (simp add: take_token_eq[OF ok(1)] Let_def potential_def earned_def del: limiter_step.simps split: option.split)
    with False Limit show ?thesis by simp
  qed
next
  case (Expire now idle_sec)
  have ok: "rl_ok now rl" using assms Expire by (auto simp: rl_inv_def intro: rl_ok_mono)
  have idle: "rl_burst rl \<le> idle_sec * rl_rate rl" using assms(4) Expire by simp
  have full: "of_int (rl_burst rl) \<le> tb_tokens b + earned rl (now - tb_last_fill b) * (1 + drift)"
    if b: "map_of (rl_buckets rl) k = Some b" and old: "idle_sec * 1000000000 < now - tb_last_fill b" for b
  proof -
    have "idle_sec * 1000000000 * rl_rate rl \<le> (now - tb_last_fill b) * rl_rate rl"
      using ok old by (intro mult_right_mono) (simp_all add: rl_ok_def)
    then have "rl_burst rl * 1000000000 \<le> (now - tb_last_fill b) * rl_rate rl" using idle by simp
    then have "(of_int (rl_burst rl * 1000000000) :: rat) \<le> of_int ((now - tb_last_fill b) * rl_rate rl)"
      by (simp only: of_int_le_iff)
    then have "of_int (rl_burst rl) \<le> earned rl (now - tb_last_fill b)" by (simp add: earned_def)
    moreover have "0 \<le> tb_tokens b" using ok b by (auto simp: rl_ok_def)
    moreover have "0 \<le> earned rl (now - tb_last_fill b)" using ok b by (intro earned_nonneg) (auto simp: rl_ok_def)
    moreover have "0 \<le> earned rl (now - tb_last_fill b) * drift" using calculation(3) by simp
    ultimately show ?thesis by (simp only: distrib_left mult_1_right)
  qed
  have "distinct (map fst (rl_buckets rl))" using ok by (simp add: rl_ok_def)
  then have "potential now k (snd (limiter_step e rl)) \<le> potential now k rl"
    using full Expire
    by (auto simp: potential_def cleanup_expired_buckets_def map_of_filter_distinct earned_def min_def split: option.split)
  with assms(3) Expire show ?thesis by simp
qed

lemma accepted_bound:
  assumes "rl_inv t rl" and "sorted (t # map event_time es)" and "\<forall>e \<in> set es. event_time e \<le> u" and "t \<le> u"
    and "k \<noteq> []" and "\<forall>now idle. Expire now idle \<in> set es \<longrightarrow> rl_burst rl \<le> idle * rl_rate rl"
  shows "of_nat (accepted k es rl)
    \<le> potential t k rl + earned rl (u - t) * (1 + drift) + of_nat (requests_of k es) * roundoff rl"
  using assms
proof (induction es arbitrary: t rl)
  case Nil
  then show ?case
    using potential_nonneg[of t rl k] earned_nonneg[of rl "u - t"] by (simp add: requests_of_def rl_inv_def rl_ok_def)
next
  case (Cons e es)
  define now rl' where "now = event_time e" and "rl' = snd (limiter_step e rl)"
  have t: "t \<le> now" "now \<le> u" using Cons.prems by (simp_all add: now_def)
  have inv: "rl_inv now rl'" and par: "rl_rate rl' = rl_rate rl" "rl_burst rl' = rl_burst rl"
    using rl_inv_step[OF Cons.prems(1), of e] t by (simp_all add: now_def rl'_def)
  have IH: "of_nat (accepted k es rl')
      \<le> potential now k rl' + earned rl (u - now) * (1 + drift) + of_nat (requests_of k es) * roundoff rl"
    using Cons.IH[OF inv] Cons.prems t par by (simp add: now_def earned_def roundoff_def)
  have g: "potential now k rl \<le> potential t k rl + earned rl (now - t) * (1 + drift)"
    using potential_grows[OF _ t(1)] Cons.prems(1) by (simp add: rl_inv_def rl_ok_def)
  have st: "(if event_key e = k \<and> fst (limiter_step e rl) then 1 else 0) + potential now k rl'
      \<le> potential now k rl + (if event_key e = k then roundoff rl else 0)"
    unfolding now_def rl'_def using Cons.prems t by (intro potential_step) (auto simp: now_def)
  have split: "earned rl (u - t) = earned rl (u - now) + earned rl (now - t)"
    using earned_add[of rl "u - now" "now - t"] by simp
  have a: "of_nat (accepted k (e # es) rl) =
      (if event_key e = k \<and> fst (limiter_step e rl) then 1 else 0) + (of_nat (accepted k es rl') :: rat)"
    by (simp add: rl'_def case_prod_beta)
  have "of_nat (requests_of k (e # es)) * roundoff rl =
      (if event_key e = k then roundoff rl else 0) + of_nat (requests_of k es) * roundoff rl"
    by (simp add: requests_of_def distrib_right)
  then show ?case using IH g st unfolding a split by (simp add: distrib_right)
qed

lemma sorted_first_last:
  assumes "sorted (map f xs)" and "x \<in> set xs"
  shows "f (hd xs) \<le> f x \<and> f x \<le> f (last xs)"
proof
  show "f (hd xs) \<le> f x" using assms by (cases xs) auto
  show "f x \<le> f (last xs)" using assms by (cases xs rule: rev_cases) (auto simp: sorted_append)
qed

section \<open>Properties\<close>

text \<open>C22: the token bucket bounds the throughput of every client. Take a limiter with a positive rate
  (with a rate of zero or less the filter is off), after any earlier history of requests and of
  removals of idle buckets. In any later stretch of such events, at clock readings that never
  decrease, the requests of one client address that are let through number at most the burst plus
  the rate times the length of the stretch, up to the rounding of the \<^verbatim>\<open>double\<close> arithmetic: a
  relative error of \<open>2 ^ -50\<close> of the second term and \<open>2 ^ -52\<close> of the burst per request of that client.
  Removals after \<open>idle\<close> seconds must leave an idle bucket the time to fill up.\<close>

theorem rate_limit_bound:
  assumes "0 < rate" and "rate < 2 ^ 31" and "0 \<le> burst" and "burst < 2 ^ 31" and "k \<noteq> []"
    and "sorted (map event_time (es0 @ es))" and "es \<noteq> []"
    and "\<forall>now idle. Expire now idle \<in> set es \<longrightarrow> burst \<le> idle * rate"
  shows "of_nat (accepted k es (limiter_run es0 (new_rate_limiter rate burst)))
    \<le> of_int burst + of_int (event_time (last es) - event_time (hd es)) * of_int rate / 1000000000 * (1 + 1 / 2 ^ 50)
      + of_nat (requests_of k es) * (of_int burst / 2 ^ 52 :: rat)"
proof -
  let ?rl = "limiter_run es0 (new_rate_limiter rate burst)"
  let ?t = "event_time (hd es)" and ?u = "event_time (last es)"
  have "hd es \<in> set es" using assms(7) by simp
  then have le: "\<forall>e \<in> set es0. event_time e \<le> ?t" "\<forall>e \<in> set es. ?t \<le> event_time e \<and> event_time e \<le> ?u"
    using assms(6) sorted_first_last[of event_time es] by (auto simp: sorted_append)
  have rl: "rl_inv ?t ?rl" "rl_rate ?rl = rate" "rl_burst ?rl = burst"
    using new_limiter_run[OF assms(1-4) _ le(1)] assms(6) by (simp_all add: sorted_append)
  have "of_nat (accepted k es ?rl)
      \<le> potential ?t k ?rl + earned ?rl (?u - ?t) * (1 + drift) + of_nat (requests_of k es) * roundoff ?rl"
    using assms le by (intro accepted_bound[OF rl(1)]) (auto simp: sorted_append rl(2,3))
  then show ?thesis using potential_le[of ?t k ?rl] by (simp add: earned_def roundoff_def rl(2,3) drift_def)
qed

definition wclient :: filter_ctx where
  "wclient = filter_ctx_init\<lparr>ctx_req := Some (http_request_init\<lparr>req_headers := [(''x-forwarded-for'', ''10.0.0.1'')]\<rparr>)\<rparr>"

definition wlimit :: "int \<Rightarrow> limiter_event" where
  "wlimit t = Limit \<lparr>env_time = 0, env_now = t, env_draw = (\<lambda>_. 0)\<rparr> wclient"

theorem rate_limit_bound_witness:
  "accepted ''10.0.0.1'' [wlimit 5, wlimit 5, wlimit 5, wlimit 6] (limiter_run [wlimit 0] (new_rate_limiter 1000000000 2)) = 3
   \<and> (of_nat (accepted ''10.0.0.1'' [wlimit 5, wlimit 5, wlimit 5, wlimit 6]
          (limiter_run [wlimit 0] (new_rate_limiter 1000000000 2))) :: rat)
       \<le> of_int 2 + of_int (event_time (last [wlimit 5, wlimit 5, wlimit 5, wlimit 6])
            - event_time (hd [wlimit 5, wlimit 5, wlimit 5, wlimit 6])) * of_int 1000000000 / 1000000000 * (1 + 1 / 2 ^ 50)
         + of_nat (requests_of ''10.0.0.1'' [wlimit 5, wlimit 5, wlimit 5, wlimit 6]) * (of_int 2 / 2 ^ 52)"
proof
  show "accepted ''10.0.0.1'' [wlimit 5, wlimit 5, wlimit 5, wlimit 6] (limiter_run [wlimit 0] (new_rate_limiter 1000000000 2)) = 3"
    by code_simp
qed (rule rate_limit_bound; simp add: wlimit_def)

section \<open>Slow clients and idle buckets\<close>

text \<open>a request is let through whenever its key has been idle long enough to earn one token and the
  rounding errors, so a client that stays below the rate is never refused.\<close>

theorem rate_limit_admits_slow_client:
  assumes "rl_ok now rl" and "map_of (rl_buckets rl) key = Some b"
    and "1 + drift \<le> earned rl (now - tb_last_fill b)" and "1 \<le> rl_burst rl"
  shows "fst (take_token now key rl)"
proof -
  let ?s = "dbl (tb_tokens b + dbl (dbl (of_int (now - tb_last_fill b)) * rl_token_per_ns rl))"
  have b: "0 \<le> tb_tokens b" "tb_last_fill b \<le> now" using assms(1,2) by (auto simp: rl_ok_def)
  have "1 \<le> (1 + drift) * (1 - ulp_bound) ^ 4" by (rule ulp_powers(2))
  also have "\<dots> \<le> earned rl (now - tb_last_fill b) * (1 - ulp_bound) ^ 4"
    using assms(3) by (intro mult_right_mono) (simp_all add: ulp_bound_def)
  also have "\<dots> \<le> ?s" using assms(1) b by (intro refill_sum_bounds(1)) (simp_all add: rl_ok_def)
  finally have "1 \<le> tb_tokens (refill now rl b)" using assms(4) by (simp add: refill_tokens[OF assms(1)])
  then show ?thesis using assms(2) by (simp add: take_token_eq[OF assms(1)] Let_def level_def)
qed

theorem rate_limit_admits_slow_client_witness:
  "fst (take_token 1000000001 ''a''
     \<lparr>rl_rate = 1, rl_burst = 2, rl_token_per_ns = dbl (1 / 1000000000),
      rl_buckets = [(''a'', \<lparr>tb_tokens = 0, tb_last_fill = 0\<rparr>)], rl_extractor = Some extract_client_ip\<rparr>)"
  by (rule rate_limit_admits_slow_client[where b = "\<lparr>tb_tokens = 0, tb_last_fill = 0\<rparr>"])
    (auto simp: rl_ok_def earned_def drift_def split: if_splits)

text \<open>a bucket that the removal drops would have been full at any later request: the key finds the same
  level with and without it, provided a bucket fills up within the idle time.\<close>

theorem cleanup_keeps_levels:
  assumes "rl_ok now rl" and "rl_burst rl < idle_sec * rl_rate rl" and "now \<le> u"
  shows "level u k (cleanup_expired_buckets now idle_sec rl) = level u k rl"
proof -
  have ok: "rl_ok u rl" using assms by (auto intro: rl_ok_mono)
  have full: "tb_tokens (refill u rl b) = of_int (rl_burst rl)"
    if b: "map_of (rl_buckets rl) k = Some b" and old: "idle_sec * 1000000000 < now - tb_last_fill b" for b
  proof -
    let ?s = "dbl (tb_tokens b + dbl (dbl (of_int (u - tb_last_fill b)) * rl_token_per_ns rl))"
    have "idle_sec * 1000000000 * rl_rate rl \<le> (u - tb_last_fill b) * rl_rate rl"
      using ok old assms(3) by (intro mult_right_mono) (simp_all add: rl_ok_def)
    then have "(rl_burst rl + 1) * 1000000000 \<le> (u - tb_last_fill b) * rl_rate rl" using assms(2) by simp
    then have "(of_int ((rl_burst rl + 1) * 1000000000) :: rat) \<le> of_int ((u - tb_last_fill b) * rl_rate rl)"
      by (simp only: of_int_le_iff)
    then have e: "of_int (rl_burst rl) + 1 \<le> earned rl (u - tb_last_fill b)" by (simp add: earned_def)
    have "rl_burst rl \<le> 2 ^ 31" using ok by (simp add: rl_ok_def)
    then have "(of_int (rl_burst rl) :: rat) \<le> of_int (2 ^ 31)" by (simp only: of_int_le_iff)
    then have "of_int (rl_burst rl) * (1 + drift) \<le> earned rl (u - tb_last_fill b)"
      using e by (simp add: distrib_left drift_def)
    then have "of_int (rl_burst rl) * (1 + drift) * (1 - ulp_bound) ^ 4
        \<le> earned rl (u - tb_last_fill b) * (1 - ulp_bound) ^ 4"
      by (intro mult_right_mono) (simp_all add: ulp_bound_def)
    also have "\<dots> \<le> ?s"
      using ok b by (intro refill_sum_bounds(1)) (auto simp: rl_ok_def)
    finally have "of_int (rl_burst rl) * ((1 + drift) * (1 - ulp_bound) ^ 4) \<le> ?s" by (simp add: mult.assoc)
    moreover have "of_int (rl_burst rl) * 1 \<le> of_int (rl_burst rl) * ((1 + drift) * (1 - ulp_bound) ^ 4)"
      using ok ulp_powers(2) by (intro mult_left_mono) (simp_all add: rl_ok_def)
    ultimately show ?thesis by (simp add: refill_tokens[OF ok])
  qed
  have "distinct (map fst (rl_buckets rl))" using ok by (simp add: rl_ok_def)
  then show ?thesis
    using full
    by (cases "map_of (rl_buckets rl) k")
      (simp_all add: level_def cleanup_expired_buckets_def map_of_filter_distinct refill_buckets)
qed

text \<open>with the default key extractor a request that carries neither an \<^verbatim>\<open>X-Forwarded-For\<close> nor an
  \<^verbatim>\<open>X-Real-IP\<close> header is never limited: there is no fallback to the peer address.\<close>

theorem rate_limit_needs_header:
  assumes "ctx_req ctx = Some req" and "map_of (req_headers req) ''x-forwarded-for'' = None"
    and "map_of (req_headers req) ''x-real-ip'' = None" and "rl_extractor rl = Some extract_client_ip"
  shows "rate_limit_on_request env ctx rl = (True, rl)"
  using assms by (simp add: rate_limit_on_request_def extract_client_ip_def)

theorem rate_limit_needs_header_witness:
  "rate_limit_on_request \<lparr>env_time = 0, env_now = 0, env_draw = (\<lambda>_. 0)\<rparr>
     (filter_ctx_init\<lparr>ctx_req := Some http_request_init\<rparr>) (new_rate_limiter 1 0)
   = (True, new_rate_limiter 1 0)"
  by (rule rate_limit_needs_header[where req = http_request_init])
    (simp_all add: filter_ctx_init_def http_request_init_def new_rate_limiter_def)

end
