(* ===== verification/Gw_Backend.thy ===== *)
theory Gw_Backend
  imports Gw_Http Gw_Config
begin

text \<open>
  One TCP connection to a backend: \<^verbatim>\<open>src/src/proxy/backend.cpp\<close>. The system calls are arguments: the
  result of each call of \<^verbatim>\<open>connect\<close>, \<^verbatim>\<open>poll\<close>, \<^verbatim>\<open>send\<close> and \<^verbatim>\<open>recv\<close> is read from a script, a list with
  one entry per round of the loop that makes the call. When a loop is still running at the end of
  its script the result is \<^const>\<open>None\<close>: the call has not returned yet.
\<close>

section \<open>State\<close>

record backend_conn =
  bc_id :: nat
  bc_backend :: backend
  bc_open :: bool
  bc_last_activity :: int

text \<open>\<open>bc_id\<close> is the identity of the object behind the \<^verbatim>\<open>shared_ptr\<close>; an open descriptor is one with
  \<^verbatim>\<open>fd_ >= 0\<close>.\<close>

definition new_backend_conn :: "nat \<Rightarrow> backend \<Rightarrow> backend_conn" where
  "new_backend_conn i b = \<lparr>bc_id = i, bc_backend = b, bc_open = False, bc_last_activity = 0\<rparr>"

definition conn_close :: "backend_conn \<Rightarrow> backend_conn" where
  "conn_close c = c\<lparr>bc_open := False\<rparr>"

definition conn_touch :: "int \<Rightarrow> backend_conn \<Rightarrow> backend_conn" where
  "conn_touch now c = c\<lparr>bc_last_activity := now\<rparr>"

section \<open>Connecting\<close>

datatype connect_result = CR_Connected | CR_InProgress | CR_Refused

record connect_io =
  io_socket_ok :: bool
  io_address_ok :: bool
  io_connect :: connect_result
  io_poll :: int
  io_sockopt_ok :: bool
  io_sockopt_err :: int

definition conn_connect :: "connect_io \<Rightarrow> int \<Rightarrow> backend_conn \<Rightarrow> bool \<times> backend_conn" where
  "conn_connect io now c =
     (if \<not> io_socket_ok io then (False, c\<lparr>bc_open := False\<rparr>)
      else
        let c1 = c\<lparr>bc_open := True\<rparr> in
        if \<not> io_address_ok io then (False, conn_close c1)
        else
          (case io_connect io of
             CR_Connected \<Rightarrow> (True, conn_touch now c1)
           | CR_Refused \<Rightarrow> (False, conn_close c1)
           | CR_InProgress \<Rightarrow>
               if io_poll io \<le> 0 then (False, conn_close c1)
               else if \<not> io_sockopt_ok io \<or> io_sockopt_err io \<noteq> 0 then (False, conn_close c1)
               else (True, conn_touch now c1)))"

section \<open>Sending\<close>

text \<open>One round of the send loop: \<^verbatim>\<open>poll\<close> fails or times out, \<^verbatim>\<open>send\<close> accepts some bytes, would block,
  or fails (a result of zero bytes counts as a failure).\<close>

datatype send_io = S_PollFailed | S_Sent nat | S_WouldBlock | S_Failed

fun send_loop :: "send_io list \<Rightarrow> nat \<Rightarrow> nat \<Rightarrow> (bool \<times> nat) option" where
  "send_loop script sent len =
     (if len \<le> sent then Some (True, sent)
      else
        (case script of
           [] \<Rightarrow> None
         | S_PollFailed # s \<Rightarrow> Some (False, sent)
         | S_Sent n # s \<Rightarrow> if 0 < n then send_loop s (sent + n) len else Some (False, sent)
         | S_WouldBlock # s \<Rightarrow> send_loop s sent len
         | S_Failed # s \<Rightarrow> Some (False, sent)))"

declare send_loop.simps [simp del]

definition send_all :: "send_io list \<Rightarrow> bytes \<Rightarrow> backend_conn \<Rightarrow> bool option" where
  "send_all script data c =
     (if \<not> bc_open c then Some False else map_option fst (send_loop script 0 (length data)))"

section \<open>Receiving\<close>

datatype recv_io = R_PollFailed | R_Data bytes | R_Eof | R_WouldBlock | R_Failed

definition cl_tag :: bytes where "cl_tag = crlf @ ''Content-Length:''"
definition cl_tag_lower :: bytes where "cl_tag_lower = crlf @ ''content-length:''"

text \<open>The length a complete response header announces, zero when it has no such field.\<close>

definition announced_length :: "bytes \<Rightarrow> nat" where
  "announced_length headers =
     (case (case find_sub cl_tag headers of Some i \<Rightarrow> Some i | None \<Rightarrow> find_sub cl_tag_lower headers) of
        Some pos \<Rightarrow>
          digits_val (takeWhile is_digit (dropWhile (\<lambda>c. c = CHR '' '') (drop (pos + 17) headers)))
      | None \<Rightarrow> 0)"

record recv_state =
  rs_resp :: bytes
  rs_got :: bool
  rs_expect :: "(nat \<times> nat) option"

text \<open>\<open>rs_expect\<close> holds the header end and the content length once the header is complete.\<close>

definition recv_append :: "bytes \<Rightarrow> recv_state \<Rightarrow> recv_state" where
  "recv_append d st =
     (let resp = rs_resp st @ d in
      \<lparr>rs_resp = resp, rs_got = True,
       rs_expect =
         (case rs_expect st of
            Some e \<Rightarrow> Some e
          | None \<Rightarrow> map_option (\<lambda>he. (he, announced_length (take he resp))) (find_sub crlf2 resp))\<rparr>)"

definition recv_complete :: "recv_state \<Rightarrow> bool" where
  "recv_complete st =
     (case rs_expect st of None \<Rightarrow> False | Some (he, cl) \<Rightarrow> he + 4 + cl \<le> length (rs_resp st))"

text \<open>The result is the state, whether the peer has closed, and what is left of the script.\<close>

fun recv_loop :: "recv_io list \<Rightarrow> recv_state \<Rightarrow> (recv_state \<times> bool \<times> recv_io list) option" where
  "recv_loop [] st = None"
| "recv_loop (R_PollFailed # s) st = Some (st, False, s)"
| "recv_loop (R_Data d # s) st =
     (let st' = recv_append d st in if recv_complete st' then Some (st', False, s) else recv_loop s st')"
| "recv_loop (R_Eof # s) st = Some (st, True, s)"
| "recv_loop (R_WouldBlock # s) st = recv_loop s st"
| "recv_loop (R_Failed # s) st = Some (st, False, s)"

definition recv_init :: recv_state where
  "recv_init = \<lparr>rs_resp = [], rs_got = False, rs_expect = None\<rparr>"

definition recv_all :: "recv_io list \<Rightarrow> int \<Rightarrow> backend_conn \<Rightarrow> (bytes \<times> backend_conn \<times> recv_io list) option" where
  "recv_all script now c =
     (if \<not> bc_open c then Some ([], c, script)
      else
        (case recv_loop script recv_init of
           None \<Rightarrow> None
         | Some (st, eof, rest) \<Rightarrow>
             if \<not> rs_got st then Some ([], conn_close c, rest)
             else Some (rs_resp st, if eof then conn_close c else conn_touch now c, rest)))"

section \<open>Liveness probe\<close>

datatype peek_io = P_Data | P_Eof | P_WouldBlock | P_Failed

definition is_alive :: "bool \<Rightarrow> int \<Rightarrow> peek_io \<Rightarrow> backend_conn \<Rightarrow> bool" where
  "is_alive sockopt_ok err peek c =
     (bc_open c \<and> sockopt_ok \<and> err = 0 \<and> peek \<noteq> P_Failed \<and> peek \<noteq> P_Eof)"

section \<open>Lemmas\<close>

lemma send_loop_all:
  assumes "send_loop script sent len = Some (ok, n)" and "sent \<le> len"
  shows "ok \<longleftrightarrow> len \<le> n"
  using assms
proof (induction script arbitrary: sent)
  case Nil
  then show ?case by (auto simp: send_loop.simps split: if_splits)
next
  case (Cons x s)
  show ?case
  proof (cases "len \<le> sent")
    case True
    then show ?thesis using Cons.prems by (auto simp: send_loop.simps)
  next
    case False
    show ?thesis
    proof (cases x)
      case (S_Sent k)
      show ?thesis
      proof (cases "sent + k \<le> len")
        case True
        then show ?thesis
          using Cons.IH[of "sent + k"] Cons.prems False S_Sent
          by (auto simp: send_loop.simps[of "S_Sent k # s"] split: if_splits)
      next
        case gt: False
        then show ?thesis
          using Cons.prems False S_Sent
          by (auto simp: send_loop.simps[of "S_Sent k # s"] send_loop.simps[of s] split: if_splits)
      qed
    next
      case S_WouldBlock
      then show ?thesis using Cons.IH[of sent] Cons.prems False by (simp add: send_loop.simps[of "S_WouldBlock # s"])
    qed (use Cons.prems False in \<open>auto simp: send_loop.simps[of "_ # s"]\<close>)
  qed
qed

text \<open>A response with its announced length.\<close>

definition framed_response :: "bytes \<Rightarrow> bytes \<Rightarrow> bool" where
  "framed_response head body \<longleftrightarrow>
     find_sub crlf2 (head @ crlf2 @ body) = Some (length head) \<and> announced_length head = length body"

definition recv_expect :: "bytes \<Rightarrow> (nat \<times> nat) option" where
  "recv_expect resp = map_option (\<lambda>he. (he, announced_length (take he resp))) (find_sub crlf2 resp)"

lemma recv_expect_prefix:
  assumes "framed_response head body" and "head @ crlf2 @ body = s @ t"
  shows "recv_expect s = None \<or> recv_expect s = Some (length head, length body)"
proof (cases "find_sub crlf2 s")
  case (Some i)
  then have "find_sub crlf2 (s @ t) = Some i" by (rule find_sub_append_Some)
  with assms have i: "i = length head" by (simp add: framed_response_def)
  have "length head \<le> length s" using find_sub_SomeD[OF Some] i by simp
  then have "take (length head) s = take (length head) (s @ t)" by simp
  also have "\<dots> = head" by (simp flip: assms(2))
  finally show ?thesis using assms(1) Some i by (simp add: recv_expect_def framed_response_def)
qed (simp add: recv_expect_def)

definition recv_at :: "bytes \<Rightarrow> recv_state" where
  "recv_at s = \<lparr>rs_resp = s, rs_got = (s \<noteq> []), rs_expect = recv_expect s\<rparr>"

lemma recv_expect_mono: "recv_expect s = Some e \<Longrightarrow> recv_expect (s @ t) = Some e"
proof -
  assume s: "recv_expect s = Some e"
  then obtain i where i: "find_sub crlf2 s = Some i" by (auto simp: recv_expect_def)
  then have "i \<le> length s" using find_sub_SomeD[OF i] by simp
  with s i show ?thesis by (simp add: recv_expect_def find_sub_append_Some[OF i])
qed

lemma recv_append_at: "d \<noteq> [] \<Longrightarrow> recv_append d (recv_at s) = recv_at (s @ d)"
proof (cases "recv_expect s")
  case None
  assume "d \<noteq> []"
  with None show ?thesis by (simp add: recv_append_def recv_at_def Let_def recv_expect_def[of "s @ d"])
next
  case (Some e)
  assume "d \<noteq> []"
  with Some recv_expect_mono[OF Some, of d] show ?thesis by (simp add: recv_append_def recv_at_def Let_def)
qed

lemma recv_complete_at:
  assumes "framed_response head body" and "head @ crlf2 @ body = s @ t"
  shows "recv_complete (recv_at s) \<longleftrightarrow> t = []"
proof -
  have len: "length s + length t = length head + 4 + length body"
    using arg_cong[OF assms(2), of length] by simp
  show ?thesis
  proof (cases "t = []")
    case True
    then have "recv_expect s = Some (length head, length body)"
      using assms by (auto simp: recv_expect_def framed_response_def)
    with True len show ?thesis by (simp add: recv_complete_def recv_at_def)
  next
    case False
    then have "length s < length head + 4 + length body" using len by (cases t) auto
    with recv_expect_prefix[OF assms] False show ?thesis by (auto simp: recv_complete_def recv_at_def)
  qed
qed

text \<open>A script that delivers \<open>d\<close> in arbitrary non-empty pieces, with would-block results between.\<close>

fun delivers :: "recv_io list \<Rightarrow> bytes \<Rightarrow> bool" where
  "delivers [] d = (d = [])"
| "delivers (R_Data x # s) d = (x \<noteq> [] \<and> prefix x d \<and> delivers s (drop (length x) d))"
| "delivers (R_WouldBlock # s) d = delivers s d"
| "delivers (_ # s) d = False"

lemma recv_loop_framed:
  assumes "framed_response head body" and "head @ crlf2 @ body = s @ t" and "t \<noteq> []" and "delivers script t"
  shows "\<exists>rest. recv_loop (script @ later) (recv_at s) = Some (recv_at (head @ crlf2 @ body), False, rest @ later)
    \<and> delivers rest []"
  using assms(2-4)
proof (induction script t arbitrary: s rule: delivers.induct)
  case (2 x sc t)
  then obtain t' where t: "t = x @ t'" "x \<noteq> []" "delivers sc t'" by (auto simp: prefix_def)
  have e: "head @ crlf2 @ body = (s @ x) @ t'" using "2.prems" t by simp
  show ?case
  proof (cases "t' = []")
    case True
    then show ?thesis
      using recv_complete_at[OF assms(1) e] t e by (simp add: recv_append_at Let_def)
  next
    case False
    then show ?thesis
      using "2.IH"[of "s @ x"] recv_complete_at[OF assms(1) e] t e by (simp add: recv_append_at Let_def)
  qed
qed simp_all

lemma recv_all_framed:
  assumes "framed_response head body" and "bc_open c" and "delivers script (head @ crlf2 @ body)"
  shows "\<exists>rest. recv_all (script @ later) now c = Some (head @ crlf2 @ body, conn_touch now c, rest @ later)
    \<and> delivers rest []"
proof -
  have i: "recv_init = recv_at []"
    by (simp add: recv_init_def recv_at_def recv_expect_def crlf2_def)
  obtain rest where "recv_loop (script @ later) (recv_at []) = Some (recv_at (head @ crlf2 @ body), False, rest @ later)"
    "delivers rest []"
    using recv_loop_framed[OF assms(1) _ _ assms(3), of "[]" later] by auto
  then show ?thesis using assms(2) by (simp add: recv_all_def i) (simp add: recv_at_def)
qed

section \<open>Responses as a backend prints them\<close>

text \<open>A response header: the status line and the field lines, separated by CRLF. One field line is the
  length of the body in decimal, after its name in one of the two spellings that \<^verbatim>\<open>recv_all\<close> looks
  for and any number of spaces; no other line starts with such a name. The length has to fit the
  \<^verbatim>\<open>ssize_t\<close> in which it is accumulated.\<close>

fun join_crlf :: "bytes list \<Rightarrow> bytes" where
  "join_crlf [] = []"
| "join_crlf [l] = l"
| "join_crlf (l # ls) = l @ crlf @ join_crlf ls"

definition length_line :: "bool \<Rightarrow> nat \<Rightarrow> nat \<Rightarrow> bytes" where
  "length_line lower spaces n =
     (if lower then ''content-length:'' else ''Content-Length:'') @ replicate spaces (CHR '' '') @ show_nat n"

definition other_line :: "bytes \<Rightarrow> bool" where
  "other_line l \<longleftrightarrow> clean_line l \<and> \<not> prefix ''Content-Length:'' l \<and> \<not> prefix ''content-length:'' l"

definition response_text :: "bytes \<Rightarrow> bytes list \<Rightarrow> bool \<Rightarrow> nat \<Rightarrow> bytes list \<Rightarrow> bytes \<Rightarrow> bytes" where
  "response_text status before lower spaces after body =
     join_crlf (status # before @ length_line lower spaces (length body) # after) @ crlf2 @ body"

definition wf_response :: "bytes \<Rightarrow> bytes list \<Rightarrow> bytes list \<Rightarrow> bytes \<Rightarrow> bool" where
  "wf_response status before after body \<longleftrightarrow>
     clean_line status \<and> (\<forall>l \<in> set (before @ after). other_line l) \<and> int (length body) < 2 ^ 63"

lemma join_crlf_Cons: "join_crlf (l # ls) = l @ (if ls = [] then [] else crlf @ join_crlf ls)"
  by (cases ls) simp_all

lemma join_crlf_append:
  "ls \<noteq> [] \<Longrightarrow> join_crlf (l # ks @ ls) = join_crlf (l # ks) @ crlf @ join_crlf ls"
proof (induction ks arbitrary: l)
  case Nil
  then show ?case by (simp add: join_crlf_Cons[of l])
next
  case (Cons k ks)
  then show ?case by (simp add: join_crlf_Cons[of l])
qed

lemma join_unlines: "join_crlf (l # ls) @ crlf = unlines_crlf (l # ls)"
proof (induction ls arbitrary: l)
  case (Cons k ks)
  then show ?case by (simp add: join_crlf_Cons[of l])
qed simp

lemma prefix_line: "CR \<notin> set t \<Longrightarrow> prefix t (l @ crlf @ r) \<longleftrightarrow> prefix t l"
proof (induction t arbitrary: l)
  case (Cons c t)
  then show ?case by (cases l) (auto simp: crlf_def)
qed simp

lemma find_tag_join:
  assumes "\<forall>l \<in> set (l0 # ls). CR \<notin> set l" and "\<forall>l \<in> set ls. \<not> prefix t l" and "CR \<notin> set t"
    and "ms = [] \<or> prefix t (hd ms) \<and> CR \<notin> set (hd ms)"
  shows "find_sub (crlf @ t) (join_crlf (l0 # ls @ ms)) =
    (if ms = [] then None else Some (length (join_crlf (l0 # ls))))"
  using assms(1,2)
proof (induction ls arbitrary: l0)
  case Nil
  have "prefix t (join_crlf ms)" if "ms \<noteq> []"
    using that assms(4) by (cases ms) (auto simp: join_crlf_Cons)
  moreover have "find_sub (crlf @ t) l0 = None"
    using Nil.prems(1) by (induction l0) (auto simp: crlf_def)
  ultimately show ?case using Nil.prems(1) by (simp add: join_crlf_Cons[of l0] find_tag_line)
next
  case (Cons k ks)
  have "\<not> prefix t (join_crlf (k # ks @ ms))"
    using Cons.prems(2) assms(3) prefix_line[of t k] by (simp add: join_crlf_Cons[of k])
  then show ?case
    using Cons.IH[of k] Cons.prems by (simp add: join_crlf_Cons[of l0] find_tag_line del: join_crlf.simps)
qed

lemma find_crlf2_join:
  assumes "\<forall>l \<in> set (l0 # ls). clean_line l"
  shows "find_sub crlf2 (join_crlf (l0 # ls) @ crlf2 @ body) = Some (length (join_crlf (l0 # ls)))"
proof -
  have e: "join_crlf (l0 # ls) @ crlf2 @ body = unlines_crlf (l0 # ls) @ crlf @ body"
    using join_unlines[of l0 ls] by (simp add: crlf2_def crlf_def)
  have "length (join_crlf (l0 # ls)) + 2 = length (unlines_crlf (l0 # ls))"
    using join_unlines[of l0 ls, symmetric] by (simp only: length_append length_crlf)
  then show ?thesis unfolding e using find_crlf2_unlines[of "l0 # ls" body] assms by simp
qed

lemma length_line_value:
  assumes "rest = [] \<or> hd rest = CR"
  shows "digits_val (takeWhile is_digit (dropWhile (\<lambda>c. c = CHR '' '') (drop 15 (length_line lower sp n @ rest)))) = n"
proof -
  have d: "drop 15 (length_line lower sp n @ rest) = replicate sp (CHR '' '') @ show_nat n @ rest"
    by (simp add: length_line_def)
  have "\<not> (hd (show_nat n) = CHR '' '')"
    using show_nat_digits[of "hd (show_nat n)" n] by (auto simp: is_digit_def)
  then have "dropWhile (\<lambda>c. c = CHR '' '') (replicate sp (CHR '' '') @ show_nat n @ rest) = show_nat n @ rest"
    by (induction sp) (cases "show_nat n"; simp)+
  moreover have "takeWhile is_digit (show_nat n @ rest) = show_nat n"
    using assms show_nat_digits[of _ n] by (cases rest) (auto simp: takeWhile_append2 is_digit_def CR_def)
  ultimately show ?thesis unfolding d by simp
qed

lemma announced_length_printed:
  assumes "clean_line status" and "\<forall>l \<in> set (before @ after). other_line l"
  shows "announced_length (join_crlf (status # before @ length_line lower sp n # after)) = n"
proof -
  let ?l = "length_line lower sp n" and ?pos = "length (join_crlf (status # before))"
  let ?h = "join_crlf (status # before @ ?l # after)"
  let ?t = "if lower then ''content-length:'' else ''Content-Length:''"
  have nocr: "CR \<notin> set ?l"
    using show_nat_digits[of CR n] by (auto simp: length_line_def CR_def is_digit_def)
  have lines: "\<forall>l \<in> set (status # before). CR \<notin> set l" "\<forall>l \<in> set after. CR \<notin> set l"
    using assms by (auto simp: clean_line_def other_line_def)
  have hit: "find_sub (crlf @ ?t) ?h = Some ?pos"
    using find_tag_join[of status before ?t "?l # after"] assms lines nocr
    by (auto simp: other_line_def length_line_def CR_def)
  have miss: "find_sub cl_tag ?h = None" if lower
    using find_tag_join[of status "before @ ?l # after" "''Content-Length:''" "[]"] assms lines nocr that
    by (auto simp: other_line_def length_line_def CR_def cl_tag_def)
  have tag: "(case find_sub cl_tag ?h of Some i \<Rightarrow> Some i | None \<Rightarrow> find_sub cl_tag_lower ?h) = Some ?pos"
    using hit miss by (cases lower) (simp_all add: cl_tag_def cl_tag_lower_def)
  define rest where "rest = (if after = [] then [] else crlf @ join_crlf after)"
  have "?h = join_crlf (status # before) @ crlf @ ?l @ rest"
    by (simp add: join_crlf_append join_crlf_Cons[of ?l] rest_def)
  then have "drop (?pos + 17) ?h = drop 15 (?l @ rest)" by (simp add: crlf_def del: join_crlf.simps)
  moreover have "rest = [] \<or> hd rest = CR" by (simp add: rest_def crlf_def)
  ultimately show ?thesis using tag length_line_value[of rest lower sp n] by (simp add: announced_length_def)
qed

lemma framed_printed:
  assumes "wf_response status before after body"
  shows "framed_response (join_crlf (status # before @ length_line lower sp (length body) # after)) body"
proof -
  let ?l = "length_line lower sp (length body)"
  have "clean_line ?l"
    using show_nat_digits[of CR] by (auto simp: length_line_def clean_line_def CR_def is_digit_def)
  then have "\<forall>l \<in> set (status # before @ ?l # after). clean_line l"
    using assms by (auto simp: wf_response_def other_line_def)
  from find_crlf2_join[OF this] show ?thesis
    using announced_length_printed[of status before after] assms by (simp add: framed_response_def wf_response_def)
qed

section \<open>Properties\<close>

text \<open>C40: a response that announces its length in a \<^verbatim>\<open>Content-Length\<close> or \<^verbatim>\<open>content-length\<close> field (these
  two spellings are the ones the code looks for) is received exactly: however the network cuts it
  into pieces, \<^verbatim>\<open>recv_all\<close> returns the whole response and not a byte of what follows, and the
  connection stays usable. Between two pieces the reads may find nothing, but no \<^verbatim>\<open>poll\<close> times out.\<close>

theorem recv_all_exact:
  assumes "wf_response status before after body" and "bc_open c"
    and "delivers script (response_text status before lower spaces after body)"
  shows "\<exists>rest. recv_all (script @ later) now c =
      Some (response_text status before lower spaces after body, conn_touch now c, rest @ later)
    \<and> delivers rest []"
  using recv_all_framed[OF framed_printed[OF assms(1)] assms(2)] assms(3) by (simp add: response_text_def)

definition sample_conn :: backend_conn where
  "sample_conn = \<lparr>bc_id = 1, bc_backend = \<lparr>be_host = ''h'', be_port = 1\<rparr>, bc_open = True, bc_last_activity = 0\<rparr>"

definition sample_response :: bytes where
  "sample_response = ''HTTP/1.1 200 OK'' @ crlf @ ''Server: x'' @ crlf @ ''content-length:  12'' @ crlf @ ''A: b'' @ crlf2
     @ ''hello, world''"

theorem recv_all_exact_witness:
  "response_text ''HTTP/1.1 200 OK'' [''Server: x''] True 2 [''A: b''] ''hello, world'' = sample_response
   \<and> (\<exists>rest. recv_all ([R_Data (take 20 sample_response), R_WouldBlock, R_Data (drop 20 sample_response)]
        @ [R_Data ''next'']) 5 sample_conn
      = Some (sample_response, conn_touch 5 sample_conn, rest @ [R_Data ''next'']) \<and> delivers rest [])"
proof
  show eq: "response_text ''HTTP/1.1 200 OK'' [''Server: x''] True 2 [''A: b''] ''hello, world'' = sample_response"
    by code_simp
  show "\<exists>rest. recv_all ([R_Data (take 20 sample_response), R_WouldBlock, R_Data (drop 20 sample_response)]
        @ [R_Data ''next'']) 5 sample_conn
      = Some (sample_response, conn_touch 5 sample_conn, rest @ [R_Data ''next'']) \<and> delivers rest []"
    by (rule recv_all_exact[of "''HTTP/1.1 200 OK''" "[''Server: x'']" "[''A: b'']" "''hello, world''"
          sample_conn _ True 2, unfolded eq]) code_simp+
qed

text \<open>a response without a \<^verbatim>\<open>Content-Length\<close> header (chunked, or ended by closing) is cut off: the
  call returns as soon as the header is complete, with whatever part of the body came in the same
  read. The connection stays open, so it goes back to the pool with the rest of this response still
  to be read, and the next request on it is answered with that rest.\<close>

theorem recv_all_truncates:
  assumes "find_sub crlf2 (head @ crlf2 @ b) = Some (length head)" and "find_sub cl_tag head = None"
    and "find_sub cl_tag_lower head = None" and "bc_open c"
  shows "recv_all (R_Data (head @ crlf2 @ b) # R_Data rest # later) now c =
      Some (head @ crlf2 @ b, conn_touch now c, R_Data rest # later)
    \<and> is_alive True 0 P_Data (conn_touch now c)"
proof -
  have "recv_append (head @ crlf2 @ b) recv_init =
      \<lparr>rs_resp = head @ crlf2 @ b, rs_got = True, rs_expect = Some (length head, 0)\<rparr>"
    using assms(1-3) by (simp add: recv_append_def recv_init_def Let_def announced_length_def)
  then show ?thesis
    using assms(4) by (simp add: recv_all_def Let_def recv_complete_def is_alive_def conn_touch_def)
qed

theorem recv_all_truncates_witness:
  "recv_all (R_Data (''HTTP/1.1 200 OK'' @ crlf2 @ ''he'') # R_Data ''llo'' # []) 5 sample_conn =
      Some (''HTTP/1.1 200 OK'' @ crlf2 @ ''he'', conn_touch 5 sample_conn, R_Data ''llo'' # [])
    \<and> is_alive True 0 P_Data (conn_touch 5 sample_conn)"
  by (rule recv_all_truncates) code_simp+

text \<open>\<^verbatim>\<open>send_all\<close> reports success exactly when every byte was accepted by the kernel.\<close>

theorem send_all_complete:
  assumes "bc_open c" and "send_loop script 0 (length data) = Some (ok, n)"
  shows "send_all script data c = Some (length data \<le> n)"
  using assms send_loop_all[OF assms(2)] by (simp add: send_all_def)

theorem send_all_complete_witness:
  "send_all [S_Sent 2, S_WouldBlock, S_Sent 1] ''abc'' sample_conn = Some (length ''abc'' \<le> 3)"
  by (rule send_all_complete[where ok = True]) code_simp+

end
