(* ===== verification/Gw_Pool.thy ===== *)
theory Gw_Pool
  imports Gw_Backend
begin

text \<open>
  The connection pool of \<^verbatim>\<open>src/src/proxy/backend_pool.cpp\<close> and the proxy of \<^verbatim>\<open>src/src/proxy/proxy.cpp\<close>
  that uses it. The map of pool entries is a total function, since \<^verbatim>\<open>operator[]\<close> creates an empty
  entry and the lookups that do not create one treat a missing entry like an empty one. Each
  critical section is one step: \<^verbatim>\<open>acquire\<close> has two, with the unlocked \<^verbatim>\<open>connect\<close> between them. A connection
  that is handed out belongs to its borrower until it is released or evicted.
\<close>

section \<open>Model of the pool\<close>

record pool_entry =
  pe_idle :: "backend_conn list"
  pe_active :: nat

record backend_pool =
  bp_pools :: "string \<Rightarrow> pool_entry"
  bp_max_idle :: nat
  bp_idle_timeout :: int

definition new_backend_pool :: "nat \<Rightarrow> int \<Rightarrow> backend_pool" where
  "new_backend_pool mx tmo =
     \<lparr>bp_pools = (\<lambda>_. \<lparr>pe_idle = [], pe_active = 0\<rparr>), bp_max_idle = mx, bp_idle_timeout = tmo\<rparr>"

definition put_entry :: "string \<Rightarrow> pool_entry \<Rightarrow> backend_pool \<Rightarrow> backend_pool" where
  "put_entry k e p = p\<lparr>bp_pools := (bp_pools p)(k := e)\<rparr>"

text \<open>The loop that takes the first idle connection that is still alive and drops the dead ones
  before it.\<close>

fun pop_alive :: "(backend_conn \<Rightarrow> bool) \<Rightarrow> int \<Rightarrow> backend_conn list \<Rightarrow> backend_conn option \<times> backend_conn list" where
  "pop_alive alive now [] = (None, [])"
| "pop_alive alive now (c # cs) =
     (if alive c then (Some (conn_touch now c), cs) else pop_alive alive now cs)"

text \<open>The first critical section of \<^verbatim>\<open>acquire\<close>.\<close>

definition acquire_idle ::
  "(backend_conn \<Rightarrow> bool) \<Rightarrow> int \<Rightarrow> backend \<Rightarrow> backend_pool \<Rightarrow> backend_conn option \<times> backend_pool" where
  "acquire_idle alive now b p =
     (let k = make_key b;
          e = bp_pools p k
      in (case pop_alive alive now (pe_idle e) of (c, cs) \<Rightarrow>
            (c, put_entry k \<lparr>pe_idle = cs, pe_active = add64 (pe_active e) 1\<rparr> p)))"

text \<open>The second critical section of \<^verbatim>\<open>acquire\<close>, which takes the count back, and the body of \<^verbatim>\<open>evict\<close>.\<close>

definition drop_active :: "backend \<Rightarrow> backend_pool \<Rightarrow> backend_pool" where
  "drop_active b p =
     (let k = make_key b; e = bp_pools p k in
      if 0 < pe_active e then put_entry k (e\<lparr>pe_active := pe_active e - 1\<rparr>) p else p)"

text \<open>The whole call by one thread, when no other thread comes in between.\<close>

definition acquire ::
  "(backend_conn \<Rightarrow> bool) \<Rightarrow> connect_io \<Rightarrow> int \<Rightarrow> nat \<Rightarrow> backend \<Rightarrow> backend_pool
   \<Rightarrow> backend_conn option \<times> backend_pool" where
  "acquire alive io now new_id b p =
     (case acquire_idle alive now b p of
        (Some c, p1) \<Rightarrow> (Some c, p1)
      | (None, p1) \<Rightarrow>
          (case conn_connect io now (new_backend_conn new_id b) of
             (True, c) \<Rightarrow> (Some c, p1)
           | (False, c) \<Rightarrow> (None, drop_active b p1)))"

definition evict :: "backend \<Rightarrow> backend_conn option \<Rightarrow> backend_pool \<Rightarrow> backend_pool" where
  "evict b c p = (case c of None \<Rightarrow> p | Some _ \<Rightarrow> drop_active b p)"

definition release :: "(backend_conn \<Rightarrow> bool) \<Rightarrow> backend \<Rightarrow> backend_conn option \<Rightarrow> backend_pool \<Rightarrow> backend_pool" where
  "release alive b c p =
     (case c of
        None \<Rightarrow> evict b c p
      | Some conn \<Rightarrow>
          if \<not> alive conn then evict b c p
          else
            let k = make_key b;
                e = bp_pools p k;
                e1 = (if 0 < pe_active e then e\<lparr>pe_active := pe_active e - 1\<rparr> else e)
            in put_entry k
                 (if length (pe_idle e1) < bp_max_idle p then e1\<lparr>pe_idle := pe_idle e1 @ [conn]\<rparr> else e1) p)"

text \<open>The loop over one queue: pop each connection once and push it back unless it has timed out.\<close>

fun cleanup_queue :: "int \<Rightarrow> int \<Rightarrow> nat \<Rightarrow> backend_conn list \<Rightarrow> backend_conn list" where
  "cleanup_queue now tmo 0 q = q"
| "cleanup_queue now tmo (Suc n) q =
     (if tmo \<le> now - bc_last_activity (hd q) then cleanup_queue now tmo n (tl q)
      else cleanup_queue now tmo n (tl q @ [hd q]))"

definition cleanup_idle :: "int \<Rightarrow> backend_pool \<Rightarrow> backend_pool" where
  "cleanup_idle now p =
     p\<lparr>bp_pools := (\<lambda>k. let e = bp_pools p k in
         e\<lparr>pe_idle := cleanup_queue now (bp_idle_timeout p) (length (pe_idle e)) (pe_idle e)\<rparr>)\<rparr>"

text \<open>\<open>conns\<close> are the connections the warm-up tries to open, with the results of opening them.\<close>

definition warm_up ::
  "(backend_conn \<Rightarrow> bool) \<Rightarrow> (backend \<times> connect_io \<times> int \<times> nat) list \<Rightarrow> backend_pool \<Rightarrow> backend_pool" where
  "warm_up alive conns p =
     fold (\<lambda>(b, io, now, i) p.
       case conn_connect io now (new_backend_conn i b) of
         (True, c) \<Rightarrow> release alive b (Some c) p
       | (False, c) \<Rightarrow> p) conns p"

section \<open>Model of the proxy\<close>

definition make_502_response :: bytes where
  "make_502_response =
     ''HTTP/1.1 502 Bad Gateway'' @ crlf @ ''Content-Length: 11'' @ crlf @ ''Connection: close'' @ crlf2
     @ ''Bad Gateway''"

definition nb_send_all :: "send_io list \<Rightarrow> nat \<Rightarrow> int option" where
  "nb_send_all script len =
     map_option (\<lambda>(ok, sent). if ok then int sent else -1) (send_loop script 0 len)"

definition nb_connect :: "connect_io \<Rightarrow> int" where
  "nb_connect io =
     (case io_connect io of
        CR_Connected \<Rightarrow> 0
      | CR_Refused \<Rightarrow> -1
      | CR_InProgress \<Rightarrow>
          if io_poll io \<le> 0 then -1
          else if \<not> io_sockopt_ok io then -1
          else if io_sockopt_err io \<noteq> 0 then -1
          else 0)"

record forward_io =
  fi_alive :: "backend_conn \<Rightarrow> bool"
  fi_connect :: connect_io
  fi_now :: int
  fi_new_id :: nat
  fi_send :: "send_io list"
  fi_recv :: "recv_io list"
  fi_recv_now :: int
  fi_alive_after :: "backend_conn \<Rightarrow> bool"

definition forward_pooled :: "forward_io \<Rightarrow> backend \<Rightarrow> bytes \<Rightarrow> backend_pool \<Rightarrow> (bytes \<times> backend_pool) option" where
  "forward_pooled io b raw_request p =
     (case acquire (fi_alive io) (fi_connect io) (fi_now io) (fi_new_id io) b p of
        (None, p1) \<Rightarrow> Some (make_502_response, p1)
      | (Some c, p1) \<Rightarrow>
          (case send_all (fi_send io) raw_request c of
             None \<Rightarrow> None
           | Some False \<Rightarrow> Some (make_502_response, evict b (Some c) p1)
           | Some True \<Rightarrow>
               (case recv_all (fi_recv io) (fi_recv_now io) c of
                  None \<Rightarrow> None
                | Some (resp, c1, rest) \<Rightarrow>
                    if resp = [] then Some (make_502_response, evict b (Some c1) p1)
                    else Some (resp, release (fi_alive_after io) b (Some c1) p1))))"

fun direct_loop :: "recv_io list \<Rightarrow> bytes \<Rightarrow> bytes option" where
  "direct_loop [] resp = None"
| "direct_loop (R_PollFailed # s) resp = Some resp"
| "direct_loop (R_Data d # s) resp = direct_loop s (resp @ d)"
| "direct_loop (R_Eof # s) resp = Some resp"
| "direct_loop (R_WouldBlock # s) resp = direct_loop s resp"
| "direct_loop (R_Failed # s) resp = Some resp"

definition forward_direct :: "forward_io \<Rightarrow> bytes \<Rightarrow> bytes option" where
  "forward_direct io raw_request =
     (if \<not> io_socket_ok (fi_connect io) then Some make_502_response
      else if \<not> io_address_ok (fi_connect io) then Some make_502_response
      else if nb_connect (fi_connect io) < 0 then Some make_502_response
      else
        (case nb_send_all (fi_send io) (length raw_request) of
           None \<Rightarrow> None
         | Some n \<Rightarrow>
             if n < 0 then Some make_502_response
             else map_option (\<lambda>resp. if resp = [] then make_502_response else resp) (direct_loop (fi_recv io) [])))"

text \<open>\<open>None\<close> for the pool means that none has been set.\<close>

definition forward :: "forward_io \<Rightarrow> backend \<Rightarrow> bytes \<Rightarrow> backend_pool option \<Rightarrow> (bytes \<times> backend_pool option) option" where
  "forward io b raw_request pool =
     (case pool of
        Some p \<Rightarrow> map_option (\<lambda>(r, p'). (r, Some p')) (forward_pooled io b raw_request p)
      | None \<Rightarrow> map_option (\<lambda>r. (r, None)) (forward_direct io raw_request))"

section \<open>Lemmas\<close>


lemma bc_id_touch [simp]: "bc_id (conn_touch now c) = bc_id c"
  by (simp add: conn_touch_def)



lemma drop_active_entry:
  "bp_pools (drop_active b p) k =
     (if k = make_key b then (bp_pools p k)\<lparr>pe_active := pe_active (bp_pools p k) - 1\<rparr> else bp_pools p k)"
  by (auto simp: drop_active_def put_entry_def Let_def)

lemma bp_max_idle_same [simp]:
  "bp_max_idle (drop_active b p) = bp_max_idle p"
  "bp_max_idle (put_entry k e p) = bp_max_idle p"
  by (simp_all add: drop_active_def put_entry_def Let_def)

section \<open>The pool as a system with borrowers\<close>

text \<open>The pool, the connections lent out, and the new connections whose \<^verbatim>\<open>connect\<close> is under way in some
  thread between the two critical sections of \<^verbatim>\<open>acquire\<close>, each with the backend it is for.\<close>

record pool_sys =
  ps_pool :: backend_pool
  ps_out :: "(backend \<times> backend_conn) list"
  ps_connecting :: "(backend \<times> backend_conn) list"

definition idle_ids :: "backend_pool \<Rightarrow> string \<Rightarrow> nat list" where
  "idle_ids p k = map bc_id (pe_idle (bp_pools p k))"

definition out_ids :: "(backend \<times> backend_conn) list \<Rightarrow> nat list" where
  "out_ids out = map (\<lambda>(b, c). bc_id c) out"

definition out_of :: "string \<Rightarrow> (backend \<times> backend_conn) list \<Rightarrow> nat" where
  "out_of k out = length (filter (\<lambda>(b, c). make_key b = k) out)"

text \<open>What the threads of the gateway do with the pool, in the order in which they get the mutex. A
  new connection is a new object. A borrower may have closed or touched the connection it returns,
  but it is the object it was given. (The warm-up, which nothing in the program calls, is left out.)\<close>

definition fresh_id :: "nat \<Rightarrow> pool_sys \<Rightarrow> bool" where
  "fresh_id i s \<longleftrightarrow> i \<notin> set (out_ids (ps_out s @ ps_connecting s)) \<and> (\<forall>k. i \<notin> set (idle_ids (ps_pool s) k))"

definition has_room :: "pool_sys \<Rightarrow> bool" where
  "has_room s \<longleftrightarrow> length (ps_out s) + length (ps_connecting s) + 1 < size_mod"

inductive pool_step :: "pool_sys \<Rightarrow> pool_sys \<Rightarrow> bool" where
  take_idle: "acquire_idle alive now b (ps_pool s) = (Some c, p') \<Longrightarrow> has_room s \<Longrightarrow>
     pool_step s (s\<lparr>ps_pool := p', ps_out := (b, c) # ps_out s\<rparr>)"
| start_connect: "acquire_idle alive now b (ps_pool s) = (None, p') \<Longrightarrow> has_room s \<Longrightarrow> fresh_id i s \<Longrightarrow>
     pool_step s (s\<lparr>ps_pool := p', ps_connecting := (b, new_backend_conn i b) # ps_connecting s\<rparr>)"
| connected: "ps_connecting s = xs @ (b, c) # ys \<Longrightarrow> conn_connect io now c = (True, c') \<Longrightarrow>
     pool_step s (s\<lparr>ps_out := (b, c') # ps_out s, ps_connecting := xs @ ys\<rparr>)"
| connect_failed: "ps_connecting s = xs @ (b, c) # ys \<Longrightarrow> conn_connect io now c = (False, c') \<Longrightarrow>
     pool_step s (s\<lparr>ps_pool := drop_active b (ps_pool s), ps_connecting := xs @ ys\<rparr>)"
| give_back: "ps_out s = xs @ (b, c) # ys \<Longrightarrow> bc_id c' = bc_id c \<Longrightarrow>
     pool_step s (s\<lparr>ps_pool := release alive b (Some c') (ps_pool s), ps_out := xs @ ys\<rparr>)"
| throw_away: "ps_out s = xs @ (b, c) # ys \<Longrightarrow>
     pool_step s (s\<lparr>ps_pool := evict b (Some c') (ps_pool s), ps_out := xs @ ys\<rparr>)"
| tidy: "pool_step s (s\<lparr>ps_pool := cleanup_idle now (ps_pool s)\<rparr>)"

inductive_cases pool_stepE: "pool_step s s'"

definition pool_init :: "nat \<Rightarrow> int \<Rightarrow> pool_sys" where
  "pool_init mx tmo = \<lparr>ps_pool = new_backend_pool mx tmo, ps_out = [], ps_connecting = []\<rparr>"

inductive pool_reachable :: "nat \<Rightarrow> int \<Rightarrow> pool_sys \<Rightarrow> bool" for mx tmo where
  fresh: "pool_reachable mx tmo (pool_init mx tmo)"
| later: "pool_reachable mx tmo s \<Longrightarrow> pool_step s s' \<Longrightarrow> pool_reachable mx tmo s'"


lemma out_of_simps [simp]:
  "out_of k [] = 0" "out_of k ((b, c) # xs) = (if make_key b = k then 1 else 0) + out_of k xs"
  "out_of k (xs @ ys) = out_of k xs + out_of k ys"
  by (simp_all add: out_of_def)

lemma out_ids_simps [simp]:
  "out_ids [] = []" "out_ids ((b, c) # xs) = bc_id c # out_ids xs" "out_ids (xs @ ys) = out_ids xs @ out_ids ys"
  by (simp_all add: out_ids_def)



lemma put_entry_apply [simp]: "bp_pools (put_entry k e p) k' = (if k' = k then e else bp_pools p k')"
  by (simp add: put_entry_def)

lemma put_entry_again [simp]: "put_entry k e (put_entry k e' p) = put_entry k e p"
  by (simp add: put_entry_def)

lemma conn_connect_id: "conn_connect io now (new_backend_conn i b) = (ok, c) \<Longrightarrow> bc_id c = i"
  by (auto simp: conn_connect_def new_backend_conn_def conn_close_def conn_touch_def Let_def
      split: if_splits connect_result.splits)











text \<open>A call of \<^verbatim>\<open>acquire\<close> that no other thread interrupts is a sequence of these steps.\<close>

lemma acquire_steps:
  assumes "acquire alive io now i b (ps_pool s) = (oc, p')" and "has_room s" and "fresh_id i s"
  shows "pool_step\<^sup>*\<^sup>* s (s\<lparr>ps_pool := p', ps_out := (case oc of Some c \<Rightarrow> [(b, c)] | None \<Rightarrow> []) @ ps_out s\<rparr>)"
proof -
  obtain oc1 p1 where ai: "acquire_idle alive now b (ps_pool s) = (oc1, p1)" by fastforce
  show ?thesis
  proof (cases oc1)
    case (Some c)
    then show ?thesis
      using pool_step.take_idle[of alive now b s c p1] ai assms(1,2) by (auto simp: acquire_def)
  next
    case None
    let ?s1 = "s\<lparr>ps_pool := p1, ps_connecting := (b, new_backend_conn i b) # ps_connecting s\<rparr>"
    have 1: "pool_step s ?s1" using ai None assms(2,3) by (intro pool_step.start_connect) simp_all
    obtain ok c where cc: "conn_connect io now (new_backend_conn i b) = (ok, c)" by fastforce
    show ?thesis
    proof (cases ok)
      case True
      then have "pool_step ?s1 (?s1\<lparr>ps_out := (b, c) # ps_out ?s1, ps_connecting := [] @ ps_connecting s\<rparr>)"
        using cc by (intro pool_step.connected) simp_all
      moreover have "oc = Some c" "p' = p1" using ai None assms(1) cc True by (auto simp: acquire_def)
      ultimately show ?thesis using converse_rtranclp_into_rtranclp[of pool_step, OF 1] by fastforce
    next
      case False
      then have "pool_step ?s1 (?s1\<lparr>ps_pool := drop_active b (ps_pool ?s1), ps_connecting := [] @ ps_connecting s\<rparr>)"
        using cc by (intro pool_step.connect_failed) simp_all
      moreover have "oc = None" "p' = drop_active b p1" using ai None assms(1) cc False by (auto simp: acquire_def)
      ultimately show ?thesis using converse_rtranclp_into_rtranclp[of pool_step, OF 1] by fastforce
    qed
  qed
qed

lemma pool_reachable_steps: "pool_step\<^sup>*\<^sup>* s s' \<Longrightarrow> pool_reachable mx tmo s \<Longrightarrow> pool_reachable mx tmo s'"
  by (induction rule: rtranclp_induct) (auto intro: pool_reachable.later)



lemma acquire_some_active:
  assumes "acquire alive io now i b p = (Some c, p')" "pe_active (bp_pools p (make_key b)) + 1 < size_mod"
  shows "pe_active (bp_pools p' k) = pe_active (bp_pools p k) + (if k = make_key b then 1 else 0)"
  using assms by (auto simp: acquire_def acquire_idle_def Let_def split: prod.splits option.splits bool.splits)

lemma acquire_none_active:
  assumes "acquire alive io now i b p = (None, p')" "pe_active (bp_pools p (make_key b)) + 1 < size_mod"
  shows "pe_active (bp_pools p' k) = pe_active (bp_pools p k)"
  using assms
  by (auto simp: acquire_def acquire_idle_def drop_active_entry Let_def split: prod.splits option.splits bool.splits)

lemma evict_active:
  "pe_active (bp_pools (evict b (Some c) p) k) = pe_active (bp_pools p k) - (if k = make_key b then 1 else 0)"
  by (simp add: evict_def drop_active_entry)

lemma release_active:
  "pe_active (bp_pools (release alive b (Some c) p) k) = pe_active (bp_pools p k) - (if k = make_key b then 1 else 0)"
  by (simp add: release_def evict_active Let_def)

lemma forward_pooled_active:
  assumes "forward_pooled io b raw_request p = Some (resp, p')"
    and "pe_active (bp_pools p (make_key b)) + 1 < size_mod"
  shows "resp \<noteq> [] \<and> pe_active (bp_pools p' k) = pe_active (bp_pools p k)"
proof -
  obtain oc p1 where acq: "acquire (fi_alive io) (fi_connect io) (fi_now io) (fi_new_id io) b p = (oc, p1)"
    by fastforce
  have ne: "make_502_response \<noteq> []" by (simp add: make_502_response_def)
  show ?thesis
  proof (cases oc)
    case None
    with assms acq ne acquire_none_active[OF acq[unfolded None] assms(2)] show ?thesis
      by (auto simp: forward_pooled_def)
  next
    case (Some c)
    note act = acquire_some_active[OF acq[unfolded Some] assms(2)]
    from assms(1) acq Some show ?thesis
      by (auto simp: forward_pooled_def ne evict_active release_active act split: option.splits bool.splits if_splits)
  qed
qed

section \<open>Properties\<close>


definition wb :: backend where
  "wb = \<lparr>be_host = ''10.0.0.1'', be_port = 80\<rparr>"

definition wio :: connect_io where
  "wio = \<lparr>io_socket_ok = True, io_address_ok = True, io_connect = CR_Connected, io_poll = 0,
     io_sockopt_ok = True, io_sockopt_err = 0\<rparr>"


text \<open>forwarding through the pool always answers with a non-empty response and returns what it
  borrowed: on every path (no connection to be had, send failed, nothing received, success) the
  active count of every backend is what it was before.\<close>
theorem forward_pooled_returns_connection:
  assumes "forward_pooled io b raw_request p = Some (resp, p')"
    and "pe_active (bp_pools p (make_key b)) + 1 < size_mod"
  shows "resp \<noteq> [] \<and> pe_active (bp_pools p' k) = pe_active (bp_pools p k)"
  using assms by (rule forward_pooled_active)

definition wforward :: forward_io where
  "wforward = \<lparr>fi_alive = (\<lambda>_. True), fi_connect = wio, fi_now = 0, fi_new_id = 0,
     fi_send = [S_Sent 3, S_WouldBlock, S_PollFailed], fi_recv = [], fi_recv_now = 0, fi_alive_after = (\<lambda>_. True)\<rparr>"

theorem forward_pooled_returns_connection_witness:
  "\<exists>p'. forward_pooled wforward wb ''GET /'' (new_backend_pool 2 60) = Some (make_502_response, p')
     \<and> make_502_response \<noteq> [] \<and> pe_active (bp_pools p' (make_key wb)) = 0"
proof -
  have "\<exists>p'. forward_pooled wforward wb ''GET /'' (new_backend_pool 2 60) = Some (make_502_response, p')"
    by (simp add: forward_pooled_def wforward_def wio_def acquire_def acquire_idle_def new_backend_pool_def
        conn_connect_def new_backend_conn_def conn_touch_def send_all_def send_loop.simps Let_def)
  then obtain p' where "forward_pooled wforward wb ''GET /'' (new_backend_pool 2 60) = Some (make_502_response, p')" ..
  with forward_pooled_returns_connection[OF this, of "make_key wb"] show ?thesis
    by (simp add: new_backend_pool_def size_mod_def)
qed

end
