(* ===== verification/Gw_Health.thy ===== *)
theory Gw_Health
  imports Gw_Backend
begin

text \<open>
  The health checker of \<^verbatim>\<open>src/src/proxy/health_checker.cpp\<close>. A probe is one TCP connection attempt;
  the results of its system calls are an argument, as for \<^const>\<open>conn_connect\<close>. The callback for
  status changes is the list of the calls made to it. The hash table is an association list in key
  order.
\<close>

section \<open>Model\<close>

record backend_health =
  bh_backend :: backend
  bh_healthy :: bool
  bh_last_check :: int
  bh_consecutive_failures :: int

record health_checker =
  hc_interval_ms :: int
  hc_connect_timeout_ms :: int
  hc_backends :: "backend_health smap"

definition new_health_checker :: health_checker where
  "new_health_checker = \<lparr>hc_interval_ms = 5000, hc_connect_timeout_ms = 2000, hc_backends = []\<rparr>"

definition set_interval_ms :: "int \<Rightarrow> health_checker \<Rightarrow> health_checker" where
  "set_interval_ms ms hc = hc\<lparr>hc_interval_ms := ms\<rparr>"

definition set_connect_timeout_ms :: "int \<Rightarrow> health_checker \<Rightarrow> health_checker" where
  "set_connect_timeout_ms ms hc = hc\<lparr>hc_connect_timeout_ms := ms\<rparr>"

definition add_backend :: "backend \<Rightarrow> health_checker \<Rightarrow> health_checker" where
  "add_backend b hc =
     (if map_of (hc_backends hc) (make_key b) = None
      then hc\<lparr>hc_backends := smap_put (make_key b)
             \<lparr>bh_backend = b, bh_healthy = False, bh_last_check = 0, bh_consecutive_failures = 0\<rparr> (hc_backends hc)\<rparr>
      else hc)"

definition remove_backend :: "backend \<Rightarrow> health_checker \<Rightarrow> health_checker" where
  "remove_backend b hc = hc\<lparr>hc_backends := filter (\<lambda>(k, bh). k \<noteq> make_key b) (hc_backends hc)\<rparr>"

definition tcp_check :: "connect_io \<Rightarrow> bool" where
  "tcp_check io =
     (if \<not> io_socket_ok io then False
      else if \<not> io_address_ok io then False
      else
        (case io_connect io of
           CR_Connected \<Rightarrow> True
         | CR_Refused \<Rightarrow> False
         | CR_InProgress \<Rightarrow>
             if io_poll io \<le> 0 then False
             else if \<not> io_sockopt_ok io \<or> io_sockopt_err io \<noteq> 0 then False
             else True))"

text \<open>The body of the loop of \<^verbatim>\<open>check_all\<close>: the new record, and the call of the callback if the
  status changed.\<close>

definition check_entry :: "bool \<Rightarrow> int \<Rightarrow> backend_health \<Rightarrow> backend_health \<times> (backend \<times> bool) list" where
  "check_entry now_healthy now bh =
     (let was_healthy = bh_healthy bh;
          bh0 = bh\<lparr>bh_last_check := now\<rparr>;
          bh1 = (if now_healthy then bh0\<lparr>bh_consecutive_failures := 0, bh_healthy := True\<rparr>
                 else
                   let bh2 = bh0\<lparr>bh_consecutive_failures := bh_consecutive_failures bh0 + 1\<rparr> in
                   if 3 \<le> bh_consecutive_failures bh2 then bh2\<lparr>bh_healthy := False\<rparr> else bh2)
      in (bh1, if bh_healthy bh1 \<noteq> was_healthy then [(bh_backend bh1, bh_healthy bh1)] else []))"

definition write_back :: "backend_health \<Rightarrow> health_checker \<Rightarrow> health_checker" where
  "write_back bh hc =
     (let key = make_key (bh_backend bh) in
      if map_of (hc_backends hc) key = None then hc
      else hc\<lparr>hc_backends := smap_put key bh (hc_backends hc)\<rparr>)"

definition check_all ::
  "(backend \<Rightarrow> connect_io) \<Rightarrow> int \<Rightarrow> health_checker \<Rightarrow> health_checker \<times> (backend \<times> bool) list" where
  "check_all io now hc =
     fold (\<lambda>bh (hc, calls).
       case check_entry (tcp_check (io (bh_backend bh))) now bh of
         (bh', evs) \<Rightarrow> (write_back bh' hc, calls @ evs))
       (map snd (hc_backends hc)) (hc, [])"

definition is_healthy :: "backend \<Rightarrow> health_checker \<Rightarrow> bool" where
  "is_healthy b hc = (case map_of (hc_backends hc) (make_key b) of None \<Rightarrow> False | Some bh \<Rightarrow> bh_healthy bh)"

section \<open>One round\<close>

definition hc_ok :: "health_checker \<Rightarrow> bool" where
  "hc_ok hc \<longleftrightarrow> smap_ok (hc_backends hc) \<and> (\<forall>(k, bh) \<in> set (hc_backends hc). k = make_key (bh_backend bh))"

definition probe :: "(backend \<Rightarrow> connect_io) \<Rightarrow> int \<Rightarrow> backend_health \<Rightarrow> backend_health" where
  "probe io now bh = fst (check_entry (tcp_check (io (bh_backend bh))) now bh)"

lemma probe_backend [simp]: "bh_backend (probe io now bh) = bh_backend bh"
  by (simp add: probe_def check_entry_def Let_def)

definition round_step :: "(backend \<Rightarrow> connect_io) \<Rightarrow> int \<Rightarrow> backend_health \<Rightarrow> health_checker \<Rightarrow> health_checker" where
  "round_step io now bh hc = write_back (probe io now bh) hc"

lemma check_all_fst: "fst (check_all io now hc) = fold (round_step io now) (map snd (hc_backends hc)) hc"
proof -
  have "fst (fold (\<lambda>bh (hc, calls). case check_entry (tcp_check (io (bh_backend bh))) now bh of
            (bh', evs) \<Rightarrow> (write_back bh' hc, calls @ evs)) bhs (hc, calls)) = fold (round_step io now) bhs hc" for bhs hc calls
    by (induction bhs arbitrary: hc calls) (simp_all add: round_step_def probe_def case_prod_beta)
  then show ?thesis by (simp add: check_all_def)
qed

lemma set_smap_put: "set (smap_put k v m) \<subseteq> insert (k, v) (set m)"
  by (induction k v m rule: smap_put.induct) auto

lemma hc_ok_put:
  "hc_ok hc \<Longrightarrow> k = make_key (bh_backend bh) \<Longrightarrow> hc_ok (hc\<lparr>hc_backends := smap_put k bh (hc_backends hc)\<rparr>)"
  using set_smap_put[of k bh "hc_backends hc"] by (fastforce simp: hc_ok_def)

lemma round_step_ok: "hc_ok hc \<Longrightarrow> hc_ok (round_step io now bh hc)"
  by (simp add: round_step_def write_back_def Let_def hc_ok_put)

lemma fold_round_ok: "hc_ok hc \<Longrightarrow> hc_ok (fold (round_step io now) bhs hc)"
  by (induction bhs arbitrary: hc) (simp_all add: round_step_ok)

lemma round_step_lookup:
  "map_of (hc_backends (round_step io now bh hc)) k =
     (if k = make_key (bh_backend bh) \<and> map_of (hc_backends hc) k \<noteq> None then Some (probe io now bh)
      else map_of (hc_backends hc) k)"
  by (simp add: round_step_def write_back_def Let_def)

lemma fold_round_other:
  "k \<notin> (make_key \<circ> bh_backend) ` set bhs \<Longrightarrow>
   map_of (hc_backends (fold (round_step io now) bhs hc)) k = map_of (hc_backends hc) k"
  by (induction bhs arbitrary: hc) (simp_all add: round_step_lookup)

lemma fold_round_one:
  "bh \<in> set bhs \<Longrightarrow> distinct (map (make_key \<circ> bh_backend) bhs) \<Longrightarrow>
   map_of (hc_backends hc) (make_key (bh_backend bh)) \<noteq> None \<Longrightarrow>
   map_of (hc_backends (fold (round_step io now) bhs hc)) (make_key (bh_backend bh)) = Some (probe io now bh)"
proof (induction bhs arbitrary: hc)
  case (Cons a bhs)
  show ?case
  proof (cases "bh = a")
    case True
    then show ?thesis using Cons.prems by (simp add: fold_round_other round_step_lookup)
  next
    case False
    then show ?thesis using Cons by (simp add: round_step_lookup)
  qed
qed simp

lemma check_all_lookup:
  assumes "hc_ok hc"
  shows "map_of (hc_backends (fst (check_all io now hc))) k = map_option (probe io now) (map_of (hc_backends hc) k)"
proof -
  let ?m = "hc_backends hc"
  have keys: "map (make_key \<circ> bh_backend) (map snd ?m) = map fst ?m"
    using assms by (fastforce simp: hc_ok_def)
  have dist: "distinct (map fst ?m)" using assms by (simp add: hc_ok_def smap_ok_def strict_sorted_iff)
  show ?thesis
  proof (cases "map_of ?m k")
    case None
    then have "k \<notin> set (map fst ?m)" by (simp add: map_of_eq_None_iff)
    then show ?thesis using None keys by (metis check_all_fst fold_round_other option.map_disc_iff set_map)
  next
    case (Some bh)
    then have "(k, bh) \<in> set ?m" by (rule map_of_SomeD)
    then have "bh \<in> set (map snd ?m)" "k = make_key (bh_backend bh)" using assms by (force simp: hc_ok_def)+
    moreover have "distinct (map (make_key \<circ> bh_backend) (map snd ?m))" by (simp only: keys dist)
    ultimately show ?thesis using Some fold_round_one[of bh "map snd ?m" hc io now] by (simp only: check_all_fst) simp
  qed
qed

section \<open>Many rounds\<close>

definition check_rounds :: "((backend \<Rightarrow> connect_io) \<times> int) list \<Rightarrow> health_checker \<Rightarrow> health_checker" where
  "check_rounds rounds hc = fold (\<lambda>(io, now) hc. fst (check_all io now hc)) rounds hc"

text \<open>The results of the probes of one backend, the newest first.\<close>

definition probes :: "((backend \<Rightarrow> connect_io) \<times> int) list \<Rightarrow> backend \<Rightarrow> bool list" where
  "probes rounds b = rev (map (\<lambda>(io, now). tcp_check (io b)) rounds)"

definition entry_matches :: "bool list \<Rightarrow> backend \<Rightarrow> backend_health \<Rightarrow> bool" where
  "entry_matches h b bh \<longleftrightarrow> bh_backend bh = b \<and> bh_healthy bh = (True \<in> set (take 3 h))
     \<and> bh_consecutive_failures bh = int (length (takeWhile Not h))"

lemma entry_matches_probe:
  assumes "entry_matches h b bh"
  shows "entry_matches (tcp_check (io b) # h) b (probe io now bh)"
proof -
  have "(if 3 \<le> Suc (length (takeWhile Not h)) then False else True \<in> set (take 3 h)) = (True \<in> set (take 2 h))"
    by (cases h rule: remdups_adj.cases) (auto simp: numeral_3_eq_3 numeral_2_eq_2 take_Suc split: list.splits)
  then show ?thesis
    using assms by (auto simp: entry_matches_def probe_def check_entry_def Let_def numeral_3_eq_3 numeral_2_eq_2 split: if_splits)
qed

lemma check_all_ok: "hc_ok hc \<Longrightarrow> hc_ok (fst (check_all io now hc))"
  by (simp add: check_all_fst fold_round_ok)

lemma check_rounds_matches:
  assumes "hc_ok hc" and "map_of (hc_backends hc) (make_key b) = Some bh" and "entry_matches [] b bh"
  shows "\<exists>bh'. map_of (hc_backends (check_rounds rounds hc)) (make_key b) = Some bh' \<and> entry_matches (probes rounds b) b bh'
           \<and> hc_ok (check_rounds rounds hc)"
proof (induction rounds rule: rev_induct)
  case Nil
  then show ?case using assms by (simp add: check_rounds_def probes_def)
next
  case (snoc r rounds)
  obtain io now where r: "r = (io, now)" by fastforce
  from snoc obtain bh' where h: "map_of (hc_backends (check_rounds rounds hc)) (make_key b) = Some bh'"
    "entry_matches (probes rounds b) b bh'" "hc_ok (check_rounds rounds hc)" by blast
  have "check_rounds (rounds @ [r]) hc = fst (check_all io now (check_rounds rounds hc))"
    "probes (rounds @ [r]) b = tcp_check (io b) # probes rounds b"
    by (simp_all add: check_rounds_def probes_def r)
  then show ?case
    using h check_all_lookup[OF h(3), of io now "make_key b"] entry_matches_probe[OF h(2), of io now] check_all_ok[OF h(3)]
    by simp
qed

lemma check_rounds_healthy:
  assumes "hc_ok hc" and "map_of (hc_backends hc) (make_key b) = Some bh" and "entry_matches [] b bh"
  shows "is_healthy b (check_rounds rounds hc)
         \<longleftrightarrow> (\<exists>(io, now) \<in> set (drop (length rounds - 3) rounds). tcp_check (io b))"
proof -
  from check_rounds_matches[OF assms, of rounds]
  have "is_healthy b (check_rounds rounds hc) \<longleftrightarrow> True \<in> set (take 3 (probes rounds b))"
    by (auto simp: is_healthy_def entry_matches_def)
  also have "take 3 (probes rounds b) = rev (map (\<lambda>(io, now). tcp_check (io b)) (drop (length rounds - 3) rounds))"
    by (simp add: probes_def take_rev drop_map)
  finally show ?thesis by force
qed

definition watching :: "backend list \<Rightarrow> health_checker" where
  "watching bs = fold add_backend bs new_health_checker"

lemma watching_entries:
  "hc_ok (watching bs) \<and> (\<forall>k bh. map_of (hc_backends (watching bs)) k = Some bh \<longrightarrow> entry_matches [] (bh_backend bh) bh)
   \<and> (\<forall>b \<in> set bs. map_of (hc_backends (watching bs)) (make_key b) \<noteq> None)"
proof (induction bs rule: rev_induct)
  case Nil
  then show ?case by (simp add: watching_def new_health_checker_def hc_ok_def)
next
  case (snoc b bs)
  have "watching (bs @ [b]) = add_backend b (watching bs)" by (simp add: watching_def)
  with snoc show ?case by (auto simp: add_backend_def hc_ok_put entry_matches_def split: if_splits)
qed

lemma watching_entry:
  assumes "b \<in> set bs"
  obtains bh where "map_of (hc_backends (watching bs)) (make_key b) = Some bh" "entry_matches [] b bh"
proof -
  from watching_entries[of bs] assms obtain bh
    where m: "map_of (hc_backends (watching bs)) (make_key b) = Some bh" by fastforce
  then have "make_key b = make_key (bh_backend bh)"
    using watching_entries[of bs] map_of_SomeD[OF m] by (auto simp: hc_ok_def)
  then have "bh_backend bh = b" by (auto simp: make_key_inject intro: backend.equality)
  then show ?thesis using that m watching_entries[of bs] by blast
qed

section \<open>Property\<close>

text \<open>after any number of rounds of \<open>check_all\<close> a registered backend counts as healthy exactly
  when one of its last three probes connected. One success makes it healthy, three failures in a
  row make it unhealthy, fewer failures do not, and it is unhealthy until its first success; the
  probes of the other backends make no difference.\<close>
theorem healthy_iff_recent_success:
  assumes "b \<in> set bs"
  shows "is_healthy b (check_rounds rounds (watching bs))
         \<longleftrightarrow> (\<exists>(io, now) \<in> set (drop (length rounds - 3) rounds). tcp_check (io b))"
proof -
  obtain bh where bh: "map_of (hc_backends (watching bs)) (make_key b) = Some bh" "entry_matches [] b bh"
    using watching_entry[OF assms] .
  have "hc_ok (watching bs)" using watching_entries by blast
  from check_rounds_healthy[OF this bh] show ?thesis .
qed

definition up_io :: connect_io where
  "up_io = \<lparr>io_socket_ok = True, io_address_ok = True, io_connect = CR_Connected, io_poll = 0,
     io_sockopt_ok = True, io_sockopt_err = 0\<rparr>"

definition wbackend :: backend where "wbackend = \<lparr>be_host = ''10.0.0.1'', be_port = 80\<rparr>"

theorem healthy_iff_recent_success_witness:
  "is_healthy wbackend (check_rounds [(\<lambda>_. up_io, 0), (\<lambda>_. up_io\<lparr>io_connect := CR_Refused\<rparr>, 5),
       (\<lambda>_. up_io\<lparr>io_connect := CR_InProgress\<rparr>, 10)] (watching [wbackend]))
   \<and> \<not> is_healthy wbackend (check_rounds [(\<lambda>_. up_io, 0), (\<lambda>_. up_io\<lparr>io_connect := CR_Refused\<rparr>, 5),
       (\<lambda>_. up_io\<lparr>io_connect := CR_InProgress\<rparr>, 10), (\<lambda>_. up_io\<lparr>io_socket_ok := False\<rparr>, 15)] (watching [wbackend]))"
  using healthy_iff_recent_success[of wbackend "[wbackend]"] by (simp add: up_io_def tcp_check_def)

end
