(* ===== verification/Gw_Stats.thy ===== *)
theory Gw_Stats
  imports Gw_Prelude Complex_Main
begin

text \<open>
  The statistics of \<^verbatim>\<open>src/src/monitor/stats.cpp\<close>. The counters are unsigned 64-bit atomics. The
  operations are given twice: as the effect of a call that nothing interrupts, and, for
  \<^verbatim>\<open>record_request\<close>, as the sequence of atomic accesses a worker thread makes, so that calls
  can interleave. The hash table of routes is an association list kept in key order, since nothing
  computed from it depends on its order; averages are exact rationals instead of \<^verbatim>\<open>double\<close>s.
\<close>

section \<open>State and operations\<close>

record route_stats =
  total_requests :: nat
  success_count :: nat
  error_count :: nat
  latency_sum_ms :: nat
  latency_max_ms :: nat
  in_flight :: nat

definition route_stats_init :: route_stats where
  "route_stats_init = \<lparr>total_requests = 0, success_count = 0, error_count = 0, latency_sum_ms = 0,
     latency_max_ms = 0, in_flight = 0\<rparr>"

definition avg_latency_ms :: "route_stats \<Rightarrow> rat" where
  "avg_latency_ms rs =
     (if total_requests rs = 0 then 0 else of_nat (latency_sum_ms rs) / of_nat (total_requests rs))"

record gateway_stats =
  st_routes :: "route_stats smap"
  st_upstream_errors :: nat
  st_cb_trips :: nat
  st_rate_limited :: nat

definition new_gateway_stats :: gateway_stats where
  "new_gateway_stats = \<lparr>st_routes = [], st_upstream_errors = 0, st_cb_trips = 0, st_rate_limited = 0\<rparr>"

definition get_or_create :: "string \<Rightarrow> gateway_stats \<Rightarrow> route_stats" where
  "get_or_create route st =
     (case map_of (st_routes st) route of Some rs \<Rightarrow> rs | None \<Rightarrow> route_stats_init)"

definition put_route :: "string \<Rightarrow> route_stats \<Rightarrow> gateway_stats \<Rightarrow> gateway_stats" where
  "put_route route rs st = st\<lparr>st_routes := smap_put route rs (st_routes st)\<rparr>"

text \<open>\<^verbatim>\<open>static_cast<uint64_t>\<close> of a signed value.\<close>

definition u64 :: "int \<Rightarrow> nat" where
  "u64 i = nat (i mod 2 ^ 64)"

definition count_request :: "int \<Rightarrow> route_stats \<Rightarrow> route_stats" where
  "count_request latency rs =
     (let rs1 = rs\<lparr>total_requests := add64 (total_requests rs) 1\<rparr>;
          rs2 = rs1\<lparr>latency_sum_ms := add64 (latency_sum_ms rs1) (u64 latency)\<rparr>;
          rs3 = (if latency_max_ms rs2 < u64 latency then rs2\<lparr>latency_max_ms := u64 latency\<rparr> else rs2)
      in if 0 < in_flight rs3 then rs3\<lparr>in_flight := sub64 (in_flight rs3) 1\<rparr> else rs3)"

definition record_request :: "string \<Rightarrow> int \<Rightarrow> gateway_stats \<Rightarrow> gateway_stats" where
  "record_request route latency st = put_route route (count_request latency (get_or_create route st)) st"

definition record_success :: "string \<Rightarrow> gateway_stats \<Rightarrow> gateway_stats" where
  "record_success route st =
     (let rs = get_or_create route st in put_route route (rs\<lparr>success_count := add64 (success_count rs) 1\<rparr>) st)"

definition record_error :: "string \<Rightarrow> gateway_stats \<Rightarrow> gateway_stats" where
  "record_error route st =
     (let rs = get_or_create route st in put_route route (rs\<lparr>error_count := add64 (error_count rs) 1\<rparr>) st)"

definition inc_upstream_errors :: "gateway_stats \<Rightarrow> gateway_stats" where
  "inc_upstream_errors st = st\<lparr>st_upstream_errors := add64 (st_upstream_errors st) 1\<rparr>"

definition inc_circuit_breaker_trips :: "gateway_stats \<Rightarrow> gateway_stats" where
  "inc_circuit_breaker_trips st = st\<lparr>st_cb_trips := add64 (st_cb_trips st) 1\<rparr>"

definition inc_rate_limited :: "gateway_stats \<Rightarrow> gateway_stats" where
  "inc_rate_limited st = st\<lparr>st_rate_limited := add64 (st_rate_limited st) 1\<rparr>"

definition stats_reset_all :: "gateway_stats \<Rightarrow> gateway_stats" where
  "stats_reset_all st = st\<lparr>st_routes := [], st_upstream_errors := 0, st_cb_trips := 0, st_rate_limited := 0\<rparr>"

record route_snapshot_data =
  rsn_total_requests :: nat
  rsn_success_count :: nat
  rsn_error_count :: nat
  rsn_latency_sum_ms :: nat
  rsn_latency_max_ms :: nat
  rsn_in_flight :: nat
  rsn_avg_latency_ms :: rat

definition snapshot_route :: "route_stats \<Rightarrow> route_snapshot_data" where
  "snapshot_route rs =
     \<lparr>rsn_total_requests = total_requests rs, rsn_success_count = success_count rs,
      rsn_error_count = error_count rs, rsn_latency_sum_ms = latency_sum_ms rs,
      rsn_latency_max_ms = latency_max_ms rs, rsn_in_flight = in_flight rs,
      rsn_avg_latency_ms =
        (if 0 < total_requests rs then of_nat (latency_sum_ms rs) / of_nat (total_requests rs) else 0)\<rparr>"

definition route_snapshot :: "gateway_stats \<Rightarrow> route_snapshot_data smap" where
  "route_snapshot st = map (\<lambda>(name, rs). (name, snapshot_route rs)) (st_routes st)"

record stats_snapshot =
  sn_total_requests :: nat
  sn_total_success :: nat
  sn_total_errors :: nat
  sn_avg_latency_ms :: rat
  sn_max_latency_ms :: nat
  sn_in_flight :: nat
  sn_upstream_errors :: nat
  sn_circuit_breaker_trips :: nat
  sn_rate_limited :: nat

text \<open>The accumulators of the loop over the routes, as one record of the same shape.\<close>

definition add_route :: "route_stats \<Rightarrow> route_stats \<Rightarrow> route_stats" where
  "add_route rs acc =
     \<lparr>total_requests = add64 (total_requests acc) (total_requests rs),
      success_count = add64 (success_count acc) (success_count rs),
      error_count = add64 (error_count acc) (error_count rs),
      latency_sum_ms = add64 (latency_sum_ms acc) (latency_sum_ms rs),
      latency_max_ms = (if latency_max_ms acc < latency_max_ms rs then latency_max_ms rs else latency_max_ms acc),
      in_flight = add64 (in_flight acc) (in_flight rs)\<rparr>"

definition sum_routes :: "route_stats smap \<Rightarrow> route_stats" where
  "sum_routes m = fold (\<lambda>(name, rs). add_route rs) m route_stats_init"

definition global_snapshot :: "gateway_stats \<Rightarrow> stats_snapshot" where
  "global_snapshot st =
     (let acc = sum_routes (st_routes st) in
      \<lparr>sn_total_requests = total_requests acc, sn_total_success = success_count acc,
       sn_total_errors = error_count acc,
       sn_avg_latency_ms =
         (if 0 < total_requests acc then of_nat (latency_sum_ms acc) / of_nat (total_requests acc) else 0),
       sn_max_latency_ms = latency_max_ms acc, sn_in_flight = in_flight acc,
       sn_upstream_errors = st_upstream_errors st, sn_circuit_breaker_trips = st_cb_trips st,
       sn_rate_limited = st_rate_limited st\<rparr>)"

section \<open>The atomic accesses of \<^verbatim>\<open>record_request\<close>\<close>

text \<open>Where a thread is in the function: before the two additions, before it loads the maximum, in
  the compare-and-exchange loop with the value it last saw, before it tests and before it
  decrements the number of requests in flight, and at the end.\<close>

datatype rec_pc = PC_Total | PC_Sum | PC_LoadMax | PC_Cas nat | PC_TestFlight | PC_SubFlight | PC_Done

record rec_thread =
  th_latency :: nat
  th_pc :: rec_pc

text \<open>\<open>spurious\<close>: whether a weak compare-and-exchange fails although the values agree. A failed
  exchange reloads the value it compared with.\<close>

definition rec_step :: "bool \<Rightarrow> rec_thread \<Rightarrow> route_stats \<Rightarrow> rec_thread \<times> route_stats" where
  "rec_step spurious t rs =
     (case th_pc t of
        PC_Total \<Rightarrow> (t\<lparr>th_pc := PC_Sum\<rparr>, rs\<lparr>total_requests := add64 (total_requests rs) 1\<rparr>)
      | PC_Sum \<Rightarrow> (t\<lparr>th_pc := PC_LoadMax\<rparr>, rs\<lparr>latency_sum_ms := add64 (latency_sum_ms rs) (th_latency t)\<rparr>)
      | PC_LoadMax \<Rightarrow> (t\<lparr>th_pc := PC_Cas (latency_max_ms rs)\<rparr>, rs)
      | PC_Cas seen \<Rightarrow>
          if seen < th_latency t then
            (if latency_max_ms rs = seen \<and> \<not> spurious
             then (t\<lparr>th_pc := PC_TestFlight\<rparr>, rs\<lparr>latency_max_ms := th_latency t\<rparr>)
             else (t\<lparr>th_pc := PC_Cas (latency_max_ms rs)\<rparr>, rs))
          else (t\<lparr>th_pc := PC_TestFlight\<rparr>, rs)
      | PC_TestFlight \<Rightarrow> (t\<lparr>th_pc := (if 0 < in_flight rs then PC_SubFlight else PC_Done)\<rparr>, rs)
      | PC_SubFlight \<Rightarrow> (t\<lparr>th_pc := PC_Done\<rparr>, rs\<lparr>in_flight := sub64 (in_flight rs) 1\<rparr>)
      | PC_Done \<Rightarrow> (t, rs))"

text \<open>A schedule names the thread that makes the next access; an index without a thread does
  nothing.\<close>

fun rec_run :: "(nat \<times> bool) list \<Rightarrow> rec_thread list \<Rightarrow> route_stats \<Rightarrow> rec_thread list \<times> route_stats" where
  "rec_run [] ts rs = (ts, rs)"
| "rec_run ((i, sp) # sched) ts rs =
     (if i < length ts then (case rec_step sp (ts ! i) rs of (t, rs') \<Rightarrow> rec_run sched (ts[i := t]) rs')
      else rec_run sched ts rs)"

definition rec_start :: "int \<Rightarrow> rec_thread" where
  "rec_start latency = \<lparr>th_latency = u64 latency, th_pc = PC_Total\<rparr>"

section \<open>Interleaved calls\<close>

definition past_total :: "rec_thread \<Rightarrow> nat" where
  "past_total t = (if th_pc t = PC_Total then 0 else 1)"

definition past_sum :: "rec_thread \<Rightarrow> nat" where
  "past_sum t = (if th_pc t = PC_Total \<or> th_pc t = PC_Sum then 0 else th_latency t)"

text \<open>What a thread knows about the maximum.\<close>

definition knows_max :: "nat \<Rightarrow> rec_thread \<Rightarrow> bool" where
  "knows_max m t \<longleftrightarrow>
     (case th_pc t of
        PC_Cas seen \<Rightarrow> seen \<le> m
      | PC_TestFlight \<Rightarrow> th_latency t \<le> m
      | PC_Done \<Rightarrow> th_latency t \<le> m
      | PC_SubFlight \<Rightarrow> False
      | _ \<Rightarrow> True)"

definition rec_inv :: "route_stats \<Rightarrow> nat list \<Rightarrow> rec_thread list \<Rightarrow> route_stats \<Rightarrow> bool" where
  "rec_inv rs0 lats ts rs \<longleftrightarrow>
     map th_latency ts = lats
     \<and> total_requests rs = (total_requests rs0 + sum_list (map past_total ts)) mod size_mod
     \<and> latency_sum_ms rs = (latency_sum_ms rs0 + sum_list (map past_sum ts)) mod size_mod
     \<and> latency_max_ms rs0 \<le> latency_max_ms rs \<and> latency_max_ms rs \<in> insert (latency_max_ms rs0) (set lats)
     \<and> (\<forall>t \<in> set ts. knows_max (latency_max_ms rs) t)
     \<and> in_flight rs = 0 \<and> success_count rs = success_count rs0 \<and> error_count rs = error_count rs0"

lemma sum_list_map_update:
  "i < length ts \<Longrightarrow> f t = f (ts ! i) + (d :: nat) \<Longrightarrow> sum_list (map f (ts[i := t])) = sum_list (map f ts) + d"
proof (induction ts arbitrary: i)
  case (Cons a ts)
  then show ?case by (cases i) simp_all
qed simp

lemma knows_max_mono: "knows_max m t \<Longrightarrow> m \<le> n \<Longrightarrow> knows_max n t"
  by (auto simp: knows_max_def split: rec_pc.splits)

text \<open>One access: the two sums move by what the thread contributes, the maximum only grows.\<close>

lemma rec_step_effect:
  assumes "rec_step sp t rs = (t', rs')" and "knows_max (latency_max_ms rs) t" and "in_flight rs = 0"
    and "total_requests rs < size_mod" and "latency_sum_ms rs < size_mod"
  shows "th_latency t' = th_latency t" "in_flight rs' = 0"
    "success_count rs' = success_count rs" "error_count rs' = error_count rs"
    "\<exists>d. past_total t' = past_total t + d \<and> total_requests rs' = (total_requests rs + d) mod size_mod"
    "\<exists>d. past_sum t' = past_sum t + d \<and> latency_sum_ms rs' = (latency_sum_ms rs + d) mod size_mod"
    "latency_max_ms rs \<le> latency_max_ms rs'" "latency_max_ms rs' = latency_max_ms rs \<or> latency_max_ms rs' = th_latency t"
    "knows_max (latency_max_ms rs') t'"
  using assms
  by (auto simp: rec_step_def knows_max_def past_total_def past_sum_def add64_def split: rec_pc.splits if_splits)

lemma mod_size_lt [simp]: "a mod size_mod < size_mod"
  by (simp add: size_mod_def)

lemma rec_inv_step:
  assumes inv: "rec_inv rs0 lats ts rs" and i: "i < length ts" and st: "rec_step sp (ts ! i) rs = (t', rs')"
  shows "rec_inv rs0 lats (ts[i := t']) rs'"
proof -
  let ?t = "ts ! i"
  have k: "knows_max (latency_max_ms rs) ?t" "in_flight rs = 0" "total_requests rs < size_mod" "latency_sum_ms rs < size_mod"
    using inv i by (simp_all add: rec_inv_def)
  note e = rec_step_effect[OF st k]
  have lats: "map th_latency ts = lats" using inv by (simp add: rec_inv_def)
  have lat: "map th_latency (ts[i := t']) = lats"
    using e(1) i by (simp add: lats[symmetric] map_update list_update_same_conv)
  obtain d where d: "past_total t' = past_total ?t + d" "total_requests rs' = (total_requests rs + d) mod size_mod"
    using e(5) by blast
  have tot: "total_requests rs' = (total_requests rs0 + sum_list (map past_total (ts[i := t']))) mod size_mod"
    using inv d(2) sum_list_map_update[of i ts past_total, OF i d(1)]
    by (simp add: rec_inv_def mod_simps add.assoc)
  obtain c where c: "past_sum t' = past_sum ?t + c" "latency_sum_ms rs' = (latency_sum_ms rs + c) mod size_mod"
    using e(6) by blast
  have sum: "latency_sum_ms rs' = (latency_sum_ms rs0 + sum_list (map past_sum (ts[i := t']))) mod size_mod"
    using inv c(2) sum_list_map_update[of i ts past_sum, OF i c(1)]
    by (simp add: rec_inv_def mod_simps add.assoc)
  have "th_latency ?t \<in> set lats" using i by (auto simp: lats[symmetric])
  then have mx: "latency_max_ms rs' \<in> insert (latency_max_ms rs0) (set lats)"
    using inv e(8) by (auto simp: rec_inv_def)
  have know: "knows_max (latency_max_ms rs') t" if "t \<in> set (ts[i := t'])" for t
    using that inv e(9) knows_max_mono[OF _ e(7)] set_update_subset_insert[of ts i t']
    by (auto simp: rec_inv_def)
  show ?thesis using lat tot sum mx know e(2-4,7) inv by (auto simp: rec_inv_def intro: order_trans)
qed

lemma rec_run_inv: "rec_run sched ts rs = (ts', rs') \<Longrightarrow> rec_inv rs0 lats ts rs \<Longrightarrow> rec_inv rs0 lats ts' rs'"
proof (induction sched ts rs rule: rec_run.induct)
  case (2 i sp sched ts rs)
  then show ?case using rec_inv_step[of rs0 lats ts rs i sp] by (auto split: if_splits prod.splits)
qed simp

lemma count_request_max:
  "in_flight rs = 0 \<Longrightarrow> count_request l rs =
     rs\<lparr>total_requests := add64 (total_requests rs) 1, latency_sum_ms := add64 (latency_sum_ms rs) (u64 l),
        latency_max_ms := max (latency_max_ms rs) (u64 l)\<rparr>"
  by (simp add: count_request_def Let_def max_def)

lemma fold_count_request:
  "in_flight rs = 0 \<Longrightarrow> total_requests rs < size_mod \<Longrightarrow> latency_sum_ms rs < size_mod \<Longrightarrow>
   fold count_request lats rs =
     rs\<lparr>total_requests := (total_requests rs + length lats) mod size_mod,
        latency_sum_ms := (latency_sum_ms rs + sum_list (map u64 lats)) mod size_mod,
        latency_max_ms := Max (insert (latency_max_ms rs) (set (map u64 lats)))\<rparr>"
proof (induction lats arbitrary: rs)
  case (Cons l lats)
  have M: "Max (insert (max a b) S) = Max (insert a (insert b S))" if "finite S" for a b :: nat and S
    using that by (cases "S = {}") (simp_all add: max.assoc)
  show ?case
    using Cons.prems by (simp add: count_request_max Cons.IH M add64_def mod_simps add.assoc)
qed simp

section \<open>Properties\<close>

text \<open>C29: calls of \<open>record_request\<close> that interleave in any way - the threads' atomic additions and
  compare-and-exchange retries in any order, exchanges failing spuriously as often as they like -
  leave the counters of the route exactly as if the calls had been made one after the other: no
  request is lost, no latency is lost, and the maximum is the largest latency.\<close>
theorem record_request_linearizable:
  assumes "rec_run sched (map rec_start lats) rs = (ts, rs')" and "\<forall>t \<in> set ts. th_pc t = PC_Done"
    and "in_flight rs = 0" and "total_requests rs < size_mod" and "latency_sum_ms rs < size_mod"
  shows "rs' = fold count_request lats rs"
proof -
  have "rec_inv rs (map u64 lats) (map rec_start lats) rs"
    using assms(3-5) by (simp add: rec_inv_def rec_start_def past_total_def past_sum_def knows_max_def comp_def)
  from rec_run_inv[OF assms(1) this] have inv: "rec_inv rs (map u64 lats) ts rs'" .
  have len: "length ts = length lats" using inv unfolding rec_inv_def by (metis length_map)
  have fin: "map past_total ts = map (\<lambda>_. 1) ts" "map past_sum ts = map th_latency ts"
    using assms(2) by (simp_all add: past_total_def past_sum_def)
  have le: "l \<le> latency_max_ms rs'" if "l \<in> set (map u64 lats)" for l
  proof -
    from that inv obtain t where "t \<in> set ts" "l = th_latency t"
      by (metis (no_types, lifting) image_iff rec_inv_def set_map)
    then show ?thesis using inv assms(2) by (auto simp: rec_inv_def knows_max_def)
  qed
  have "latency_max_ms rs' = Max (insert (latency_max_ms rs) (set (map u64 lats)))"
    using inv le by (intro Max_eqI[symmetric]) (auto simp: rec_inv_def)
  moreover have "sum_list (map past_total ts) = length lats"
    by (simp only: fin(1)) (simp add: sum_list_triv len)
  moreover have "map past_sum ts = map u64 lats" using inv by (simp only: fin(2)) (simp add: rec_inv_def)
  ultimately show ?thesis
    using inv assms(3-5) by (simp add: fold_count_request rec_inv_def)
qed

theorem record_request_linearizable_witness:
  "snd (rec_run [(0, False), (1, False), (1, False), (0, False), (1, False), (0, False), (0, False), (0, False),
       (1, False), (1, True), (1, False), (1, False)] (map rec_start [7, 9]) route_stats_init)
     = fold count_request [7, 9] route_stats_init
   \<and> latency_max_ms (fold count_request [7, 9] route_stats_init) = 9"
proof -
  let ?sched = "[(0, False), (1, False), (1, False), (0, False), (1, False), (0, False), (0, False), (0, False),
       (1, False), (1, True), (1, False), (1, False)]"
  let ?ts = "[\<lparr>th_latency = 7, th_pc = PC_Done\<rparr>, \<lparr>th_latency = 9, th_pc = PC_Done\<rparr>]"
  let ?rs = "route_stats_init\<lparr>total_requests := 2, latency_sum_ms := 16, latency_max_ms := 9\<rparr>"
  have run: "rec_run ?sched (map rec_start [7, 9]) route_stats_init = (?ts, ?rs)"
    by (simp add: rec_start_def rec_step_def route_stats_init_def add64_def size_mod_def u64_def)
  have seq: "?rs = fold count_request [7, 9] route_stats_init"
    using record_request_linearizable[OF run] by (simp add: route_stats_init_def size_mod_def)
  show ?thesis unfolding run seq[symmetric] by simp
qed

section \<open>Histories\<close>

text \<open>The calls the gateway makes.\<close>

datatype (discs_sels) stats_event = E_Request string int | E_Success string | E_Error string | E_Upstream | E_Trip | E_Limited

fun stats_step :: "stats_event \<Rightarrow> gateway_stats \<Rightarrow> gateway_stats" where
  "stats_step (E_Request r l) st = record_request r l st"
| "stats_step (E_Success r) st = record_success r st"
| "stats_step (E_Error r) st = record_error r st"
| "stats_step E_Upstream st = inc_upstream_errors st"
| "stats_step E_Trip st = inc_circuit_breaker_trips st"
| "stats_step E_Limited st = inc_rate_limited st"

text \<open>What one call adds to the counters of its route.\<close>

fun event_counts :: "stats_event \<Rightarrow> route_stats" where
  "event_counts (E_Request r l) = route_stats_init\<lparr>total_requests := 1, latency_sum_ms := u64 l, latency_max_ms := u64 l\<rparr>"
| "event_counts (E_Success r) = route_stats_init\<lparr>success_count := 1\<rparr>"
| "event_counts (E_Error r) = route_stats_init\<lparr>error_count := 1\<rparr>"
| "event_counts _ = route_stats_init"

definition route_ok :: "route_stats \<Rightarrow> bool" where
  "route_ok rs \<longleftrightarrow> total_requests rs < size_mod \<and> success_count rs < size_mod \<and> error_count rs < size_mod
     \<and> latency_sum_ms rs < size_mod \<and> in_flight rs = 0"

definition stats_ok :: "gateway_stats \<Rightarrow> bool" where
  "stats_ok st \<longleftrightarrow> smap_ok (st_routes st) \<and> (\<forall>(k, rs) \<in> set (st_routes st). route_ok rs)"

lemma add_route_left_comm: "add_route a (add_route b c) = add_route b (add_route a c)"
  by (simp add: add_route_def add64_def mod_simps ac_simps)

lemma add_route_assoc: "add_route (add_route d rs) acc = add_route d (add_route rs acc)"
  by (simp add: add_route_def add64_def mod_simps ac_simps)

lemma add_route_init: "add_route (add_route d route_stats_init) acc = add_route d acc"
  by (simp add: add_route_def add64_def route_stats_init_def mod_simps)

lemma fold_add_route:
  "fold (\<lambda>(name, rs). add_route rs) m (add_route d acc) = add_route d (fold (\<lambda>(name, rs). add_route rs) m acc)"
proof (induction m arbitrary: acc)
  case (Cons x m)
  then show ?case using add_route_left_comm[of "snd x" d acc] by (simp add: case_prod_beta)
qed simp

lemma sum_routes_bump:
  assumes "smap_ok m"
  shows "sum_routes (smap_put k (add_route d (case map_of m k of Some rs \<Rightarrow> rs | None \<Rightarrow> route_stats_init)) m)
         = add_route d (sum_routes m)"
proof -
  have "fold (\<lambda>(name, rs). add_route rs) (smap_put k (add_route d (case map_of m k of Some rs \<Rightarrow> rs | None \<Rightarrow> route_stats_init)) m) acc
        = add_route d (fold (\<lambda>(name, rs). add_route rs) m acc)" for acc
    using assms
  proof (induction m arbitrary: acc)
    case Nil
    then show ?case by (simp add: add_route_init)
  next
    case (Cons x m)
    obtain a b where x: "x = (a, b)" by fastforce
    consider "k < a" | "k = a" | "a < k" by fastforce
    then show ?case
    proof cases
      case 1
      then have "map_of m k = None" using Cons.prems by (auto simp: x smap_ok_Cons map_of_eq_None_iff)
      with 1 show ?thesis using fold_add_route[of m d "add_route b acc"] add_route_left_comm[of b d acc]
        by (simp add: x add_route_init)
    next
      case 3
      then show ?thesis using Cons by (simp add: x smap_ok_Cons)
    qed (simp add: x add_route_assoc fold_add_route)
  qed
  then show ?thesis by (simp add: sum_routes_def)
qed

lemma route_ok_get: "stats_ok st \<Longrightarrow> route_ok (get_or_create r st)"
  by (auto simp: stats_ok_def get_or_create_def route_ok_def route_stats_init_def size_mod_def
      split: option.split dest!: map_of_SomeD)

text \<open>A call on a route adds its counts to the entry of the route.\<close>

lemma put_route_bump:
  assumes "stats_ok st" and "rs = add_route d (get_or_create r st)" and "route_ok rs"
  shows "sum_routes (st_routes (put_route r rs st)) = add_route d (sum_routes (st_routes st))"
    and "stats_ok (put_route r rs st)"
proof -
  show "sum_routes (st_routes (put_route r rs st)) = add_route d (sum_routes (st_routes st))"
    using assms sum_routes_bump[of "st_routes st" r d] by (simp add: put_route_def get_or_create_def stats_ok_def)
  have "set (smap_put r rs m) \<subseteq> insert (r, rs) (set m)" for m
    by (induction r rs m rule: smap_put.induct) auto
  then show "stats_ok (put_route r rs st)"
    using assms by (fastforce simp: stats_ok_def put_route_def)
qed

lemma step_as_bump:
  assumes "route_ok rs"
  shows "count_request l rs = add_route (event_counts (E_Request r l)) rs"
    "rs\<lparr>success_count := add64 (success_count rs) 1\<rparr> = add_route (event_counts (E_Success r)) rs"
    "rs\<lparr>error_count := add64 (error_count rs) 1\<rparr> = add_route (event_counts (E_Error r)) rs"
    "route_ok (add_route d rs) \<longleftrightarrow> add64 0 (in_flight d) = 0"
  using assms by (auto simp: route_ok_def count_request_max add_route_def route_stats_init_def add64_def max_def)

text \<open>The latencies of a history, and how often a kind of call occurs in it.\<close>

fun latencies :: "stats_event list \<Rightarrow> nat list" where
  "latencies [] = []"
| "latencies (E_Request r l # es) = u64 l # latencies es"
| "latencies (_ # es) = latencies es"

definition occurs :: "(stats_event \<Rightarrow> bool) \<Rightarrow> stats_event list \<Rightarrow> nat" where
  "occurs P es = length (filter P es) mod size_mod"

definition history_counts :: "stats_event list \<Rightarrow> route_stats" where
  "history_counts es = \<lparr>total_requests = occurs is_E_Request es, success_count = occurs is_E_Success es,
     error_count = occurs is_E_Error es, latency_sum_ms = sum_list (latencies es) mod size_mod,
     latency_max_ms = fold max (latencies es) 0, in_flight = 0\<rparr>"

lemma latencies_append [simp]: "latencies (xs @ ys) = latencies xs @ latencies ys"
  by (induction xs rule: latencies.induct) simp_all

lemma occurs_snoc: "occurs P (es @ [e]) = (if P e then add64 (occurs P es) 1 else occurs P es)"
  by (simp add: occurs_def add64_def mod_simps)

lemma history_counts_snoc: "history_counts (es @ [e]) = add_route (event_counts e) (history_counts es)"
  by (cases e) (auto simp: history_counts_def add_route_def occurs_snoc route_stats_init_def add64_def mod_simps max_def
      occurs_def)

lemma stats_step_routes:
  assumes "stats_ok st" and "add_route route_stats_init (sum_routes (st_routes st)) = sum_routes (st_routes st)"
  shows "stats_ok (stats_step e st)"
    "sum_routes (st_routes (stats_step e st)) = add_route (event_counts e) (sum_routes (st_routes st))"
proof -
  have flight: "add64 0 (in_flight (event_counts e)) = 0"
    by (cases e) (simp_all add: route_stats_init_def add64_def)
  have ok: "route_ok (get_or_create r st)" for r using route_ok_get[OF assms(1)] .
  have bump: "route_ok (add_route (event_counts e) (get_or_create r st))" for r
    using step_as_bump(4)[OF ok] flight by blast
  note b = put_route_bump[OF assms(1) refl bump]
  show "stats_ok (stats_step e st)"
    using b(2) assms(1) step_as_bump(1-3)[OF ok]
    by (cases e) (simp_all add: record_request_def record_success_def record_error_def Let_def stats_ok_def
        inc_upstream_errors_def inc_circuit_breaker_trips_def inc_rate_limited_def)
  show "sum_routes (st_routes (stats_step e st)) = add_route (event_counts e) (sum_routes (st_routes st))"
    using b(1) assms(2) step_as_bump(1-3)[OF ok]
    by (cases e) (simp_all add: record_request_def record_success_def record_error_def Let_def
        inc_upstream_errors_def inc_circuit_breaker_trips_def inc_rate_limited_def)
qed

lemma add_init_history: "add_route route_stats_init (history_counts es) = history_counts es"
  by (simp add: add_route_def route_stats_init_def history_counts_def add64_def occurs_def)

lemma stats_history:
  "stats_ok (fold stats_step es new_gateway_stats)
   \<and> sum_routes (st_routes (fold stats_step es new_gateway_stats)) = history_counts es"
proof (induction es rule: rev_induct)
  case Nil
  then show ?case
    by (simp add: new_gateway_stats_def stats_ok_def sum_routes_def history_counts_def occurs_def route_stats_init_def)
next
  case (snoc e es)
  let ?st = "fold stats_step es new_gateway_stats"
  have "add_route route_stats_init (sum_routes (st_routes ?st)) = sum_routes (st_routes ?st)"
    using snoc add_init_history by simp
  with snoc show ?case using stats_step_routes[of ?st e] by (simp add: history_counts_snoc)
qed

lemma stats_history_globals:
  "st_upstream_errors (fold stats_step es new_gateway_stats) = occurs ((=) E_Upstream) es
   \<and> st_cb_trips (fold stats_step es new_gateway_stats) = occurs ((=) E_Trip) es
   \<and> st_rate_limited (fold stats_step es new_gateway_stats) = occurs ((=) E_Limited) es"
proof (induction es rule: rev_induct)
  case (snoc e es)
  then show ?case
    by (cases e) (simp_all add: occurs_snoc record_request_def record_success_def record_error_def put_route_def Let_def
        inc_upstream_errors_def inc_circuit_breaker_trips_def inc_rate_limited_def)
qed (simp add: new_gateway_stats_def occurs_def)

text \<open>the global snapshot agrees with the history. However the calls are spread over routes, the
  totals it reports are the numbers of calls made (modulo \<open>2 ^ 64\<close>), its maximum is the largest
  latency recorded, and its average is the exact quotient of the recorded sum and the count.\<close>
theorem global_snapshot_history:
  "global_snapshot (fold stats_step es new_gateway_stats) =
     \<lparr>sn_total_requests = length (filter is_E_Request es) mod size_mod,
      sn_total_success = length (filter is_E_Success es) mod size_mod,
      sn_total_errors = length (filter is_E_Error es) mod size_mod,
      sn_avg_latency_ms =
        of_nat (sum_list (latencies es) mod size_mod) / of_nat (length (filter is_E_Request es) mod size_mod),
      sn_max_latency_ms = fold max (latencies es) 0, sn_in_flight = 0,
      sn_upstream_errors = length (filter ((=) E_Upstream) es) mod size_mod,
      sn_circuit_breaker_trips = length (filter ((=) E_Trip) es) mod size_mod,
      sn_rate_limited = length (filter ((=) E_Limited) es) mod size_mod\<rparr>"
  using stats_history[of es] stats_history_globals[of es]
  by (simp add: global_snapshot_def history_counts_def occurs_def Let_def)

end
