(* ===== verification/Gw_Gateway.thy ===== *)
theory Gw_Gateway
  imports Gw_Router Gw_Load_Balancer Gw_Circuit_Breaker Gw_Filters Gw_Pool Gw_Stats
begin

text \<open>
  The request pipeline of \<^verbatim>\<open>src/src/core/gateway.cpp\<close>: parsing, the internal endpoints, the filter
  chain, routing, load balancing, the circuit breaker of the chosen backend, the forwarding, the
  statistics, and the rewriting of the response. The result of \<open>process_request\<close> is the pair that
  \<^verbatim>\<open>Connection::send\<close> is called with; \<^const>\<open>None\<close> means that the backend call has not returned.
\<close>

section \<open>State\<close>

record gateway =
  gw_config :: gateway_config
  gw_router :: "route list"
  gw_lb :: load_balancer
  gw_pool :: "backend_pool option"
  gw_breakers :: "circuit_breaker smap"
  gw_filters :: "gw_filter list"
  gw_rate_limit_filter :: "nat option"
  gw_stats :: gateway_stats
  gw_max_connections :: int

text \<open>\<open>gw_rate_limit_filter\<close> is the pointer to the rate limiter: its position in the chain. The
  statistics are a process-wide singleton.\<close>

definition new_gateway :: "gateway_config \<Rightarrow> gateway" where
  "new_gateway config =
     \<lparr>gw_config = config, gw_router = sort_routes (cfg_routes config),
      gw_lb = new_load_balancer LB_RoundRobin,
      gw_pool = Some (new_backend_pool (u64 (pool_max_idle_per_host config)) (pool_idle_timeout_sec config)),
      gw_breakers = [], gw_filters = [], gw_rate_limit_filter = None, gw_stats = new_gateway_stats,
      gw_max_connections = max_connections config\<rparr>"

definition add_filter :: "gw_filter \<Rightarrow> gateway \<Rightarrow> gateway" where
  "add_filter f g =
     (let g1 = (case f of F_RateLimit _ \<Rightarrow> g\<lparr>gw_rate_limit_filter := Some (length (gw_filters g))\<rparr> | _ \<Rightarrow> g) in
      g1\<lparr>gw_filters := gw_filters g1 @ [f]\<rparr>)"

definition get_circuit_breaker :: "backend \<Rightarrow> gateway \<Rightarrow> circuit_breaker" where
  "get_circuit_breaker b g =
     (case map_of (gw_breakers g) (make_key b) of
        Some cb \<Rightarrow> cb
      | None \<Rightarrow> new_circuit_breaker 5 (to_int32 (backend_timeout_ms (gw_config g) * 2)) 3)"

definition put_breaker :: "backend \<Rightarrow> circuit_breaker \<Rightarrow> gateway \<Rightarrow> gateway" where
  "put_breaker b cb g = g\<lparr>gw_breakers := smap_put (make_key b) cb (gw_breakers g)\<rparr>"

section \<open>Backends to watch\<close>

definition backend_before :: "backend \<Rightarrow> backend \<Rightarrow> bool" where
  "backend_before a b \<longleftrightarrow> be_host a < be_host b \<or> be_host a = be_host b \<and> be_port a < be_port b"

definition same_backend :: "backend \<Rightarrow> backend \<Rightarrow> bool" where
  "same_backend a b \<longleftrightarrow> be_host a = be_host b \<and> be_port a = be_port b"

text \<open>\<^verbatim>\<open>std::unique\<close>: keep an element unless it equals the last one kept.\<close>

fun unique_from :: "('a \<Rightarrow> 'a \<Rightarrow> bool) \<Rightarrow> 'a \<Rightarrow> 'a list \<Rightarrow> 'a list" where
  "unique_from eq kept [] = []"
| "unique_from eq kept (x # xs) = (if eq kept x then unique_from eq kept xs else x # unique_from eq x xs)"

definition std_unique :: "('a \<Rightarrow> 'a \<Rightarrow> bool) \<Rightarrow> 'a list \<Rightarrow> 'a list" where
  "std_unique eq xs = (case xs of [] \<Rightarrow> [] | x # ys \<Rightarrow> x # unique_from eq x ys)"

definition collect_all_backends :: "gateway \<Rightarrow> backend list" where
  "collect_all_backends g =
     std_unique same_backend (std_sort backend_before (concat (map rt_backends (cfg_routes (gw_config g)))))"

section \<open>Internal endpoints\<close>

text \<open>\<open>fmt\<close> prints a \<^verbatim>\<open>double\<close>.\<close>

definition quoted :: "bytes \<Rightarrow> bytes" where
  "quoted s = DQUOTE # s @ [DQUOTE]"

definition json_field :: "bytes \<Rightarrow> bytes \<Rightarrow> bytes" where
  "json_field name v = quoted name @ '':'' @ v"

definition route_json :: "(rat \<Rightarrow> bytes) \<Rightarrow> string \<times> route_snapshot_data \<Rightarrow> bytes" where
  "route_json fmt e =
     (case e of (name, rs) \<Rightarrow>
        quoted name @ '':{'' @ json_field ''requests'' (show_nat (rsn_total_requests rs)) @ '',''
        @ json_field ''success'' (show_nat (rsn_success_count rs)) @ '',''
        @ json_field ''errors'' (show_nat (rsn_error_count rs)) @ '',''
        @ json_field ''avg_ms'' (fmt (rsn_avg_latency_ms rs)) @ ''}'')"

fun routes_json :: "bytes list \<Rightarrow> bytes" where
  "routes_json [] = []"
| "routes_json [r] = r"
| "routes_json (r # rs) = r @ '','' @ routes_json rs"

definition stats_response :: "(rat \<Rightarrow> bytes) \<Rightarrow> gateway_stats \<Rightarrow> bytes" where
  "stats_response fmt st =
     (let snap = global_snapshot st; routes = route_snapshot st in
      ''HTTP/1.1 200 OK'' @ crlf @ ''Content-Type: application/json'' @ crlf @ ''Connection: close'' @ crlf @ crlf
      @ ''{'' @ json_field ''total_requests'' (show_nat (sn_total_requests snap)) @ '',''
      @ json_field ''total_success'' (show_nat (sn_total_success snap)) @ '',''
      @ json_field ''total_errors'' (show_nat (sn_total_errors snap)) @ '',''
      @ json_field ''avg_latency_ms'' (fmt (sn_avg_latency_ms snap)) @ '',''
      @ json_field ''max_latency_ms'' (show_nat (sn_max_latency_ms snap)) @ '',''
      @ json_field ''in_flight'' (show_nat (sn_in_flight snap)) @ '',''
      @ json_field ''upstream_errors'' (show_nat (sn_upstream_errors snap)) @ '',''
      @ json_field ''circuit_breaker_trips'' (show_nat (sn_circuit_breaker_trips snap)) @ '',''
      @ json_field ''rate_limited'' (show_nat (sn_rate_limited snap))
      @ (if routes = [] then [] else '','' @ quoted ''routes'' @ '':{'' @ routes_json (map (route_json fmt) routes) @ ''}'')
      @ ''}'')"

definition health_response :: bytes where
  "health_response =
     ''HTTP/1.1 200 OK'' @ crlf @ ''Content-Length: 2'' @ crlf @ ''Connection: close'' @ crlf @ crlf @ ''OK''"

definition handle_internal_endpoint :: "(rat \<Rightarrow> bytes) \<Rightarrow> gateway_stats \<Rightarrow> bytes \<Rightarrow> bytes option" where
  "handle_internal_endpoint fmt st path =
     (if path = ''/stats'' \<or> path = ''/stats/'' then Some (stats_response fmt st)
      else if path = ''/health'' \<or> path = ''/health/'' then Some health_response
      else None)"

section \<open>Rewriting the response\<close>

definition insert_at :: "nat \<Rightarrow> bytes \<Rightarrow> bytes \<Rightarrow> bytes" where
  "insert_at pos x s = take pos s @ x @ drop pos s"

text \<open>The response with a \<^verbatim>\<open>Connection\<close> field, and the position that the code keeps as the end of
  the header.\<close>

definition ensure_connection_header :: "bytes \<Rightarrow> bytes \<times> nat option" where
  "ensure_connection_header out =
     (case find_sub crlf2 out of
        None \<Rightarrow> (out, None)
      | Some hdr_end \<Rightarrow>
          let head = take (hdr_end + 2) out;
              has_conn = (find_sub (crlf @ ''Connection:'') head \<noteq> None \<or> find_sub (crlf @ ''connection:'') head \<noteq> None)
          in if has_conn then (out, Some hdr_end)
             else (insert_at hdr_end (crlf @ ''Connection: close'') out, Some (hdr_end + 21)))"

definition response_status :: "bytes \<Rightarrow> int" where
  "response_status out =
     (case find_char (CHR '' '') out of
        None \<Rightarrow> 200
      | Some sp1 \<Rightarrow>
          (case find_sub_from [CHR '' ''] (sp1 + 1) out of
             None \<Rightarrow> 200
           | Some sp2 \<Rightarrow>
               (case parse_int_safe (drop (sp1 + 1) out) (int sp2 - int (sp1 + 1)) of
                  Some v \<Rightarrow> v
                | None \<Rightarrow> 200)))"

definition extra_headers :: "bytes \<Rightarrow> nat \<Rightarrow> bytes smap \<Rightarrow> bytes" where
  "extra_headers out hdr_end hs =
     concat (map (\<lambda>(k, v). if find_sub (crlf @ k @ '':'') (take hdr_end out) = None then crlf @ k @ '': '' @ v else []) hs)"

definition insert_filter_headers :: "bytes \<Rightarrow> nat option \<Rightarrow> bytes smap \<Rightarrow> bytes" where
  "insert_filter_headers out hdr_end hs =
     (case hdr_end of
        None \<Rightarrow> out
      | Some h \<Rightarrow>
          if hs = [] then out
          else let extra = extra_headers out h hs in if extra = [] then out else insert_at h extra out)"

definition response_phase :: "gw_filter list \<Rightarrow> filter_ctx \<Rightarrow> bytes \<Rightarrow> bytes" where
  "response_phase fs ctx raw_resp =
     (case ensure_connection_header raw_resp of (out, hdr_end) \<Rightarrow>
        let tmp_resp = http_response_init\<lparr>status_code := response_status out\<rparr>;
            ctx' = run_response_filters fs (ctx\<lparr>ctx_resp := Some tmp_resp\<rparr>)
        in insert_filter_headers out hdr_end (resp_headers (the (ctx_resp ctx'))))"

definition says_close :: "bytes \<Rightarrow> bool" where
  "says_close out \<longleftrightarrow>
     find_sub (crlf @ ''Connection: close'') out \<noteq> None \<or> find_sub (crlf @ ''connection: close'') out \<noteq> None"

section \<open>The pipeline\<close>

record request_env =
  re_filters :: "nat \<Rightarrow> filter_env"
  re_pick :: "nat \<Rightarrow> nat"
  re_start :: int
  re_allow :: int
  re_forward :: forward_io
  re_end :: int
  re_fail :: int
  re_fmt :: "rat \<Rightarrow> bytes"

definition unavailable_503 :: bytes where
  "unavailable_503 =
     ''HTTP/1.1 503 Service Unavailable'' @ crlf @ ''Content-Length: 19'' @ crlf @ ''Connection: close'' @ crlf @ crlf
     @ ''Service Unavailable''"

definition forward_succeeded :: "bytes \<Rightarrow> bool" where
  "forward_succeeded raw_resp \<longleftrightarrow> raw_resp \<noteq> [] \<and> find_sub ''HTTP/1.1 5'' raw_resp \<noteq> Some 0"

text \<open>Statistics and circuit breaker after the backend has answered.\<close>

definition report_outcome :: "request_env \<Rightarrow> bytes \<Rightarrow> backend \<Rightarrow> bytes \<Rightarrow> gateway \<Rightarrow> gateway" where
  "report_outcome env path target raw_resp g =
     (let st = record_request path ((re_end env - re_start env) div 1000000) (gw_stats g);
          cb = get_circuit_breaker target g
      in if forward_succeeded raw_resp
         then put_breaker target (on_success cb) (g\<lparr>gw_stats := record_success path st\<rparr>)
         else put_breaker target (on_failure (re_fail env) cb)
                (g\<lparr>gw_stats := inc_upstream_errors (record_error path st)\<rparr>))"

text \<open>Steps 5 to 9 for a request whose breaker lets it through.\<close>

definition forward_and_reply ::
  "request_env \<Rightarrow> http_request \<Rightarrow> filter_ctx \<Rightarrow> backend \<Rightarrow> bytes \<Rightarrow> gateway \<Rightarrow> ((bytes \<times> bool) \<times> gateway) option" where
  "forward_and_reply env req ctx target raw g =
     (let lb1 = on_connect target (gw_lb g) in
      case forward (re_forward env) target raw (gw_pool g) of
        None \<Rightarrow> None
      | Some (raw_resp, pool) \<Rightarrow>
          let g1 = report_outcome env (req_path req) target raw_resp
                     (g\<lparr>gw_lb := on_disconnect target lb1, gw_pool := pool\<rparr>);
              out = response_phase (gw_filters g) ctx raw_resp
          in Some ((out, request_keep_alive req \<and> \<not> says_close out), g1))"

definition route_and_forward ::
  "request_env \<Rightarrow> http_request \<Rightarrow> filter_ctx \<Rightarrow> bytes \<Rightarrow> gateway \<Rightarrow> ((bytes \<times> bool) \<times> gateway) option" where
  "route_and_forward env req ctx raw g =
     (case router_match (gw_router g) (req_path req) of
        None \<Rightarrow> Some ((response_to_string (make_404 False), False), g)
      | Some backends \<Rightarrow>
          (case lb_select (re_pick env) backends (gw_lb g) of (target, lb) \<Rightarrow>
             (case allow_request (re_allow env) (get_circuit_breaker target g) of (ok, cb) \<Rightarrow>
                let g1 = put_breaker target cb (g\<lparr>gw_lb := lb\<rparr>) in
                if \<not> ok then Some ((unavailable_503, False), g1)
                else forward_and_reply env req ctx target raw g1)))"

definition process_request ::
  "request_env \<Rightarrow> bytes \<Rightarrow> gateway \<Rightarrow> ((bytes \<times> bool) \<times> gateway) option" where
  "process_request env raw g =
     (case parse_http_request raw http_request_init of
        (False, _) \<Rightarrow> Some ((response_to_string (make_400 False), False), g)
      | (True, req) \<Rightarrow>
          (case handle_internal_endpoint (re_fmt env) (gw_stats g) (req_path req) of
             Some resp \<Rightarrow> Some ((resp, False), g)
           | None \<Rightarrow>
               (case run_request_filters (re_filters env) (gw_filters g) (filter_ctx_init\<lparr>ctx_req := Some req\<rparr>) of
                  (ok, fs, ctx) \<Rightarrow>
                    let g1 = g\<lparr>gw_filters := fs\<rparr> in
                    if \<not> ok then
                      Some ((response_to_string (make_400 False), False), g1\<lparr>gw_stats := inc_rate_limited (gw_stats g1)\<rparr>)
                    else route_and_forward env req ctx raw g1)))"

section \<open>Lemmas on the rewriting\<close>

lemma CR_in_crlf2: "crlf2 = CR # LF # CR # LF # []"
  by (simp add: crlf2_def)

lemma crlf2_split: "crlf2 = crlf @ crlf"
  by (simp add: crlf2_def crlf_def)

text \<open>Putting a line before the end of a header moves the end of the header by that line.\<close>

lemma find_crlf2_shift:
  assumes "find_sub crlf2 (head @ crlf2 @ b) = Some (length head)" and "l \<noteq> []" and "CR \<notin> set l"
  shows "find_sub crlf2 (head @ crlf @ l @ crlf2 @ b') = Some (length head + 2 + length l)"
  using assms(1)
proof (induction head)
  case Nil
  have skip: "CR \<notin> set u \<Longrightarrow> find_sub crlf2 (u @ crlf2 @ b') = Some (length u)" for u
  proof (induction u)
    case Nil
    then show ?case by (cases b') (simp_all add: CR_in_crlf2)
  next
    case (Cons x u)
    then show ?case by (simp add: CR_in_crlf2)
  qed
  obtain x l' where l: "l = x # l'" "x \<noteq> CR" using assms(2,3) by (cases l) auto
  then show ?case using skip[OF assms(3)] CR_neq_LF by (simp add: crlf_def CR_in_crlf2)
next
  case (Cons x head)
  have np: "\<not> prefix crlf2 (x # head @ crlf2 @ b)" and ih: "find_sub crlf2 (head @ crlf2 @ b) = Some (length head)"
    using Cons.prems by (auto split: if_splits)
  obtain y l' where l: "l = y # l'" "y \<noteq> CR" using assms(2,3) by (cases l) auto
  have "\<not> prefix crlf2 (x # head @ crlf @ l @ crlf2 @ b')"
  proof (cases "length head \<ge> 3")
    case True
    then obtain a c d r where "head = a # c # d # r" by (auto simp: numeral_3_eq_3 Suc_le_length_iff)
    then show ?thesis using np by (simp add: CR_in_crlf2)
  next
    case False
    then consider "head = []" | a where "head = [a]" | a c where "head = [a, c]"
      by (cases head; cases "tl head"; cases "tl (tl head)") auto
    then show ?thesis using np l CR_neq_LF by cases (auto simp: CR_in_crlf2 crlf_def)
  qed
  then show ?case using Cons.IH[OF ih] by simp
qed

text \<open>What the filters add to the response.\<close>

definition filter_headers :: "gw_filter list \<Rightarrow> filter_ctx \<Rightarrow> bytes smap" where
  "filter_headers fs ctx = (if F_RequestId \<in> set fs then [(''X-Request-Id'', ctx_request_id ctx)] else [])"

lemma fold_filter_on_response:
  "ctx_resp ctx = Some r \<Longrightarrow> resp_headers r = [] \<or> resp_headers r = [(''X-Request-Id'', ctx_request_id ctx)] \<Longrightarrow>
   resp_headers (the (ctx_resp (fold filter_on_response fs ctx))) =
     (if F_RequestId \<in> set fs then [(''X-Request-Id'', ctx_request_id ctx)] else resp_headers r)"
proof (induction fs arbitrary: ctx r)
  case (Cons f fs)
  show ?case
  proof (cases f)
    case F_RequestId
    let ?r = "r\<lparr>resp_headers := smap_put ''X-Request-Id'' (ctx_request_id ctx) (resp_headers r)\<rparr>"
    have "filter_on_response f ctx = ctx\<lparr>ctx_resp := Some ?r\<rparr>"
      using Cons.prems F_RequestId by (simp add: filter_on_response_def request_id_on_response_def)
    then show ?thesis
      using Cons.IH[of "ctx\<lparr>ctx_resp := Some ?r\<rparr>" ?r] Cons.prems F_RequestId by auto
  qed (use Cons in \<open>simp_all add: filter_on_response_def\<close>)
qed simp

lemma response_filter_headers:
  "resp_headers (the (ctx_resp (run_response_filters fs (ctx\<lparr>ctx_resp := Some (http_response_init\<lparr>status_code := c\<rparr>)\<rparr>)))) =
     filter_headers fs ctx"
  using fold_filter_on_response[of "ctx\<lparr>ctx_resp := Some (http_response_init\<lparr>status_code := c\<rparr>)\<rparr>"
      "http_response_init\<lparr>status_code := c\<rparr>" fs]
  by (simp add: run_response_filters_def filter_headers_def http_response_init_def)

lemma response_phase_eq:
  "response_phase fs ctx raw_resp =
     (case ensure_connection_header raw_resp of (out, hdr_end) \<Rightarrow> insert_filter_headers out hdr_end (filter_headers fs ctx))"
  by (simp add: response_phase_def Let_def response_filter_headers split: prod.split)

definition has_connection_field :: "bytes \<Rightarrow> bool" where
  "has_connection_field head \<longleftrightarrow>
     find_sub (crlf @ ''Connection:'') (head @ crlf) \<noteq> None \<or> find_sub (crlf @ ''connection:'') (head @ crlf) \<noteq> None"

lemma ensure_connection_cases:
  assumes "find_sub crlf2 (head @ crlf2 @ body) = Some (length head)"
  shows "ensure_connection_header (head @ crlf2 @ body) =
     (if has_connection_field head then (head @ crlf2 @ body, Some (length head))
      else (head @ crlf @ ''Connection: close'' @ crlf2 @ body, Some (length head + 21)))"
proof -
  have "take (length head + 2) (head @ crlf2 @ body) = head @ crlf" by (simp add: crlf2_split)
  then show ?thesis
    using assms by (simp add: ensure_connection_header_def has_connection_field_def Let_def insert_at_def)
qed

lemma extra_request_id:
  assumes "F_RequestId \<in> set fs"
  shows "extra_headers out h (filter_headers fs ctx) =
     (if find_sub (crlf @ ''X-Request-Id:'') (take h out) = None then crlf @ ''X-Request-Id: '' @ ctx_request_id ctx else [])"
  using assms by (simp add: extra_headers_def filter_headers_def)

section \<open>Properties\<close>

text \<open>C3: a backend response that has a \<^verbatim>\<open>Connection\<close> field reaches the client with its status line,
  its headers and its body unchanged. The only bytes added are the request id field, at the end of
  the header, when the request-id filter is in the chain and the backend has not set one.\<close>
theorem response_forwarded_intact:
  assumes "find_sub crlf2 (head @ crlf2 @ body) = Some (length head)" and "has_connection_field head"
  shows "response_phase fs ctx (head @ crlf2 @ body) =
    head @ (if F_RequestId \<in> set fs \<and> find_sub (crlf @ ''X-Request-Id:'') head = None
            then crlf @ ''X-Request-Id: '' @ ctx_request_id ctx else []) @ crlf2 @ body"
proof (cases "F_RequestId \<in> set fs")
  case True
  then show ?thesis
    using ensure_connection_cases[OF assms(1)] assms(2) extra_request_id[OF True, of "head @ crlf2 @ body" "length head" ctx]
    by (simp add: response_phase_eq insert_filter_headers_def Let_def insert_at_def) (simp add: filter_headers_def)
next
  case False
  then show ?thesis
    using ensure_connection_cases[OF assms(1)] assms(2)
    by (simp add: response_phase_eq insert_filter_headers_def filter_headers_def)
qed

definition wresp_head :: bytes where
  "wresp_head = ''HTTP/1.1 200 OK'' @ crlf @ ''Content-Length: 2'' @ crlf @ ''Connection: keep-alive''"

theorem response_forwarded_intact_witness:
  "response_phase [F_Logging, F_RequestId] (filter_ctx_init\<lparr>ctx_request_id := ''0a1b2c3d''\<rparr>) (wresp_head @ crlf2 @ ''hi'') =
   wresp_head @ crlf @ ''X-Request-Id: 0a1b2c3d'' @ crlf2 @ ''hi''"
proof -
  have 1: "find_sub crlf2 (wresp_head @ crlf2 @ ''hi'') = Some (length wresp_head)" by code_simp
  have 2: "has_connection_field wresp_head" by code_simp
  have 3: "find_sub (crlf @ ''X-Request-Id:'') wresp_head = None" by code_simp
  show ?thesis
    using response_forwarded_intact[OF 1 2, of "[F_Logging, F_RequestId]" "filter_ctx_init\<lparr>ctx_request_id := ''0a1b2c3d''\<rparr>"] 3
    by simp
qed

text \<open>C35: when the backend response has no \<^verbatim>\<open>Connection\<close> field the gateway inserts one, 19 bytes,
  but moves the end of the header by 21. The request id is then inserted between the two line ends
  that close the header: the header ends after \<^verbatim>\<open>Connection: close\<close>, the client never sees the
  request id as a header, and it becomes the first line of the body, whose announced length now
  cuts off the end of the real body.\<close>
theorem request_id_corrupts_body:
  assumes "find_sub crlf2 (head @ crlf2 @ body) = Some (length head)" and "\<not> has_connection_field head"
    and "F_RequestId \<in> set fs" and "find_sub (crlf @ ''X-Request-Id:'') (head @ crlf @ ''Connection: close'' @ crlf) = None"
  shows "find_sub crlf2 (response_phase fs ctx (head @ crlf2 @ body)) = Some (length (head @ crlf @ ''Connection: close''))
    \<and> response_phase fs ctx (head @ crlf2 @ body) =
        (head @ crlf @ ''Connection: close'') @ crlf2 @ (''X-Request-Id: '' @ ctx_request_id ctx @ crlf @ body)"
proof -
  let ?out = "head @ crlf @ ''Connection: close'' @ crlf2 @ body"
  have len: "length ''Connection: close'' = 17" "CR \<notin> set ''Connection: close''" by (simp_all add: CR_def)
  have tk: "take (length head + 21) ?out = head @ crlf @ ''Connection: close'' @ crlf"
    and dr: "drop (length head + 21) ?out = crlf @ body"
    by (simp_all add: crlf2_split crlf_def)
  have eq: "response_phase fs ctx (head @ crlf2 @ body) =
      head @ crlf @ ''Connection: close'' @ crlf2 @ ''X-Request-Id: '' @ ctx_request_id ctx @ crlf @ body"
    using ensure_connection_cases[OF assms(1)] assms(2,3,4) extra_request_id[OF assms(3), of ?out "length head + 21" ctx]
    unfolding response_phase_eq insert_filter_headers_def insert_at_def
    by (simp add: tk dr Let_def) (simp add: filter_headers_def crlf2_split)
  show ?thesis
    using find_crlf2_shift[OF assms(1) _ len(2), of "''X-Request-Id: '' @ ctx_request_id ctx @ crlf @ body"]
    by (simp add: eq)
qed

definition wresp_plain :: bytes where
  "wresp_plain = ''HTTP/1.1 200 OK'' @ crlf @ ''Content-Length: 2''"

theorem request_id_corrupts_body_witness:
  "response_phase [F_RequestId] (filter_ctx_init\<lparr>ctx_request_id := ''0a1b2c3d''\<rparr>) (wresp_plain @ crlf2 @ ''hi'') =
   (wresp_plain @ crlf @ ''Connection: close'') @ crlf2 @ (''X-Request-Id: 0a1b2c3d'' @ crlf @ ''hi'')"
proof -
  have 1: "find_sub crlf2 (wresp_plain @ crlf2 @ ''hi'') = Some (length wresp_plain)" by code_simp
  have 2: "\<not> has_connection_field wresp_plain" by code_simp
  have 3: "find_sub (crlf @ ''X-Request-Id:'') (wresp_plain @ crlf @ ''Connection: close'' @ crlf) = None" by code_simp
  show ?thesis
    using request_id_corrupts_body[OF 1 2 _ 3, of "[F_RequestId]" "filter_ctx_init\<lparr>ctx_request_id := ''0a1b2c3d''\<rparr>"]
    by simp
qed

section \<open>Sequences of requests\<close>

fun process_all :: "(request_env \<times> bytes) list \<Rightarrow> gateway \<Rightarrow> ((bytes \<times> bool) list \<times> gateway) option" where
  "process_all [] g = Some ([], g)"
| "process_all ((env, raw) # rs) g =
     (case process_request env raw g of
        None \<Rightarrow> None
      | Some (reply, g1) \<Rightarrow> map_option (\<lambda>(replies, g2). (reply # replies, g2)) (process_all rs g1))"

text \<open>The calls on the statistics that one request can make.\<close>

definition request_events :: "stats_event list \<Rightarrow> bool" where
  "request_events es \<longleftrightarrow> es = [] \<or> es = [E_Limited]
     \<or> (\<exists>path ms. es = [E_Request path ms, E_Success path] \<or> es = [E_Request path ms, E_Error path, E_Upstream])"

lemma report_outcome_stats:
  "\<exists>es. request_events es \<and> gw_stats (report_outcome env path b raw_resp g) = fold stats_step es (gw_stats g)"
proof -
  let ?ms = "(re_end env - re_start env) div 1000000"
  define es where "es = (if forward_succeeded raw_resp then [E_Request path ?ms, E_Success path]
      else [E_Request path ?ms, E_Error path, E_Upstream])"
  have "gw_stats (report_outcome env path b raw_resp g) = fold stats_step es (gw_stats g)"
    by (simp add: report_outcome_def put_breaker_def Let_def es_def)
  moreover have "request_events es" by (simp add: es_def request_events_def)
  ultimately show ?thesis by blast
qed

text \<open>The ways a request can go once it has passed the filters.\<close>

lemma route_and_forward_cases:
  assumes "route_and_forward env req ctx raw g = Some (reply, g')"
  obtains (no_route) "reply = (response_to_string (make_404 False), False)" "g' = g"
  | (refused) bs b lb cb where "router_match (gw_router g) (req_path req) = Some bs"
      "lb_select (re_pick env) bs (gw_lb g) = (b, lb)" "allow_request (re_allow env) (get_circuit_breaker b g) = (False, cb)"
      "reply = (unavailable_503, False)" "g' = put_breaker b cb (g\<lparr>gw_lb := lb\<rparr>)"
  | (forwarded) bs b lb cb raw_resp pool where "router_match (gw_router g) (req_path req) = Some bs"
      "lb_select (re_pick env) bs (gw_lb g) = (b, lb)" "allow_request (re_allow env) (get_circuit_breaker b g) = (True, cb)"
      "forward (re_forward env) b raw (gw_pool g) = Some (raw_resp, pool)"
      "fst reply = response_phase (gw_filters g) ctx raw_resp"
      "g' = report_outcome env (req_path req) b raw_resp
         (put_breaker b cb (g\<lparr>gw_lb := on_disconnect b (on_connect b lb), gw_pool := pool\<rparr>))"
proof (cases "router_match (gw_router g) (req_path req)")
  case None
  then show ?thesis using assms no_route by (simp add: route_and_forward_def)
next
  case (Some bs)
  obtain b lb where sel: "lb_select (re_pick env) bs (gw_lb g) = (b, lb)" by fastforce
  obtain ok cb where al: "allow_request (re_allow env) (get_circuit_breaker b g) = (ok, cb)" by fastforce
  show ?thesis
  proof (cases ok)
    case False
    then show ?thesis using assms Some sel al refused by (simp add: route_and_forward_def)
  next
    case True
    let ?g = "put_breaker b cb (g\<lparr>gw_lb := lb\<rparr>)"
    have fr: "forward_and_reply env req ctx b raw ?g = Some (reply, g')"
      using assms Some sel al True by (simp add: route_and_forward_def)
    then obtain raw_resp pool where fw: "forward (re_forward env) b raw (gw_pool g) = Some (raw_resp, pool)"
      by (auto simp: forward_and_reply_def put_breaker_def Let_def split: option.splits)
    have g': "g' = report_outcome env (req_path req) b raw_resp
        (?g\<lparr>gw_lb := on_disconnect b (on_connect b lb), gw_pool := pool\<rparr>)"
      and r: "fst reply = response_phase (gw_filters g) ctx raw_resp"
      using fr fw by (auto simp: forward_and_reply_def put_breaker_def Let_def)
    have "?g\<lparr>gw_lb := on_disconnect b (on_connect b lb), gw_pool := pool\<rparr>
        = put_breaker b cb (g\<lparr>gw_lb := on_disconnect b (on_connect b lb), gw_pool := pool\<rparr>)"
      by (simp add: put_breaker_def)
    then show ?thesis using forwarded Some sel al True fw r g' by simp
  qed
qed

lemma process_request_cases:
  assumes "process_request env raw g = Some (reply, g')"
  obtains (local_reply) "g' = g" "fst reply \<noteq> []"
  | (limited) fs where "g' = g\<lparr>gw_filters := fs, gw_stats := inc_rate_limited (gw_stats g)\<rparr>" "fst reply \<noteq> []"
  | (routed) req fs ctx where "route_and_forward env req ctx raw (g\<lparr>gw_filters := fs\<rparr>) = Some (reply, g')"
proof -
  have ne: "response_to_string r \<noteq> []" for r by (simp add: response_to_string_def)
  obtain ok req where p: "parse_http_request raw http_request_init = (ok, req)" by fastforce
  show ?thesis
  proof (cases "ok \<and> handle_internal_endpoint (re_fmt env) (gw_stats g) (req_path req) = None")
    case False
    then have "g' = g" "fst reply \<noteq> []"
      using assms p ne by (auto simp: process_request_def handle_internal_endpoint_def stats_response_def
          health_response_def Let_def split: bool.splits if_splits)
    then show ?thesis by (rule local_reply)
  next
    case True
    obtain ok2 fs ctx where f: "run_request_filters (re_filters env) (gw_filters g) (filter_ctx_init\<lparr>ctx_req := Some req\<rparr>) = (ok2, fs, ctx)"
      by (metis prod_cases3)
    show ?thesis
      using assms p True f ne limited[of fs] routed[of req ctx fs]
      by (cases ok2) (auto simp: process_request_def Let_def)
  qed
qed

lemma route_and_forward_stats:
  assumes "route_and_forward env req ctx raw g = Some (reply, g')"
  shows "\<exists>es. request_events es \<and> gw_stats g' = fold stats_step es (gw_stats g)"
proof -
  have none: "\<exists>es. request_events es \<and> gw_stats g = fold stats_step es (gw_stats g)"
    by (rule exI[of _ "[]"]) (simp add: request_events_def)
  from assms show ?thesis
  proof (cases rule: route_and_forward_cases)
    case (forwarded bs b lb cb raw_resp pool)
    then show ?thesis
      using report_outcome_stats[of env "req_path req" b raw_resp
          "put_breaker b cb (g\<lparr>gw_lb := on_disconnect b (on_connect b lb), gw_pool := pool\<rparr>)"]
      by (simp add: put_breaker_def)
  qed (use none in \<open>simp_all add: put_breaker_def\<close>)
qed

lemma process_request_stats:
  assumes "process_request env raw g = Some (reply, g')"
  shows "\<exists>es. request_events es \<and> gw_stats g' = fold stats_step es (gw_stats g)"
  using assms
proof (cases rule: process_request_cases)
  case local_reply
  then show ?thesis by (intro exI[of _ "[]"]) (simp add: request_events_def)
next
  case (limited fs)
  then show ?thesis by (intro exI[of _ "[E_Limited]"]) (simp add: request_events_def)
next
  case (routed req fs ctx)
  then show ?thesis using route_and_forward_stats[OF routed] by simp
qed

lemma process_all_stats:
  "process_all rs g = Some (replies, g') \<Longrightarrow>
   \<exists>ess. (\<forall>es \<in> set ess. request_events es) \<and> gw_stats g' = fold stats_step (concat ess) (gw_stats g)"
proof (induction rs arbitrary: g replies)
  case Nil
  then show ?case by (intro exI[of _ "[]"]) simp
next
  case (Cons r rs)
  obtain env raw where r: "r = (env, raw)" by fastforce
  from Cons.prems obtain reply g1 replies' where 1: "process_request env raw g = Some (reply, g1)"
    and 2: "process_all rs g1 = Some (replies', g')"
    by (auto simp: r split: option.splits)
  obtain es where e: "request_events es" "gw_stats g1 = fold stats_step es (gw_stats g)"
    using process_request_stats[OF 1] by blast
  obtain ess where "\<forall>es \<in> set ess. request_events es" "gw_stats g' = fold stats_step (concat ess) (gw_stats g1)"
    using Cons.IH[OF 2] by blast
  with e show ?case by (intro exI[of _ "es # ess"]) simp
qed

lemma request_events_balanced:
  assumes "\<forall>es \<in> set ess. request_events es"
  shows "length (filter is_E_Request (concat ess)) = length (filter is_E_Success (concat ess)) + length (filter is_E_Error (concat ess))"
    "length (filter ((=) E_Upstream) (concat ess)) = length (filter is_E_Error (concat ess))"
    "length (filter ((=) E_Trip) (concat ess)) = 0"
proof -
  have one: "length (filter is_E_Request es) = length (filter is_E_Success es) + length (filter is_E_Error es)"
    "length (filter ((=) E_Upstream) es) = length (filter is_E_Error es)"
    "length (filter ((=) E_Trip) es) = 0" if "request_events es" for es
    using that by (auto simp: request_events_def)
  show "length (filter is_E_Request (concat ess)) = length (filter is_E_Success (concat ess)) + length (filter is_E_Error (concat ess))"
    using assms one(1) by (induction ess) simp_all
  show "length (filter ((=) E_Upstream) (concat ess)) = length (filter is_E_Error (concat ess))"
    using assms one(2) by (induction ess) simp_all
  show "length (filter ((=) E_Trip) (concat ess)) = 0"
    using assms one(3) by (induction ess) simp_all
qed

text \<open>C21: the statistics the gateway reports are balanced. After any sequence of requests the number
  of requests is the number of successes plus the number of errors, and the upstream errors are the
  errors. The number of requests in flight and the number of breaker trips are zero: no request ever
  counts them.\<close>
theorem gateway_statistics_balanced:
  assumes "process_all rs g = Some (replies, g')" and "gw_stats g = new_gateway_stats"
  shows "sn_total_requests (global_snapshot (gw_stats g')) =
      add64 (sn_total_success (global_snapshot (gw_stats g'))) (sn_total_errors (global_snapshot (gw_stats g')))
    \<and> sn_upstream_errors (global_snapshot (gw_stats g')) = sn_total_errors (global_snapshot (gw_stats g'))
    \<and> sn_in_flight (global_snapshot (gw_stats g')) = 0
    \<and> sn_circuit_breaker_trips (global_snapshot (gw_stats g')) = 0"
proof -
  obtain ess where es: "\<forall>es \<in> set ess. request_events es"
    and st: "gw_stats g' = fold stats_step (concat ess) new_gateway_stats"
    using process_all_stats[OF assms(1)] assms(2) by auto
  show ?thesis
    using stats_history[of "concat ess"] stats_history_globals[of "concat ess"] request_events_balanced[OF es]
    by (simp add: st global_snapshot_def Let_def history_counts_def occurs_def add64_def mod_simps)
qed

definition wconfig :: gateway_config where
  "wconfig = load_default_config"

definition wenv :: request_env where
  "wenv = \<lparr>re_filters = (\<lambda>_. \<lparr>env_time = 0, env_now = 0, env_draw = (\<lambda>_. 0)\<rparr>), re_pick = (\<lambda>_. 0), re_start = 0,
     re_allow = 0,
     re_forward = \<lparr>fi_alive = (\<lambda>_. True),
       fi_connect = \<lparr>io_socket_ok = True, io_address_ok = True, io_connect = CR_Refused, io_poll = 0,
         io_sockopt_ok = True, io_sockopt_err = 0\<rparr>,
       fi_now = 0, fi_new_id = 0, fi_send = [], fi_recv = [], fi_recv_now = 0, fi_alive_after = (\<lambda>_. True)\<rparr>,
     re_end = 7000000, re_fail = 7000000, re_fmt = (\<lambda>_. [])\<rparr>"

definition wget :: bytes where
  "wget = ''GET /api/user/1 HTTP/1.1'' @ crlf @ ''Host: a'' @ crlf2"

lemma wget_parsed:
  "parse_http_request wget http_request_init =
     (True, \<lparr>req_method = ''GET'', req_path = ''/api/user/1'', req_version = ''HTTP/1.1'',
             req_headers = [(''host'', ''a'')], req_body = []\<rparr>)"
  by code_simp

lemma wroute: "router_match (gw_router (new_gateway wconfig)) ''/api/user/1'' = Some [\<lparr>be_host = ''127.0.0.1'', be_port = 9001\<rparr>]"
  by code_simp

theorem gateway_statistics_balanced_witness:
  "\<exists>replies g'. process_all [(wenv, wget)] (new_gateway wconfig) = Some (replies, g')
     \<and> sn_total_requests (global_snapshot (gw_stats g')) =
         add64 (sn_total_success (global_snapshot (gw_stats g'))) (sn_total_errors (global_snapshot (gw_stats g')))"
proof -
  have "process_all [(wenv, wget)] (new_gateway wconfig) \<noteq> None"
    using wroute
    by (simp add: process_request_def wget_parsed handle_internal_endpoint_def new_gateway_def route_and_forward_def
        lb_select_def allow_request_def get_circuit_breaker_def new_circuit_breaker_def forward_and_reply_def Let_def
        forward_def forward_pooled_def acquire_def acquire_idle_def new_backend_pool_def conn_connect_def wenv_def
        new_backend_conn_def put_breaker_def)
  then obtain replies g' where run: "process_all [(wenv, wget)] (new_gateway wconfig) = Some (replies, g')" by auto
  from gateway_statistics_balanced[OF run] show ?thesis using run by (simp add: new_gateway_def)
qed

section \<open>A backend that is down\<close>

definition unreachable :: "forward_io \<Rightarrow> bool" where
  "unreachable io \<longleftrightarrow> (\<forall>c. \<not> fi_alive io c) \<and> (\<forall>c. \<not> fst (conn_connect (fi_connect io) (fi_now io) c))"

text \<open>The request \<open>raw\<close> is for a route whose only backend is \<open>b\<close>.\<close>

definition routed_to :: "backend \<Rightarrow> route list \<Rightarrow> bytes \<Rightarrow> bool" where
  "routed_to b routes raw \<longleftrightarrow>
     (case parse_http_request raw http_request_init of (ok, req) \<Rightarrow>
        ok \<and> req_path req \<notin> {''/stats'', ''/stats/'', ''/health'', ''/health/''}
        \<and> router_match routes (req_path req) = Some [b])"

definition request_ctx :: "bytes \<Rightarrow> filter_ctx" where
  "request_ctx raw = filter_ctx_init\<lparr>ctx_req := Some (snd (parse_http_request raw http_request_init))\<rparr>"

text \<open>None of the requests is refused by the filters \<open>fs\<close>.\<close>

fun filters_admit :: "(request_env \<times> bytes) list \<Rightarrow> gw_filter list \<Rightarrow> bool" where
  "filters_admit [] fs = True"
| "filters_admit ((env, raw) # rs) fs =
     (case run_request_filters (re_filters env) fs (request_ctx raw) of (ok, fs', ctx) \<Rightarrow> ok \<and> filters_admit rs fs')"

text \<open>The page \<^verbatim>\<open>502 Bad Gateway\<close> as the client sees it, with the field of the request id.\<close>

definition bad_gateway_page :: "bytes \<Rightarrow> bytes" where
  "bad_gateway_page rid =
     ''HTTP/1.1 502 Bad Gateway'' @ crlf @ ''Content-Length: 11'' @ crlf @ ''Connection: close'' @ crlf
     @ ''X-Request-Id: '' @ rid @ crlf2 @ ''Bad Gateway''"

definition request_id_of :: "request_env \<times> bytes \<Rightarrow> bytes" where
  "request_id_of r = ctx_request_id (request_id_on_request (re_filters (fst r) 0) (request_ctx (snd r)))"

text \<open>The filter chain that \<^verbatim>\<open>main\<close> installs, with the limiter in any state.\<close>

definition main_filters :: "rate_limiter \<Rightarrow> gw_filter list" where
  "main_filters rl = [F_RequestId, F_RateLimit rl, F_Logging]"

lemma pop_alive_dead: "\<forall>c. \<not> alive c \<Longrightarrow> pop_alive alive now cs = (None, [])"
  by (induction cs) simp_all

lemma forward_unreachable:
  assumes "unreachable io"
  shows "\<exists>p'. forward io b raw (Some p) = Some (make_502_response, Some p')"
proof -
  have "\<not> fst (conn_connect (fi_connect io) (fi_now io) (new_backend_conn (fi_new_id io) b))"
    using assms by (simp add: unreachable_def)
  then obtain c where "conn_connect (fi_connect io) (fi_now io) (new_backend_conn (fi_new_id io) b) = (False, c)"
    by (cases "conn_connect (fi_connect io) (fi_now io) (new_backend_conn (fi_new_id io) b)") simp
  then show ?thesis
    using assms by (simp add: forward_def forward_pooled_def acquire_def acquire_idle_def Let_def pop_alive_dead unreachable_def)
qed

lemma main_filters_run:
  assumes "run_request_filters env (main_filters rl) ctx = (True, fs, ctx')"
  obtains rl' where "fs = main_filters rl'" "ctx_request_id ctx' = ctx_request_id (request_id_on_request (env 0) ctx)"
proof -
  have "\<exists>rl'. fs = main_filters rl' \<and> ctx_request_id ctx' = ctx_request_id (request_id_on_request (env 0) ctx)"
    using assms
    by (auto simp: main_filters_def filter_on_request_def logging_on_request_def Let_def split: prod.splits if_splits)
  then show ?thesis using that by blast
qed

lemma find_sub_append_found: "find_sub p s \<noteq> None \<Longrightarrow> find_sub p (s @ t) \<noteq> None"
  using find_sub_append_Some[of p s _ t] by (cases "find_sub p s") auto

lemma bad_gateway_reply:
  "response_phase (main_filters rl) ctx make_502_response = bad_gateway_page (ctx_request_id ctx)"
  "\<not> forward_succeeded make_502_response" "says_close (bad_gateway_page rid)"
proof -
  let ?h = "''HTTP/1.1 502 Bad Gateway'' @ crlf @ ''Content-Length: 11'' @ crlf @ ''Connection: close''"
  have r: "make_502_response = ?h @ crlf2 @ ''Bad Gateway''" by (simp add: make_502_response_def)
  have e: "ensure_connection_header make_502_response = (make_502_response, Some (length ?h))" by code_simp
  have f: "filter_headers (main_filters rl) ctx = [(''X-Request-Id'', ctx_request_id ctx)]"
    by (simp add: filter_headers_def main_filters_def)
  have n: "find_sub (crlf @ ''X-Request-Id'' @ '':'') (take (length ?h) make_502_response) = None" by code_simp
  have "insert_at (length ?h) (crlf @ ''X-Request-Id'' @ '': '' @ ctx_request_id ctx) make_502_response =
      bad_gateway_page (ctx_request_id ctx)"
    unfolding r insert_at_def take_length_append drop_length_append by (simp add: bad_gateway_page_def)
  then show "response_phase (main_filters rl) ctx make_502_response = bad_gateway_page (ctx_request_id ctx)"
    using n by (simp add: response_phase_eq e f insert_filter_headers_def extra_headers_def Let_def del: length_append)
  show "\<not> forward_succeeded make_502_response" by code_simp
  have "find_sub (crlf @ ''Connection: close'') ?h \<noteq> None" by code_simp
  note found = find_sub_append_found[OF this, of "crlf @ ''X-Request-Id: '' @ rid @ crlf2 @ ''Bad Gateway''"]
  have p: "bad_gateway_page rid = ?h @ crlf @ ''X-Request-Id: '' @ rid @ crlf2 @ ''Bad Gateway''"
    by (simp add: bad_gateway_page_def)
  show "says_close (bad_gateway_page rid)" unfolding says_close_def p by (rule disjI1[OF found])
qed

lemma get_put_breaker [simp]: "get_circuit_breaker b (put_breaker b cb g) = cb"
  by (simp add: get_circuit_breaker_def put_breaker_def)

lemma get_breaker_filters [simp]: "get_circuit_breaker b (g\<lparr>gw_filters := fs\<rparr>) = get_circuit_breaker b g"
  by (simp add: get_circuit_breaker_def split: option.split)

text \<open>The gateway between the requests of an outage.\<close>

definition outage_gateway :: "backend \<Rightarrow> route list \<Rightarrow> gateway_config \<Rightarrow> circuit_breaker \<Rightarrow> gateway \<Rightarrow> bool" where
  "outage_gateway b routes cfg cb g \<longleftrightarrow>
     gw_router g = routes \<and> gw_config g = cfg \<and> gw_pool g \<noteq> None \<and> get_circuit_breaker b g = cb
     \<and> (\<exists>rl. gw_filters g = main_filters rl)"

lemma admitted_request:
  assumes "outage_gateway b routes cfg cb g" and "routed_to b routes raw" and "filters_admit ((env, raw) # rs) (gw_filters g)"
  obtains req ctx rl where "router_match routes (req_path req) = Some [b]"
    "process_request env raw g = route_and_forward env req ctx raw (g\<lparr>gw_filters := main_filters rl\<rparr>)"
    "ctx_request_id ctx = request_id_of (env, raw)" "filters_admit rs (main_filters rl)"
proof -
  obtain req where req: "parse_http_request raw http_request_init = (True, req)"
    "req_path req \<notin> {''/stats'', ''/stats/'', ''/health'', ''/health/''}" "router_match routes (req_path req) = Some [b]"
    using assms(2) by (auto simp: routed_to_def split: prod.splits)
  obtain rl0 where rl0: "gw_filters g = main_filters rl0" using assms(1) by (auto simp: outage_gateway_def)
  obtain fs ctx where f: "run_request_filters (re_filters env) (main_filters rl0) (request_ctx raw) = (True, fs, ctx)"
    "filters_admit rs fs"
    using assms(3) rl0 by (auto split: prod.splits)
  obtain rl where rl: "fs = main_filters rl"
    "ctx_request_id ctx = ctx_request_id (request_id_on_request (re_filters env 0) (request_ctx raw))"
    by (rule main_filters_run[OF f(1)])
  have c: "request_ctx raw = filter_ctx_init\<lparr>ctx_req := Some req\<rparr>" by (simp add: request_ctx_def req(1))
  have "process_request env raw g = route_and_forward env req ctx raw (g\<lparr>gw_filters := main_filters rl\<rparr>)"
    using req(1,2) f(1) rl0 rl(1) unfolding c by (simp add: process_request_def handle_internal_endpoint_def Let_def)
  then show ?thesis using that[OF req(3)] rl f(2) by (simp add: request_id_of_def)
qed

lemma outage_step:
  assumes "outage_gateway b routes cfg cb g" and "routed_to b routes raw" and "filters_admit ((env, raw) # rs) (gw_filters g)"
    and "unreachable (re_forward env)" and "cb_state_of cb = CB_Closed"
  shows "\<exists>g'. process_request env raw g = Some ((bad_gateway_page (request_id_of (env, raw)), False), g')
    \<and> outage_gateway b routes cfg (on_failure (re_fail env) cb) g' \<and> filters_admit rs (gw_filters g')"
proof -
  obtain req ctx rl where r: "router_match routes (req_path req) = Some [b]"
    "process_request env raw g = route_and_forward env req ctx raw (g\<lparr>gw_filters := main_filters rl\<rparr>)"
    "ctx_request_id ctx = request_id_of (env, raw)" "filters_admit rs (main_filters rl)"
    by (rule admitted_request[OF assms(1-3)])
  obtain p' where fw: "forward (re_forward env) b raw (gw_pool g) = Some (make_502_response, Some p')"
    using forward_unreachable[OF assms(4)] assms(1) by (fastforce simp: outage_gateway_def)
  let ?g1 = "(put_breaker b cb (g\<lparr>gw_filters := main_filters rl\<rparr>))
      \<lparr>gw_lb := on_disconnect b (on_connect b (gw_lb g)), gw_pool := Some p'\<rparr>"
  have cb: "get_circuit_breaker b (g\<lparr>gw_filters := main_filters rl\<rparr>) = cb" "gw_router g = routes"
    using assms(1) by (simp_all add: outage_gateway_def)
  have "process_request env raw g =
      Some ((bad_gateway_page (request_id_of (env, raw)), False), report_outcome env (req_path req) b make_502_response ?g1)"
    using r fw cb assms(5) bad_gateway_reply
    by (simp add: route_and_forward_def lb_select_def allow_request_def forward_and_reply_def Let_def put_breaker_def)
  moreover have "outage_gateway b routes cfg (on_failure (re_fail env) cb) (report_outcome env (req_path req) b make_502_response ?g1)"
    using assms(1) bad_gateway_reply(2)
    by (auto simp: report_outcome_def Let_def outage_gateway_def put_breaker_def get_circuit_breaker_def)
  moreover have "gw_filters (report_outcome env (req_path req) b make_502_response ?g1) = main_filters rl"
    using bad_gateway_reply(2) by (simp add: report_outcome_def Let_def put_breaker_def)
  ultimately show ?thesis using r(4) by auto
qed

lemma outage_run:
  assumes "outage_gateway b routes cfg cb g" and "\<forall>r \<in> set reqs. routed_to b routes (snd r) \<and> unreachable (re_forward (fst r))"
    and "filters_admit (reqs @ rs) (gw_filters g)"
    and "cb_state_of cb = CB_Closed" and "failure_count cb + int (length reqs) \<le> failure_threshold cb"
  shows "\<exists>g'. process_all reqs g = Some (map (\<lambda>r. (bad_gateway_page (request_id_of r), False)) reqs, g')
    \<and> outage_gateway b routes cfg (cb_run (map (\<lambda>r. Failure (re_fail (fst r))) reqs) cb) g'
    \<and> filters_admit rs (gw_filters g')"
  using assms
proof (induction reqs arbitrary: g cb)
  case Nil
  then show ?case by simp
next
  case (Cons r reqs)
  obtain env raw where r: "r = (env, raw)" by fastforce
  obtain g1 where g1: "process_request env raw g = Some ((bad_gateway_page (request_id_of (env, raw)), False), g1)"
    "outage_gateway b routes cfg (on_failure (re_fail env) cb) g1" "filters_admit (reqs @ rs) (gw_filters g1)"
    using outage_step[OF Cons.prems(1), of raw env "reqs @ rs"] Cons.prems by (auto simp: r)
  show ?case
  proof (cases "reqs = []")
    case True
    then show ?thesis using g1 by (simp add: r)
  next
    case False
    then have "failure_count cb + 1 < failure_threshold cb" using Cons.prems(5) by (cases reqs) simp_all
    then have "cb_state_of (on_failure (re_fail env) cb) = CB_Closed"
      "failure_count (on_failure (re_fail env) cb) = failure_count cb + 1"
      "failure_threshold (on_failure (re_fail env) cb) = failure_threshold cb"
      using Cons.prems(4) by (simp_all add: on_failure_def)
    then show ?thesis using Cons.IH[OF g1(2)] Cons.prems(2,5) g1 by (auto simp: r)
  qed
qed

text \<open>A breaker with no failure on its count: a new one, or one after a success.\<close>

definition rested :: "circuit_breaker \<Rightarrow> bool" where
  "rested cb \<longleftrightarrow> cb_state_of cb = CB_Closed \<and> failure_count cb = 0"

lemma failures_trip:
  assumes "rested cb" and "failure_threshold cb = int (length ts)" and "ts \<noteq> []"
  defines "cb' \<equiv> cb_run (map Failure ts) cb"
  shows "cb_state_of cb' = CB_Open" and "opened_at cb' = last ts" and "reset_timeout_ms cb' = reset_timeout_ms cb"
proof -
  obtain us t where ts: "ts = us @ [t]" using assms(3) by (metis rev_exhaust)
  have f: "cb_state_of (cb_run (map Failure us) cb) = CB_Closed"
    "failure_count (cb_run (map Failure us) cb) = int (length us)"
    "failure_threshold (cb_run (map Failure us) cb) = failure_threshold cb"
    using failures_below_threshold[of cb us] assms(1,2) ts by (simp_all add: rested_def)
  have params: "reset_timeout_ms (cb_run es cb) = reset_timeout_ms cb" for es cb
    using cb_params_step by (induction es arbitrary: cb) simp_all
  show "reset_timeout_ms cb' = reset_timeout_ms cb" by (simp add: cb'_def params)
  show "cb_state_of cb' = CB_Open" "opened_at cb' = last ts"
    using f assms(2) by (simp_all add: cb'_def ts cb_run_append on_failure_def transition_to_open_def)
qed

text \<open>C9: a backend that is down is cut off after five failures. The gateway has the filter chain of
  the program; the five requests are for routes whose only backend is this one, the filters let them
  through, none of them reaches the backend, and the backend's breaker is new or has last seen a
  success. Each of the five is answered with \<^verbatim>\<open>502 Bad Gateway\<close> and its request id. The next request
  that the filters let through, within twice the backend timeout after the fifth failure, is
  answered with \<^verbatim>\<open>503 Service Unavailable\<close> at once: the connection pool and the statistics are not
  touched. The timeout is at most half of the largest \<^verbatim>\<open>int\<close>; doubling a larger one overflows.\<close>
theorem backend_outage_cut_off:
  assumes "gw_filters g = main_filters rl" and "gw_pool g \<noteq> None"
    and "map_of (gw_breakers g) (make_key b) = None
      \<or> rested (get_circuit_breaker b g) \<and> failure_threshold (get_circuit_breaker b g) = 5
        \<and> reset_timeout_ms (get_circuit_breaker b g) = backend_timeout_ms (gw_config g) * 2"
    and "0 \<le> backend_timeout_ms (gw_config g)" and "backend_timeout_ms (gw_config g) < 2 ^ 30"
    and "length reqs = 5" and "\<forall>r \<in> set reqs. routed_to b (gw_router g) (snd r) \<and> unreachable (re_forward (fst r))"
    and "routed_to b (gw_router g) raw" and "filters_admit (reqs @ [(env, raw)]) (gw_filters g)"
    and "re_allow env < re_fail (fst (last reqs)) + backend_timeout_ms (gw_config g) * 2 * 1000000"
  shows "\<exists>g5 g6. process_all reqs g = Some (map (\<lambda>r. (bad_gateway_page (request_id_of r), False)) reqs, g5)
    \<and> process_request env raw g5 = Some ((unavailable_503, False), g6)
    \<and> gw_pool g6 = gw_pool g5 \<and> gw_stats g6 = gw_stats g5"
proof -
  define cb where "cb = get_circuit_breaker b g"
  have cb: "rested cb" "failure_threshold cb = 5" "reset_timeout_ms cb = backend_timeout_ms (gw_config g) * 2"
    using assms(3-5) by (auto simp: cb_def get_circuit_breaker_def new_circuit_breaker_def rested_def to_int32_def Let_def)
  have "outage_gateway b (gw_router g) (gw_config g) cb g" using assms(1,2) by (auto simp: outage_gateway_def cb_def)
  from outage_run[OF this assms(7,9)] cb assms(6)
  obtain g5 where g5: "process_all reqs g = Some (map (\<lambda>r. (bad_gateway_page (request_id_of r), False)) reqs, g5)"
    "outage_gateway b (gw_router g) (gw_config g) (cb_run (map (\<lambda>r. Failure (re_fail (fst r))) reqs) cb) g5"
    "filters_admit [(env, raw)] (gw_filters g5)" by (auto simp: rested_def)
  have "reqs \<noteq> []" using assms(6) by auto
  define cb5 where "cb5 = cb_run (map Failure (map (re_fail \<circ> fst) reqs)) cb"
  have "cb_state_of cb5 = CB_Open" "opened_at cb5 = re_fail (fst (last reqs))"
    "reset_timeout_ms cb5 = backend_timeout_ms (gw_config g) * 2"
    using failures_trip[OF cb(1), of "map (re_fail \<circ> fst) reqs"] cb(2,3) assms(6) \<open>reqs \<noteq> []\<close> by (simp_all add: cb5_def last_map)
  then have refuse: "allow_request (re_allow env) cb5 = (False, cb5)"
    using assms(10) by (simp add: allow_request_def reset_elapsed_def)
  have g5': "outage_gateway b (gw_router g) (gw_config g) cb5 g5" using g5(2) by (simp add: cb5_def comp_def)
  obtain req ctx rl' where r: "router_match (gw_router g) (req_path req) = Some [b]"
    "process_request env raw g5 = route_and_forward env req ctx raw (g5\<lparr>gw_filters := main_filters rl'\<rparr>)"
    by (rule admitted_request[OF g5' assms(8) g5(3)])
  have "process_request env raw g5 = Some ((unavailable_503, False), put_breaker b cb5 (g5\<lparr>gw_filters := main_filters rl'\<rparr>))"
    using r refuse g5' by (simp add: route_and_forward_def lb_select_def outage_gateway_def)
  with g5(1) show ?thesis by (simp add: put_breaker_def)
qed

text \<open>A request without a client address in its header is never limited.\<close>

definition wmain_gateway :: gateway where
  "wmain_gateway =
     add_filter F_Logging (add_filter (F_RateLimit (new_rate_limiter 100 200)) (add_filter F_RequestId (new_gateway wconfig)))"

definition wdown :: request_env where
  "wdown = wenv\<lparr>re_forward := (re_forward wenv)\<lparr>fi_alive := (\<lambda>_. False)\<rparr>\<rparr>"

lemma wget_admitted: "filters_admit (replicate n (wdown, wget) @ [(wenv, wget)]) (main_filters (new_rate_limiter 100 200))"
proof -
  have step: "filters_admit ((env, wget) # rs) (main_filters (new_rate_limiter 100 200)) =
      filters_admit rs (main_filters (new_rate_limiter 100 200))" for env rs
  proof -
    obtain ctx where "run_request_filters (re_filters env) (main_filters (new_rate_limiter 100 200)) (request_ctx wget)
        = (True, main_filters (new_rate_limiter 100 200), ctx)"
      by (simp add: main_filters_def filter_on_request_def logging_on_request_def Let_def rate_limit_on_request_def
          new_rate_limiter_def extract_client_ip_def request_ctx_def wget_parsed request_id_on_request_def)
    then show ?thesis by simp
  qed
  show ?thesis by (induction n) (simp_all only: replicate.simps append.simps step filters_admit.simps(1))
qed

theorem backend_outage_cut_off_witness:
  "\<exists>g5 g6. process_all (replicate 5 (wdown, wget)) wmain_gateway =
       Some (replicate 5 (bad_gateway_page ''00000000'', False), g5)
     \<and> process_request wenv wget g5 = Some ((unavailable_503, False), g6)"
proof -
  let ?b = "\<lparr>be_host = ''127.0.0.1'', be_port = 9001\<rparr>" and ?rs = "replicate 5 (wdown, wget)"
  have 1: "gw_filters wmain_gateway = main_filters (new_rate_limiter 100 200)" "gw_pool wmain_gateway \<noteq> None"
    "map_of (gw_breakers wmain_gateway) (make_key ?b) = None" "gw_router wmain_gateway = gw_router (new_gateway wconfig)"
    "gw_config wmain_gateway = wconfig"
    by (simp_all add: wmain_gateway_def add_filter_def new_gateway_def main_filters_def)
  have 2: "routed_to ?b (gw_router wmain_gateway) wget" using wget_parsed wroute by (simp add: routed_to_def 1(4))
  then have 3: "\<forall>r \<in> set ?rs. routed_to ?b (gw_router wmain_gateway) (snd r) \<and> unreachable (re_forward (fst r))"
    by (simp add: unreachable_def wdown_def wenv_def conn_connect_def Let_def)
  have 4: "filters_admit (?rs @ [(wenv, wget)]) (gw_filters wmain_gateway)" unfolding 1(1) by (rule wget_admitted)
  have 5: "request_id_of (wdown, wget) = ''00000000''"
    unfolding request_id_of_def request_ctx_def snd_conv wget_parsed
    by (simp add: request_id_on_request_def wdown_def wenv_def) code_simp
  have 6: "re_allow wenv < re_fail (fst (last ?rs)) + backend_timeout_ms (gw_config wmain_gateway) * 2 * 1000000"
    by (simp add: wdown_def wenv_def 1(5) wconfig_def load_default_config_def)
  have 7: "0 \<le> backend_timeout_ms (gw_config wmain_gateway)" "backend_timeout_ms (gw_config wmain_gateway) < 2 ^ 30"
    by (simp_all add: 1(5) wconfig_def load_default_config_def)
  show ?thesis
    using backend_outage_cut_off[OF 1(1,2) disjI1[OF 1(3)] 7 _ 3 2 4 6] by (auto simp: map_replicate 5)
qed

section \<open>What a request leaves behind\<close>

lemma connect_disconnect: "conn_counts lb (make_key b) + 1 < size_mod \<Longrightarrow> on_disconnect b (on_connect b lb) = lb"
  by (simp add: on_connect_def on_disconnect_def Let_def)

lemma lb_select_counts: "lb_algo lb = LB_RoundRobin \<Longrightarrow> lb_select pick bs lb = (b, lb') \<Longrightarrow> conn_counts lb' = conn_counts lb"
  by (auto simp: lb_select_def select_roundRobin_def split: if_splits)

lemma report_outcome_pool:
  "gw_pool (report_outcome env path b r g) = gw_pool g" "gw_lb (report_outcome env path b r g) = gw_lb g"
  by (simp_all add: report_outcome_def put_breaker_def Let_def)

lemma response_phase_nonempty: "raw_resp \<noteq> [] \<Longrightarrow> response_phase fs ctx raw_resp \<noteq> []"
  by (auto simp: response_phase_eq ensure_connection_header_def insert_filter_headers_def insert_at_def Let_def
      split: prod.splits option.splits if_splits)

lemma request_bookkeeping:
  assumes "process_request env raw g = Some (reply, g')" and "gw_pool g = Some p" and "lb_algo (gw_lb g) = LB_RoundRobin"
    and "\<forall>k. pe_active (bp_pools p k) + 1 < size_mod" and "\<forall>k. conn_counts (gw_lb g) k + 1 < size_mod"
  shows "fst reply \<noteq> [] \<and> conn_counts (gw_lb g') = conn_counts (gw_lb g)
    \<and> (\<exists>p'. gw_pool g' = Some p' \<and> (\<forall>k. pe_active (bp_pools p' k) = pe_active (bp_pools p k)))"
  using assms(1)
proof (cases rule: process_request_cases)
  case (routed req fs ctx)
  let ?g = "g\<lparr>gw_filters := fs\<rparr>"
  from routed show ?thesis
  proof (cases rule: route_and_forward_cases)
    case no_route
    then show ?thesis using assms(2) by (simp add: response_to_string_def)
  next
    case (refused bs b lb cb)
    then show ?thesis
      using assms(2) lb_select_counts[of "gw_lb g"] assms(3) by (simp add: put_breaker_def unavailable_503_def)
  next
    case (forwarded bs b lb cb raw_resp pool)
    have lb: "conn_counts lb = conn_counts (gw_lb g)" using lb_select_counts[OF assms(3)] forwarded(2) by simp
    obtain p' where fw: "forward_pooled (re_forward env) b raw p = Some (raw_resp, p')" "pool = Some p'"
      using forwarded(4) assms(2) by (auto simp: forward_def)
    have "raw_resp \<noteq> []" "\<forall>k. pe_active (bp_pools p' k) = pe_active (bp_pools p k)"
      using forward_pooled_active[OF fw(1)] assms(4) by simp_all
    moreover have "on_disconnect b (on_connect b lb) = lb" using connect_disconnect[of lb b] assms(5) lb by simp
    ultimately show ?thesis
      using forwarded(5,6) fw(2) lb response_phase_nonempty by (simp add: report_outcome_pool put_breaker_def)
  qed
qed (use assms(2) in simp_all)

text \<open>C2: a request leaves no trace in the bookkeeping. Whatever happens to it - refused, limited, not
  routed, cut off by the breaker, failed or answered - it gets a non-empty reply, the active counts of
  the connection pool and the connection counts of the (round-robin) load balancer are afterwards what
  they were before.\<close>
theorem request_leaves_no_leak:
  assumes "process_request env raw g = Some (reply, g')" and "gw_pool g = Some p" and "lb_algo (gw_lb g) = LB_RoundRobin"
    and "\<forall>k. pe_active (bp_pools p k) + 1 < size_mod" and "\<forall>k. conn_counts (gw_lb g) k + 1 < size_mod"
  shows "fst reply \<noteq> [] \<and> conn_counts (gw_lb g') = conn_counts (gw_lb g)
    \<and> (\<exists>p'. gw_pool g' = Some p' \<and> (\<forall>k. pe_active (bp_pools p' k) = pe_active (bp_pools p k)))"
  using assms by (rule request_bookkeeping)

theorem request_leaves_no_leak_witness:
  "\<exists>reply g'. process_request wenv wget (new_gateway wconfig) = Some (reply, g') \<and> fst reply \<noteq> []
     \<and> conn_counts (gw_lb g') (make_key \<lparr>be_host = ''127.0.0.1'', be_port = 9001\<rparr>) = 0"
proof -
  have "process_request wenv wget (new_gateway wconfig) \<noteq> None"
    using wroute
    by (simp add: process_request_def wget_parsed handle_internal_endpoint_def new_gateway_def route_and_forward_def
        lb_select_def allow_request_def get_circuit_breaker_def new_circuit_breaker_def forward_and_reply_def Let_def
        forward_def forward_pooled_def acquire_def acquire_idle_def new_backend_pool_def conn_connect_def wenv_def
        new_backend_conn_def put_breaker_def)
  then obtain reply g' where run: "process_request wenv wget (new_gateway wconfig) = Some (reply, g')" by auto
  from request_leaves_no_leak[OF run] run show ?thesis
    by (simp add: new_gateway_def new_load_balancer_def new_backend_pool_def size_mod_def)
qed

section \<open>The set of backends to watch\<close>

interpretation backend_order: strict_weak_order backend_before
  by unfold_locales (auto simp: backend_before_def)

lemma unique_from_sorted:
  assumes "sorted_wrt (\<lambda>a b. \<not> backend_before b a) (x # xs)"
  shows "set (x # unique_from same_backend x xs) = set (x # xs) \<and> sorted_wrt backend_before (x # unique_from same_backend x xs)"
  using assms
proof (induction xs arbitrary: x)
  case (Cons y ys)
  show ?case
  proof (cases "same_backend x y")
    case True
    then have "x = y" by (auto simp: same_backend_def intro: backend.equality)
    then show ?thesis using Cons.IH[of x] Cons.prems True by simp
  next
    case False
    have xy: "backend_before x y" using Cons.prems False by (auto simp: same_backend_def backend_before_def)
    have ih: "sorted_wrt backend_before (y # unique_from same_backend y ys)"
      "set (y # unique_from same_backend y ys) = set (y # ys)"
      using Cons.IH[of y] Cons.prems by auto
    have "sorted_wrt backend_before (x # y # unique_from same_backend y ys)"
      using ih(1) backend_order.trans[OF xy] xy by simp
    moreover have "set (x # y # unique_from same_backend y ys) = set (x # y # ys)" using ih(2) by simp
    ultimately show ?thesis using False by (metis unique_from.simps(2))
  qed
qed simp

text \<open>the backends the health checker is given are those of all routes, each once, in the order
  of host and port.\<close>
theorem collect_all_backends_exact:
  "set (collect_all_backends g) = (\<Union>r \<in> set (cfg_routes (gw_config g)). set (rt_backends r))
   \<and> distinct (collect_all_backends g) \<and> sorted_wrt backend_before (collect_all_backends g)"
proof -
  let ?bs = "concat (map rt_backends (cfg_routes (gw_config g)))"
  let ?s = "std_sort backend_before ?bs"
  have s: "sorted_wrt (\<lambda>a b. \<not> backend_before b a) ?s"
    using backend_order.std_sort_is_sort[of ?bs] by (simp add: is_sort_of_def)
  have set_s: "set ?s = set ?bs" by (rule mset_eq_setD) simp
  have "set (collect_all_backends g) = set ?bs \<and> sorted_wrt backend_before (collect_all_backends g)"
  proof (cases ?s)
    case Nil
    then show ?thesis using set_s by (simp add: collect_all_backends_def std_unique_def)
  next
    case (Cons x xs)
    then show ?thesis using s set_s unique_from_sorted[of x xs] by (simp add: collect_all_backends_def std_unique_def)
  qed
  moreover have "distinct xs" if "sorted_wrt backend_before xs" for xs
    using that backend_order.irrefl by (induction xs) auto
  ultimately show ?thesis by auto
qed

end
