(* ===== verification/Gw_Config_Loader.thy ===== *)
theory Gw_Config_Loader
  imports Gw_Utils
begin

text \<open>
  The configuration loader of \<^verbatim>\<open>src/src/core/config_loader.cpp\<close>: its hand-written JSON tokenizer and the
  loops of \<^verbatim>\<open>parse_config\<close>. The position in the input is represented by the bytes from there on. The
  loops of the source need not end on malformed input, so they are partial functions: \<^const>\<open>None\<close>
  means that the call never returns. The member \<^verbatim>\<open>current_\<close> has no initial type in the source; it is
  an argument of the constructor.
\<close>

section \<open>Tokenizer\<close>

datatype token_type = TT_ObjectStart | TT_ObjectEnd | TT_ArrayStart | TT_ArrayEnd | TT_String | TT_Number
  | TT_Boolean | TT_Colon | TT_Comma | TT_Null | TT_End

record json_parser =
  jp_rest :: bytes
  jp_type :: token_type
  jp_text :: bytes
  jp_error :: bool
  jp_error_msg :: bytes
  jp_stack :: "token_type list"

definition new_json_parser :: "token_type \<Rightarrow> bytes \<Rightarrow> json_parser" where
  "new_json_parser t0 input =
     \<lparr>jp_rest = input, jp_type = t0, jp_text = [], jp_error = False, jp_error_msg = [], jp_stack = []\<rparr>"

definition json_blank :: "char \<Rightarrow> bool" where
  "json_blank c \<longleftrightarrow> c = CHR '' '' \<or> c = TAB \<or> c = LF \<or> c = CR"

definition is_alpha :: "char \<Rightarrow> bool" where
  "is_alpha c \<longleftrightarrow> (65 \<le> (of_char c :: nat) \<and> (of_char c :: nat) \<le> 90) \<or> (97 \<le> (of_char c :: nat) \<and> (of_char c :: nat) \<le> 122)"

fun skip_block :: "bytes \<Rightarrow> bytes" where
  "skip_block (a # b # r) = (if a = CHR ''*'' \<and> b = CHR ''/'' then r else skip_block (b # r))"
| "skip_block r = r"

definition skip_comment :: "bytes \<Rightarrow> bytes" where
  "skip_comment rest =
     (case rest of
        a # b # r \<Rightarrow>
          if a = CHR ''/'' then
            (if b = CHR ''/'' then dropWhile (\<lambda>c. c \<noteq> LF) rest
             else if b = CHR ''*'' then skip_block r
             else rest)
          else rest
      | _ \<Rightarrow> rest)"

partial_function (option) skip_whitespace :: "bytes \<Rightarrow> bytes option" where
  "skip_whitespace rest =
     (case rest of
        [] \<Rightarrow> Some []
      | c # cs \<Rightarrow>
          if json_blank c then skip_whitespace cs
          else if c = CHR ''/'' then skip_whitespace (skip_comment rest)
          else Some rest)"

definition set_error :: "bytes \<Rightarrow> json_parser \<Rightarrow> json_parser" where
  "set_error msg p = p\<lparr>jp_error := True, jp_error_msg := msg\<rparr>"

definition in_quotes :: "bytes \<Rightarrow> bytes" where
  "in_quotes s = CHR 0x27 # s @ [CHR 0x27]"

definition unescape :: "char \<Rightarrow> char" where
  "unescape c =
     (if c = CHR ''n'' then LF else if c = CHR ''t'' then TAB else if c = CHR ''r'' then CR else c)"

text \<open>The string after the opening quote: its text and what follows the closing quote.\<close>

fun scan_string :: "bytes \<Rightarrow> bytes \<times> bytes" where
  "scan_string [] = ([], [])"
| "scan_string (c # cs) =
     (if c = DQUOTE then ([], cs)
      else if c = CHR 0x5C then
        (case cs of
           [] \<Rightarrow> ([], [])
         | e # cs' \<Rightarrow> (case scan_string cs' of (t, r) \<Rightarrow> (unescape e # t, r)))
      else (case scan_string cs of (t, r) \<Rightarrow> (c # t, r)))"

definition token :: "token_type \<Rightarrow> bytes \<Rightarrow> bytes \<Rightarrow> json_parser \<Rightarrow> json_parser" where
  "token tt txt rest p = p\<lparr>jp_type := tt, jp_text := txt, jp_rest := rest\<rparr>"

definition in_number :: "char \<Rightarrow> bool" where
  "in_number c \<longleftrightarrow> is_digit c \<or> c = CHR ''.''"

definition scan_token :: "char \<Rightarrow> bytes \<Rightarrow> json_parser \<Rightarrow> json_parser" where
  "scan_token c cs p =
     (if c = CHR ''{'' then token TT_ObjectStart [c] cs p
      else if c = CHR ''}'' then token TT_ObjectEnd [c] cs p
      else if c = CHR ''['' then token TT_ArrayStart [c] cs p
      else if c = CHR '']'' then token TT_ArrayEnd [c] cs p
      else if c = CHR '':'' then token TT_Colon [c] cs p
      else if c = CHR '','' then token TT_Comma [c] cs p
      else if c = DQUOTE then (case scan_string cs of (t, r) \<Rightarrow> token TT_String t r p)
      else if is_digit c \<or> c = CHR ''-'' then
        (if c = CHR ''-'' then token TT_Number (c # takeWhile in_number cs) (dropWhile in_number cs) p
         else token TT_Number (takeWhile in_number (c # cs)) (dropWhile in_number (c # cs)) p)
      else if c = CHR ''t'' \<or> c = CHR ''f'' then token TT_Boolean (takeWhile is_alpha (c # cs)) (dropWhile is_alpha (c # cs)) p
      else if c = CHR ''n'' then token TT_Null (takeWhile is_alpha (c # cs)) (dropWhile is_alpha (c # cs)) p
      else set_error (''Unexpected character: '' @ in_quotes [c]) p)"

definition advance :: "json_parser \<Rightarrow> json_parser option" where
  "advance p =
     (case skip_whitespace (jp_rest p) of
        None \<Rightarrow> None
      | Some rest \<Rightarrow>
          (case rest of
             [] \<Rightarrow> Some (token TT_End [] [] p)
           | c # cs \<Rightarrow> Some (scan_token c cs (p\<lparr>jp_rest := rest\<rparr>))))"

section \<open>Navigation\<close>

partial_function (option) skip_nest :: "token_type \<Rightarrow> token_type \<Rightarrow> int \<Rightarrow> json_parser \<Rightarrow> json_parser option" where
  "skip_nest opn cls depth p =
     (if depth \<le> 0 then Some p
      else
        Option.bind (advance p) (\<lambda>q.
          if jp_type q = opn then skip_nest opn cls (depth + 1) q
          else if jp_type q = cls then skip_nest opn cls (depth - 1) q
          else if jp_type q = TT_End then Some q
          else skip_nest opn cls depth q))"

definition skip_value :: "json_parser \<Rightarrow> json_parser option" where
  "skip_value p =
     (case jp_type p of
        TT_ObjectStart \<Rightarrow> skip_nest TT_ObjectStart TT_ObjectEnd 1 p
      | TT_ArrayStart \<Rightarrow> skip_nest TT_ArrayStart TT_ArrayEnd 1 p
      | _ \<Rightarrow> Some p)"

text \<open>\<open>advance\<close>, and once more if that stopped at a comma.\<close>

definition advance_comma :: "json_parser \<Rightarrow> json_parser option" where
  "advance_comma p = Option.bind (advance p) (\<lambda>q. if jp_type q = TT_Comma then advance q else Some q)"

partial_function (option) find_key_loop :: "bytes \<Rightarrow> json_parser \<Rightarrow> (bool \<times> json_parser) option" where
  "find_key_loop key p =
     (if jp_type p = TT_String then
        Option.bind (advance p) (\<lambda>q.
          if jp_text p = key then map_option (Pair True) (advance q)
          else Option.bind (skip_value q) (\<lambda>q1. Option.bind (advance_comma q1) (find_key_loop key)))
      else Some (False, p))"

definition find_key :: "bytes \<Rightarrow> json_parser \<Rightarrow> (bool \<times> json_parser) option" where
  "find_key key p =
     (if jp_type p \<noteq> TT_ObjectStart then
        Option.bind (advance p) (\<lambda>q.
          if jp_type q \<noteq> TT_ObjectStart then Some (False, q)
          else Option.bind (advance q) (find_key_loop key))
      else Option.bind (advance p) (find_key_loop key))"

definition read_string :: "json_parser \<Rightarrow> bytes" where
  "read_string p = (if jp_type p = TT_String then jp_text p else [])"

text \<open>\<^const>\<open>to_int32\<close> is \<^verbatim>\<open>static_cast<int>\<close> of a \<^verbatim>\<open>long\<close>.\<close>

definition read_int :: "int \<Rightarrow> json_parser \<Rightarrow> int" where
  "read_int default_val p =
     (if jp_type p = TT_Number then
        (case strtol (jp_text p) of (val, _, erange) \<Rightarrow> if \<not> erange then to_int32 val else default_val)
      else default_val)"

definition enter_container :: "token_type \<Rightarrow> json_parser \<Rightarrow> (bool \<times> json_parser) option" where
  "enter_container opn p =
     Option.bind (if jp_type p \<noteq> opn then advance p else Some p) (\<lambda>q.
       if jp_type q \<noteq> opn then Some (False, q)
       else map_option (Pair True) (advance (q\<lparr>jp_stack := opn # jp_stack q\<rparr>)))"

definition enter_object :: "json_parser \<Rightarrow> (bool \<times> json_parser) option" where
  "enter_object p = enter_container TT_ObjectStart p"

definition enter_array :: "json_parser \<Rightarrow> (bool \<times> json_parser) option" where
  "enter_array p = enter_container TT_ArrayStart p"

definition leave_container :: "json_parser \<Rightarrow> json_parser" where
  "leave_container p = (if jp_stack p = [] then p else p\<lparr>jp_stack := tl (jp_stack p)\<rparr>)"

section \<open>\<^verbatim>\<open>parse_config\<close>\<close>

text \<open>From a key to its value: past the colon.\<close>

definition to_value :: "json_parser \<Rightarrow> json_parser option" where
  "to_value p = Option.bind (advance p) advance"

partial_function (option) backend_fields :: "json_parser \<Rightarrow> backend \<Rightarrow> (json_parser \<times> backend) option" where
  "backend_fields p b =
     (if jp_type p = TT_String then
        Option.bind (to_value p) (\<lambda>q.
          if jp_text p = ''host'' then
            Option.bind (advance_comma q) (\<lambda>q1. backend_fields q1 (b\<lparr>be_host := read_string q\<rparr>))
          else if jp_text p = ''port'' then
            Option.bind (advance_comma q) (\<lambda>q1. backend_fields q1 (b\<lparr>be_port := read_int 0 q\<rparr>))
          else
            Option.bind (skip_value q) (\<lambda>q0. Option.bind (advance_comma q0) (\<lambda>q1. backend_fields q1 b)))
      else Some (p, b))"

definition add_backend_if_valid :: "backend \<Rightarrow> backend list \<Rightarrow> backend list" where
  "add_backend_if_valid b bs = (if be_host b \<noteq> [] \<and> 0 < be_port b then bs @ [b] else bs)"

partial_function (option) backends_loop :: "json_parser \<Rightarrow> backend list \<Rightarrow> (json_parser \<times> backend list) option" where
  "backends_loop p bs =
     (if jp_type p = TT_ObjectStart then
        Option.bind (advance p) (\<lambda>q.
          Option.bind (backend_fields q \<lparr>be_host = [], be_port = 0\<rparr>) (\<lambda>(q1, b).
            let bs' = add_backend_if_valid b bs in
            if jp_type q1 = TT_Comma then Option.bind (advance q1) (\<lambda>q2. backends_loop q2 bs')
            else backends_loop q1 bs'))
      else Some (p, bs))"

text \<open>The fields of one route; \<open>Inl\<close> is the early return with its error message.\<close>

partial_function (option) route_fields ::
  "json_parser \<Rightarrow> route \<Rightarrow> (bytes + json_parser \<times> route) option" where
  "route_fields p r =
     (if jp_type p = TT_String then
        Option.bind (to_value p) (\<lambda>q.
          if jp_text p = ''prefix'' then
            Option.bind (advance_comma q) (\<lambda>q1. route_fields q1 (r\<lparr>rt_prefix := read_string q\<rparr>))
          else if jp_text p = ''backends'' then
            (if jp_type q \<noteq> TT_ArrayStart then Some (Inl (''Expected array for '' @ in_quotes ''backends''))
             else
               Option.bind (advance q) (\<lambda>q0.
                 Option.bind (backends_loop q0 (rt_backends r)) (\<lambda>(q2, bs).
                   Option.bind (advance_comma q2) (\<lambda>q1. route_fields q1 (r\<lparr>rt_backends := bs\<rparr>)))))
          else
            Option.bind (skip_value q) (\<lambda>q0. Option.bind (advance_comma q0) (\<lambda>q1. route_fields q1 r)))
      else Some (Inr (p, r)))"

definition add_route_if_valid :: "route \<Rightarrow> route list \<Rightarrow> route list" where
  "add_route_if_valid r rs = (if rt_prefix r \<noteq> [] \<and> rt_backends r \<noteq> [] then rs @ [r] else rs)"

text \<open>After a route: past the current token, past the end of the route object, past a comma.\<close>

definition next_route :: "json_parser \<Rightarrow> json_parser option" where
  "next_route p =
     Option.bind (advance p) (\<lambda>q.
       Option.bind (if jp_type q = TT_ObjectEnd then advance q else Some q) (\<lambda>q1.
         if jp_type q1 = TT_Comma then advance q1 else Some q1))"

partial_function (option) routes_loop ::
  "json_parser \<Rightarrow> route list \<Rightarrow> (bytes + json_parser \<times> route list) option" where
  "routes_loop p rs =
     (if jp_type p = TT_ObjectStart then
        Option.bind (advance p) (\<lambda>q.
          Option.bind (route_fields q \<lparr>rt_prefix = [], rt_backends = []\<rparr>) (\<lambda>res.
            case res of
              Inl msg \<Rightarrow> Some (Inl msg)
            | Inr (q1, r) \<Rightarrow>
                Option.bind (next_route q1) (\<lambda>q2. routes_loop q2 (add_route_if_valid r rs))))
      else Some (Inr (p, rs)))"

text \<open>The integer settings.\<close>

definition int_setting :: "bytes \<Rightarrow> json_parser \<Rightarrow> gateway_config \<Rightarrow> gateway_config option" where
  "int_setting key p cfg =
     (if key = ''listen_port'' then Some (cfg\<lparr>listen_port := read_int (listen_port cfg) p\<rparr>)
      else if key = ''keep_alive_timeout_sec'' then Some (cfg\<lparr>keep_alive_timeout_sec := read_int (keep_alive_timeout_sec cfg) p\<rparr>)
      else if key = ''thread_count'' then Some (cfg\<lparr>thread_count := read_int (thread_count cfg) p\<rparr>)
      else if key = ''backend_timeout_ms'' then Some (cfg\<lparr>backend_timeout_ms := read_int (backend_timeout_ms cfg) p\<rparr>)
      else if key = ''max_request_size'' then Some (cfg\<lparr>max_request_size := read_int (max_request_size cfg) p\<rparr>)
      else if key = ''max_epoll_events'' then Some (cfg\<lparr>max_epoll_events := read_int (max_epoll_events cfg) p\<rparr>)
      else if key = ''idle_cleanup_interval_sec'' then Some (cfg\<lparr>idle_cleanup_interval_sec := read_int (idle_cleanup_interval_sec cfg) p\<rparr>)
      else if key = ''pool_max_idle_per_host'' then Some (cfg\<lparr>pool_max_idle_per_host := read_int (pool_max_idle_per_host cfg) p\<rparr>)
      else if key = ''pool_idle_timeout_sec'' then Some (cfg\<lparr>pool_idle_timeout_sec := read_int (pool_idle_timeout_sec cfg) p\<rparr>)
      else if key = ''max_connections'' then Some (cfg\<lparr>max_connections := read_int (max_connections cfg) p\<rparr>)
      else if key = ''max_queue_size'' then Some (cfg\<lparr>max_queue_size := read_int (max_queue_size cfg) p\<rparr>)
      else if key = ''max_deferred_per_round'' then Some (cfg\<lparr>max_deferred_per_round := read_int (max_deferred_per_round cfg) p\<rparr>)
      else None)"

text \<open>The value of one top-level key.\<close>

definition config_value ::
  "bytes \<Rightarrow> json_parser \<Rightarrow> gateway_config \<Rightarrow> (bytes + json_parser \<times> gateway_config) option" where
  "config_value key p cfg =
     (case int_setting key p cfg of
        Some cfg' \<Rightarrow> Some (Inr (p, cfg'))
      | None \<Rightarrow>
          if key = ''routes'' then
            (if jp_type p \<noteq> TT_ArrayStart then Some (Inl (''Expected array for '' @ in_quotes ''routes''))
             else
               Option.bind (advance p) (\<lambda>q.
                 map_option (map_sum id (\<lambda>(q1, rs). (q1, cfg\<lparr>cfg_routes := rs\<rparr>))) (routes_loop q (cfg_routes cfg))))
          else map_option (\<lambda>q. Inr (q, cfg)) (skip_value p))"

partial_function (option) config_loop ::
  "json_parser \<Rightarrow> gateway_config \<Rightarrow> (bytes + json_parser \<times> gateway_config) option" where
  "config_loop p cfg =
     (if jp_type p = TT_String then
        Option.bind (to_value p) (\<lambda>q.
          Option.bind (config_value (jp_text p) q cfg) (\<lambda>res.
            case res of
              Inl msg \<Rightarrow> Some (Inl msg)
            | Inr (q1, cfg') \<Rightarrow>
                Option.bind (advance_comma q1) (\<lambda>q2.
                  if jp_type q2 \<noteq> TT_String \<and> jp_type q2 \<noteq> TT_ObjectEnd then Some (Inr (q2, cfg'))
                  else config_loop q2 cfg')))
      else Some (Inr (p, cfg)))"

definition parse_config :: "token_type \<Rightarrow> bytes \<Rightarrow> (bytes + gateway_config) option" where
  "parse_config t0 json =
     Option.bind (advance (new_json_parser t0 json)) (\<lambda>p.
       if jp_type p \<noteq> TT_ObjectStart then Some (Inl (''Expected root object '' @ in_quotes ''{''))
       else
         Option.bind (advance p) (\<lambda>q.
           Option.bind (config_loop q gateway_config_init) (\<lambda>res.
             case res of
               Inl msg \<Rightarrow> Some (Inl msg)
             | Inr (q1, cfg) \<Rightarrow> if jp_error q1 then Some (Inl (jp_error_msg q1)) else Some (Inr cfg))))"

definition load_json :: "token_type \<Rightarrow> bytes \<Rightarrow> (bytes + gateway_config) option" where
  "load_json t0 json =
     map_option (\<lambda>res. case res of
        Inl msg \<Rightarrow> Inl (if msg = [] then ''Unknown parse error'' else msg)
      | Inr cfg \<Rightarrow> Inr cfg) (parse_config t0 json)"

text \<open>Reading the file: \<^verbatim>\<open>fopen\<close> fails, \<^verbatim>\<open>ftell\<close> gives a size, \<^verbatim>\<open>fread\<close> gives some bytes.\<close>

datatype file_io = F_NoOpen | F_Size int bytes

definition config_load :: "token_type \<Rightarrow> bytes \<Rightarrow> file_io \<Rightarrow> (bytes + gateway_config) option" where
  "config_load t0 filepath io =
     (case io of
        F_NoOpen \<Rightarrow> Some (Inl (''Failed to open file: '' @ filepath))
      | F_Size fsize content \<Rightarrow>
          if fsize \<le> 0 then Some (Inl ''Empty or unreadable file'')
          else if int (length content) \<noteq> fsize then Some (Inl ''Failed to read file content'')
          else load_json t0 content)"

end
