(* ===== verification/Gw_Config_Json.thy ===== *)
theory Gw_Config_Json
  imports Gw_Config_Loader
begin

text \<open>
  What the configuration loader does with JSON text. Configurations are printed as token sequences;
  between tokens there may be blanks and comments of both kinds. The lemmas say what
  \<^const>\<open>advance\<close> and the loops of \<^const>\<open>parse_config\<close> do on such text.
\<close>

section \<open>Gaps\<close>

inductive gap :: "bytes \<Rightarrow> bool" where
  gap_empty: "gap []"
| gap_blank: "json_blank c \<Longrightarrow> gap g \<Longrightarrow> gap (c # g)"
| gap_line: "LF \<notin> set s \<Longrightarrow> gap g \<Longrightarrow> gap (''//'' @ s @ LF # g)"
| gap_block: "find_sub ''*/'' (s @ ''*/'') = Some (length s) \<Longrightarrow> gap g \<Longrightarrow> gap (''/*'' @ s @ ''*/'' @ g)"

lemma skip_block_end: "find_sub ''*/'' (s @ ''*/'') = Some (length s) \<Longrightarrow> skip_block (s @ ''*/'' @ r) = r"
proof (induction s)
  case (Cons a s)
  then show ?case by (cases s) (auto split: if_splits)
qed simp

lemma blank_not_slash: "json_blank c \<Longrightarrow> c \<noteq> CHR ''/''"
  by (auto simp: json_blank_def TAB_def LF_def CR_def)

lemma slash_not_blank: "\<not> json_blank (CHR ''/'')"
  by (auto dest: blank_not_slash)

lemma skip_gap:
  assumes "gap g" and "r = [] \<or> \<not> json_blank (hd r) \<and> hd r \<noteq> CHR ''/''"
  shows "skip_whitespace (g @ r) = Some r"
  using assms
proof (induction rule: gap.induct)
  case gap_empty
  then show ?case by (subst skip_whitespace.simps) (cases r, auto)
next
  case (gap_blank c g)
  then show ?case by (subst skip_whitespace.simps) simp
next
  case (gap_line s g)
  have "skip_comment (''//'' @ s @ LF # g @ r) = LF # g @ r"
    using gap_line(1) by (auto simp: skip_comment_def LF_def dropWhile_append3)
  moreover have "skip_whitespace (LF # g @ r) = Some r"
    using gap_line by (subst skip_whitespace.simps) (simp add: json_blank_def)
  ultimately show ?case using slash_not_blank by (subst skip_whitespace.simps) simp
next
  case (gap_block s g)
  have "skip_comment (''/*'' @ s @ ''*/'' @ g @ r) = g @ r"
    using skip_block_end[OF gap_block(1), of "g @ r"] by (simp add: skip_comment_def)
  then show ?case
    using gap_block slash_not_blank by (subst skip_whitespace.simps) simp
qed

section \<open>Tokens and their spelling\<close>

datatype jtok = J_ObjectStart | J_ObjectEnd | J_ArrayStart | J_ArrayEnd | J_Colon | J_Comma | J_Str bytes | J_Num int

fun tok_type :: "jtok \<Rightarrow> token_type" where
  "tok_type J_ObjectStart = TT_ObjectStart"
| "tok_type J_ObjectEnd = TT_ObjectEnd"
| "tok_type J_ArrayStart = TT_ArrayStart"
| "tok_type J_ArrayEnd = TT_ArrayEnd"
| "tok_type J_Colon = TT_Colon"
| "tok_type J_Comma = TT_Comma"
| "tok_type (J_Str s) = TT_String"
| "tok_type (J_Num n) = TT_Number"

fun tok_text :: "jtok \<Rightarrow> bytes" where
  "tok_text J_ObjectStart = ''{''"
| "tok_text J_ObjectEnd = ''}''"
| "tok_text J_ArrayStart = ''[''"
| "tok_text J_ArrayEnd = '']''"
| "tok_text J_Colon = '':''"
| "tok_text J_Comma = '',''"
| "tok_text (J_Str s) = s"
| "tok_text (J_Num n) = show_int n"

definition escape_char :: "char \<Rightarrow> bytes" where
  "escape_char c = (if c = DQUOTE \<or> c = CHR 0x5C then [CHR 0x5C, c] else [c])"

fun spelling :: "jtok \<Rightarrow> bytes" where
  "spelling (J_Str s) = DQUOTE # concat (map escape_char s) @ [DQUOTE]"
| "spelling t = tok_text t"

text \<open>\<open>spelled ts s\<close>: the text \<open>s\<close> begins with the tokens \<open>ts\<close>; what follows them is \<open>rest\<close>.\<close>

fun spelled :: "jtok list \<Rightarrow> bytes \<Rightarrow> bytes \<Rightarrow> bool" where
  "spelled [] rest s = (s = rest)"
| "spelled (t # ts) rest s =
     (\<exists>g r. gap g \<and> s = g @ spelling t @ r \<and> spelled ts rest r
        \<and> (\<forall>n. t = J_Num n \<longrightarrow> r = [] \<or> \<not> in_number (hd r)))"

lemma scan_escaped: "scan_string (concat (map escape_char s) @ DQUOTE # r) = (s, r)"
proof (induction s)
  case (Cons c s)
  then show ?case by (auto simp: escape_char_def unescape_def DQUOTE_def)
qed (simp add: DQUOTE_def)

lemma digit_not_blank: "is_digit c \<Longrightarrow> \<not> json_blank c \<and> c \<noteq> CHR ''/''"
  by (auto simp: is_digit_def json_blank_def TAB_def LF_def CR_def)

lemma digit_in_number: "is_digit c \<Longrightarrow> in_number c"
  by (simp add: in_number_def)

lemma number_split:
  assumes "r = [] \<or> \<not> in_number (hd r)" and "\<forall>c \<in> set ds. in_number c"
  shows "takeWhile in_number (ds @ r) = ds" "dropWhile in_number (ds @ r) = r"
  using assms by (cases r; simp add: takeWhile_append2 dropWhile_append2)+

lemma spelling_start:
  "spelling t @ r \<noteq> []" "\<not> json_blank (hd (spelling t @ r))" "hd (spelling t @ r) \<noteq> CHR ''/''"
proof -
  have num: "show_int n \<noteq> []" "\<not> json_blank (hd (show_int n))" "hd (show_int n) \<noteq> CHR ''/''" for n
  proof -
    have "is_digit (hd (show_nat m))" for m using show_nat_digits[of "hd (show_nat m)" m] by simp
    then have "\<not> json_blank (hd (show_nat m)) \<and> hd (show_nat m) \<noteq> CHR ''/''" for m
      by (rule digit_not_blank)
    then show "show_int n \<noteq> []" "\<not> json_blank (hd (show_int n))" "hd (show_int n) \<noteq> CHR ''/''"
      by (auto simp: show_int_def json_blank_def TAB_def LF_def CR_def)
  qed
  show "spelling t @ r \<noteq> []" "\<not> json_blank (hd (spelling t @ r))" "hd (spelling t @ r) \<noteq> CHR ''/''"
    using num by (cases t; auto simp: json_blank_def TAB_def LF_def CR_def DQUOTE_def)+
qed

lemma scan_number:
  assumes "r = [] \<or> \<not> in_number (hd r)" and "show_int n @ r = c # cs"
  shows "scan_token c cs p = token TT_Number (show_int n) r p"
proof -
  have ds: "\<forall>d \<in> set (show_nat m). in_number d" for m using show_nat_digits digit_in_number by blast
  have dg: "is_digit d \<Longrightarrow> d \<noteq> CHR ''{'' \<and> d \<noteq> CHR ''}'' \<and> d \<noteq> CHR ''['' \<and> d \<noteq> CHR '']'' \<and> d \<noteq> CHR '':'' \<and> d \<noteq> CHR '',''
      \<and> d \<noteq> DQUOTE \<and> d \<noteq> CHR ''-''" for d
    by (auto simp: is_digit_def DQUOTE_def)
  show ?thesis
  proof (cases "n < 0")
    case True
    then have "c = CHR ''-''" "cs = show_nat (nat (- n)) @ r" using assms(2) by (simp_all add: show_int_def)
    then show ?thesis using True number_split[OF assms(1) ds] by (simp add: scan_token_def DQUOTE_def show_int_def)
  next
    case False
    then have cs: "c # cs = show_nat (nat n) @ r" using assms(2) by (simp add: show_int_def)
    then have "c \<in> set (show_nat (nat n))" by (cases "show_nat (nat n)") simp_all
    then have "is_digit c" by (rule show_nat_digits)
    moreover have "takeWhile in_number (c # cs) = show_nat (nat n)" "dropWhile in_number (c # cs) = r"
      unfolding cs by (rule number_split[OF assms(1) ds])+
    ultimately show ?thesis
      using False dg[of c] by (simp only: scan_token_def show_int_def if_False if_True simp_thms)
  qed
qed

lemma scan_spelling:
  assumes "\<forall>n. t = J_Num n \<longrightarrow> r = [] \<or> \<not> in_number (hd r)" and "spelling t @ r = c # cs"
  shows "scan_token c cs p = token (tok_type t) (tok_text t) r p"
proof (cases t)
  case (J_Str s)
  then have "c = DQUOTE" "cs = concat (map escape_char s) @ DQUOTE # r" using assms(2) by simp_all
  then show ?thesis using J_Str scan_escaped[of s r] by (simp add: scan_token_def) (simp add: DQUOTE_def)
next
  case (J_Num n)
  then show ?thesis using assms scan_number[of r n c cs p] by simp
qed (use assms(2) in \<open>auto simp: scan_token_def\<close>)

text \<open>The parser stands at the token \<open>t\<close>, before the tokens \<open>ts\<close> and the text \<open>rest\<close>.\<close>

definition at_tok :: "json_parser \<Rightarrow> jtok \<Rightarrow> jtok list \<Rightarrow> bytes \<Rightarrow> bool" where
  "at_tok p t ts rest \<longleftrightarrow>
     jp_type p = tok_type t \<and> jp_text p = tok_text t \<and> spelled ts rest (jp_rest p) \<and> \<not> jp_error p"

lemma at_tokD: "at_tok p t ts rest \<Longrightarrow> jp_type p = tok_type t \<and> jp_text p = tok_text t \<and> \<not> jp_error p"
  by (simp add: at_tok_def)

lemma advance_spelled:
  assumes "spelled (t # ts) rest (jp_rest p)" and "\<not> jp_error p"
  obtains q where "advance p = Some q" "at_tok q t ts rest"
proof -
  obtain g r where g: "gap g" "jp_rest p = g @ spelling t @ r" "spelled ts rest r"
    "\<forall>n. t = J_Num n \<longrightarrow> r = [] \<or> \<not> in_number (hd r)"
    using assms(1) by auto
  obtain c cs where c: "spelling t @ r = c # cs" using spelling_start(1)[of t r] by (cases "spelling t @ r") auto
  have "skip_whitespace (jp_rest p) = Some (c # cs)"
    using skip_gap[OF g(1), of "spelling t @ r"] spelling_start[of t r] g(2) c by simp
  then have "advance p = Some (token (tok_type t) (tok_text t) r (p\<lparr>jp_rest := c # cs\<rparr>))"
    using scan_spelling[OF g(4) c] by (simp add: advance_def)
  then show ?thesis using that g(3) assms(2) by (simp add: at_tok_def token_def)
qed

lemma advance_at:
  assumes "at_tok p t (t' # ts) rest"
  obtains q where "advance p = Some q" "at_tok q t' ts rest"
  using assms advance_spelled[of t' ts rest p] by (auto simp: at_tok_def)

lemma to_value_at:
  assumes "at_tok p t (J_Colon # v # ts) rest"
  obtains q where "to_value p = Some q" "at_tok q v ts rest"
proof -
  obtain q where q: "advance p = Some q" "at_tok q J_Colon (v # ts) rest" using advance_at[OF assms] .
  obtain q' where "advance q = Some q'" "at_tok q' v ts rest" using advance_at[OF q(2)] .
  then show ?thesis using that q by (simp add: to_value_def)
qed

lemma advance_comma_at:
  assumes "at_tok p t (J_Comma # t' # ts) rest"
  obtains q where "advance_comma p = Some q" "at_tok q t' ts rest"
proof -
  obtain q where q: "advance p = Some q" "at_tok q J_Comma (t' # ts) rest" using advance_at[OF assms] .
  obtain q' where "advance q = Some q'" "at_tok q' t' ts rest" using advance_at[OF q(2)] .
  then show ?thesis using that q at_tokD[OF q(2)] by (simp add: advance_comma_def)
qed

lemma advance_no_comma_at:
  assumes "at_tok p t (t' # ts) rest" and "t' \<noteq> J_Comma"
  obtains q where "advance_comma p = Some q" "at_tok q t' ts rest"
proof -
  obtain q where q: "advance p = Some q" "at_tok q t' ts rest" using advance_at[OF assms(1)] .
  moreover have "tok_type t' \<noteq> TT_Comma" using assms(2) by (cases t') simp_all
  ultimately show ?thesis using that at_tokD[OF q(2)] by (simp add: advance_comma_def)
qed

section \<open>Numbers\<close>

lemma strtol_show_int:
  assumes "- (2 ^ 31) \<le> n" and "n < 2 ^ 31"
  shows "strtol (show_int n) = (n, length (show_int n), False)"
proof (cases "n < 0")
  case True
  let ?ds = "show_nat (nat (- n))"
  have "takeWhile is_digit ?ds = ?ds" using show_nat_digits by simp
  then show ?thesis
    using True assms unfolding strtol_def by (simp del: takeWhile_eq_all_conv add: show_int_def strtol_def c_isspace_def Let_def long_min_def long_max_def)
next
  case False
  then show ?thesis
    using assms strtol_digits[of "show_nat (nat n)" "[]"] show_nat_digits by (auto simp: show_int_def long_max_def)
qed

definition fits_int :: "int \<Rightarrow> bool" where
  "fits_int n \<longleftrightarrow> - (2 ^ 31) \<le> n \<and> n < 2 ^ 31"

lemma to_int32_id: "fits_int n \<Longrightarrow> to_int32 n = n"
proof (cases "n < 0")
  case True
  assume f: "fits_int n"
  have "n mod 2 ^ 32 = (n + 2 ^ 32) mod 2 ^ 32" by simp
  also have "\<dots> = n + 2 ^ 32" using True f by (intro mod_pos_pos_trivial) (simp_all add: fits_int_def)
  finally show ?thesis using True f by (simp add: to_int32_def fits_int_def)
qed (simp add: to_int32_def fits_int_def)

lemma read_int_at: "at_tok p (J_Num n) ts rest \<Longrightarrow> fits_int n \<Longrightarrow> read_int d p = n"
  using strtol_show_int[of n] to_int32_id[of n] by (simp add: at_tok_def read_int_def fits_int_def)

lemma read_string_at: "at_tok p (J_Str s) ts rest \<Longrightarrow> read_string p = s"
  by (simp add: at_tok_def read_string_def)

section \<open>Printed configurations\<close>

definition backend_tokens :: "backend \<Rightarrow> jtok list" where
  "backend_tokens b = [J_ObjectStart, J_Str ''host'', J_Colon, J_Str (be_host b), J_Comma, J_Str ''port'', J_Colon,
     J_Num (be_port b), J_ObjectEnd]"

fun list_tokens :: "jtok list list \<Rightarrow> jtok list" where
  "list_tokens [] = []"
| "list_tokens [x] = x"
| "list_tokens (x # y # ys) = x @ J_Comma # list_tokens (y # ys)"

definition route_tokens :: "route \<Rightarrow> jtok list" where
  "route_tokens r = [J_ObjectStart, J_Str ''prefix'', J_Colon, J_Str (rt_prefix r), J_Comma, J_Str ''backends'', J_Colon,
     J_ArrayStart] @ list_tokens (map backend_tokens (rt_backends r)) @ [J_ArrayEnd, J_ObjectEnd]"

definition setting_tokens :: "bytes \<times> int \<Rightarrow> jtok list" where
  "setting_tokens kv = [J_Str (fst kv), J_Colon, J_Num (snd kv), J_Comma]"

definition settings_of :: "gateway_config \<Rightarrow> (bytes \<times> int) list" where
  "settings_of cfg =
     [(''listen_port'', listen_port cfg), (''keep_alive_timeout_sec'', keep_alive_timeout_sec cfg),
      (''thread_count'', thread_count cfg), (''backend_timeout_ms'', backend_timeout_ms cfg),
      (''max_request_size'', max_request_size cfg), (''max_epoll_events'', max_epoll_events cfg),
      (''idle_cleanup_interval_sec'', idle_cleanup_interval_sec cfg), (''pool_max_idle_per_host'', pool_max_idle_per_host cfg),
      (''pool_idle_timeout_sec'', pool_idle_timeout_sec cfg), (''max_connections'', max_connections cfg),
      (''max_queue_size'', max_queue_size cfg), (''max_deferred_per_round'', max_deferred_per_round cfg)]"

definition config_tokens :: "gateway_config \<Rightarrow> jtok list" where
  "config_tokens cfg = [J_ObjectStart] @ concat (map setting_tokens (settings_of cfg))
     @ [J_Str ''routes'', J_Colon, J_ArrayStart] @ list_tokens (map route_tokens (cfg_routes cfg)) @ [J_ArrayEnd, J_ObjectEnd]"

definition valid_backend :: "backend \<Rightarrow> bool" where
  "valid_backend b \<longleftrightarrow> be_host b \<noteq> [] \<and> 0 < be_port b \<and> be_port b < 2 ^ 31"

definition valid_route :: "route \<Rightarrow> bool" where
  "valid_route r \<longleftrightarrow> rt_prefix r \<noteq> [] \<and> rt_backends r \<noteq> [] \<and> list_all valid_backend (rt_backends r)"

section \<open>Backends and routes\<close>

lemma not_comma: "J_ObjectEnd \<noteq> J_Comma" "J_ArrayEnd \<noteq> J_Comma"
  by simp_all

lemma backend_fields_at:
  assumes "at_tok p (J_Str ''host'') (J_Colon # J_Str h # J_Comma # J_Str ''port'' # J_Colon # J_Num n # J_ObjectEnd # ts) rest"
    and "fits_int n"
  obtains q where "backend_fields p b0 = Some (q, \<lparr>be_host = h, be_port = n\<rparr>)" "at_tok q J_ObjectEnd ts rest"
proof -
  obtain v1 where v1: "to_value p = Some v1" "at_tok v1 (J_Str h) (J_Comma # J_Str ''port'' # J_Colon # J_Num n # J_ObjectEnd # ts) rest"
    using to_value_at[OF assms(1)] .
  obtain k2 where k2: "advance_comma v1 = Some k2" "at_tok k2 (J_Str ''port'') (J_Colon # J_Num n # J_ObjectEnd # ts) rest"
    using advance_comma_at[OF v1(2)] .
  obtain v2 where v2: "to_value k2 = Some v2" "at_tok v2 (J_Num n) (J_ObjectEnd # ts) rest"
    using to_value_at[OF k2(2)] .
  obtain q where q: "advance_comma v2 = Some q" "at_tok q J_ObjectEnd ts rest"
    using advance_no_comma_at[OF v2(2) not_comma(1)] .
  have "backend_fields q b = Some (q, b)" for b
    using at_tokD[OF q(2)] by (subst backend_fields.simps) simp
  then have "backend_fields k2 (b0\<lparr>be_host := h\<rparr>) = Some (q, \<lparr>be_host = h, be_port = n\<rparr>)"
    using at_tokD[OF k2(2)] v2 q(1) read_int_at[OF v2(2) assms(2)] by (subst backend_fields.simps) simp
  then have "backend_fields p b0 = Some (q, \<lparr>be_host = h, be_port = n\<rparr>)"
    using at_tokD[OF assms(1)] v1 k2(1) read_string_at[OF v1(2)] by (subst backend_fields.simps) simp
  then show ?thesis using that q(2) by blast
qed

lemma backend_cons: "backend_tokens b @ ts = J_ObjectStart # (tl (backend_tokens b) @ ts)"
  by (simp add: backend_tokens_def)

lemma backends_loop_at:
  assumes "at_tok p J_ObjectStart (tl (backend_tokens b) @ ts) rest" and "valid_backend b"
  obtains q where "backends_loop p bs = Some (q, bs @ [b])" "at_tok q J_ObjectEnd ts rest"
proof -
  have at: "at_tok p J_ObjectStart (J_Str ''host'' # J_Colon # J_Str (be_host b) # J_Comma # J_Str ''port'' # J_Colon
      # J_Num (be_port b) # J_ObjectEnd # ts) rest" using assms(1) by (simp add: backend_tokens_def)
  obtain k where k: "advance p = Some k"
    "at_tok k (J_Str ''host'') (J_Colon # J_Str (be_host b) # J_Comma # J_Str ''port'' # J_Colon # J_Num (be_port b) # J_ObjectEnd # ts) rest"
    using advance_at[OF at] .
  have fit: "fits_int (be_port b)" using assms(2) by (simp add: valid_backend_def fits_int_def)
  obtain q where q': "backend_fields k \<lparr>be_host = [], be_port = 0\<rparr> = Some (q, \<lparr>be_host = be_host b, be_port = be_port b\<rparr>)"
    and q2: "at_tok q J_ObjectEnd ts rest"
    using backend_fields_at[OF k(2) fit] .
  have q: "backend_fields k \<lparr>be_host = [], be_port = 0\<rparr> = Some (q, b)" "at_tok q J_ObjectEnd ts rest"
    using q' q2 by simp_all
  have "backends_loop q bs' = Some (q, bs')" for bs'
    using at_tokD[OF q(2)] by (subst backends_loop.simps) simp
  then have "backends_loop p bs = Some (q, bs @ [b])"
    using at_tokD[OF assms(1)] k(1) q(1) at_tokD[OF q(2)] assms(2)
    by (subst backends_loop.simps) (simp add: add_backend_if_valid_def valid_backend_def Let_def)
  then show ?thesis using that q(2) by blast
qed

text \<open>A route up to the end of its first backend.\<close>

lemma route_fields_at:
  assumes "at_tok p (J_Str ''prefix'') (J_Colon # J_Str pre # J_Comma # J_Str ''backends'' # J_Colon # J_ArrayStart
       # backend_tokens b @ ts) rest" and "valid_backend b"
  obtains q where "at_tok q J_ObjectEnd ts rest"
    "route_fields p \<lparr>rt_prefix = [], rt_backends = []\<rparr> =
       Option.bind (advance_comma q) (\<lambda>q1. route_fields q1 \<lparr>rt_prefix = pre, rt_backends = [b]\<rparr>)"
proof -
  obtain v1 where v1: "to_value p = Some v1"
    "at_tok v1 (J_Str pre) (J_Comma # J_Str ''backends'' # J_Colon # J_ArrayStart # backend_tokens b @ ts) rest"
    using to_value_at[OF assms(1)] .
  obtain k2 where k2: "advance_comma v1 = Some k2"
    "at_tok k2 (J_Str ''backends'') (J_Colon # J_ArrayStart # backend_tokens b @ ts) rest"
    using advance_comma_at[OF v1(2)] .
  obtain v2 where v2: "to_value k2 = Some v2" "at_tok v2 J_ArrayStart (backend_tokens b @ ts) rest"
    using to_value_at[OF k2(2)] .
  obtain o1 where o1: "advance v2 = Some o1" "at_tok o1 J_ObjectStart (tl (backend_tokens b) @ ts) rest"
    using advance_at[OF v2(2)[unfolded backend_cons]] .
  obtain q where q: "backends_loop o1 [] = Some (q, [] @ [b])" "at_tok q J_ObjectEnd ts rest"
    using backends_loop_at[OF o1(2) assms(2)] .
  have "route_fields k2 \<lparr>rt_prefix = pre, rt_backends = []\<rparr> =
      Option.bind (advance_comma q) (\<lambda>q1. route_fields q1 \<lparr>rt_prefix = pre, rt_backends = [b]\<rparr>)"
    using at_tokD[OF k2(2)] at_tokD[OF v2(2)] v2(1) o1(1) q(1) by (subst route_fields.simps) simp
  then have "route_fields p \<lparr>rt_prefix = [], rt_backends = []\<rparr> =
      Option.bind (advance_comma q) (\<lambda>q1. route_fields q1 \<lparr>rt_prefix = pre, rt_backends = [b]\<rparr>)"
    using at_tokD[OF assms(1)] v1(1) k2(1) read_string_at[OF v1(2)] by (subst route_fields.simps) simp
  then show ?thesis using that q(2) by blast
qed

lemma next_route_at:
  assumes "at_tok p t (J_ObjectEnd # ts) rest" and "ts = J_Comma # t' # ts' \<or> ts = t' # ts' \<and> t' \<noteq> J_Comma"
  obtains q where "next_route p = Some q" "at_tok q t' ts' rest"
proof -
  obtain q where q: "advance p = Some q" "at_tok q J_ObjectEnd ts rest" using advance_at[OF assms(1)] .
  obtain q' where "advance_comma q = Some q'" "at_tok q' t' ts' rest"
    using assms(2)
  proof (elim disjE conjE)
    assume "ts = J_Comma # t' # ts'"
    from advance_comma_at[OF q(2)[unfolded this]] show ?thesis using that .
  next
    assume "ts = t' # ts'" and ne: "t' \<noteq> J_Comma"
    from advance_no_comma_at[OF q(2)[unfolded this(1)] ne] show ?thesis using that .
  qed
  then show ?thesis using that q at_tokD[OF q(2)] by (simp add: next_route_def advance_comma_def)
qed

lemma route_start:
  assumes "at_tok p J_ObjectStart (tl (route_tokens r) @ ts) rest" and "rt_backends r = b # bs"
  obtains k where "advance p = Some k"
    "at_tok k (J_Str ''prefix'') (J_Colon # J_Str (rt_prefix r) # J_Comma # J_Str ''backends'' # J_Colon # J_ArrayStart
       # backend_tokens b @ (if bs = [] then [] else J_Comma # list_tokens (map backend_tokens bs)) @ J_ArrayEnd # J_ObjectEnd # ts) rest"
proof -
  have "list_tokens (map backend_tokens (b # bs)) = backend_tokens b @ (if bs = [] then [] else J_Comma # list_tokens (map backend_tokens bs))"
    by (cases bs) simp_all
  then have "at_tok p J_ObjectStart (J_Str ''prefix'' # J_Colon # J_Str (rt_prefix r) # J_Comma # J_Str ''backends'' # J_Colon # J_ArrayStart
       # backend_tokens b @ (if bs = [] then [] else J_Comma # list_tokens (map backend_tokens bs)) @ J_ArrayEnd # J_ObjectEnd # ts) rest"
    using assms by (simp add: route_tokens_def)
  from advance_at[OF this] show ?thesis using that .
qed

text \<open>A route with one backend is read and the loop goes on after it.\<close>

lemma routes_loop_one:
  assumes "at_tok p J_ObjectStart (tl (route_tokens r) @ ts) rest" and "valid_route r" and "length (rt_backends r) = 1"
    and "ts = J_Comma # t' # ts' \<or> ts = t' # ts' \<and> t' \<noteq> J_Comma"
  obtains q where "routes_loop p rs = routes_loop q (rs @ [r])" "at_tok q t' ts' rest"
proof -
  obtain b where b: "rt_backends r = [b]" using assms(3) by (cases "rt_backends r") auto
  obtain k where k: "advance p = Some k" "at_tok k (J_Str ''prefix'') (J_Colon # J_Str (rt_prefix r) # J_Comma
      # J_Str ''backends'' # J_Colon # J_ArrayStart # backend_tokens b @ J_ArrayEnd # J_ObjectEnd # ts) rest"
    using route_start[OF assms(1) b] unfolding if_True simp_thms append_Nil .
  have vb: "valid_backend b" using assms(2) b by (simp add: valid_route_def)
  obtain e where e: "at_tok e J_ObjectEnd (J_ArrayEnd # J_ObjectEnd # ts) rest"
    "route_fields k \<lparr>rt_prefix = [], rt_backends = []\<rparr> =
       Option.bind (advance_comma e) (\<lambda>q1. route_fields q1 \<lparr>rt_prefix = rt_prefix r, rt_backends = [b]\<rparr>)"
    using route_fields_at[OF k(2) vb] .
  obtain a where a: "advance_comma e = Some a" "at_tok a J_ArrayEnd (J_ObjectEnd # ts) rest"
    using advance_no_comma_at[OF e(1) not_comma(2)] .
  have "route_fields a r' = Some (Inr (a, r'))" for r'
    using at_tokD[OF a(2)] by (subst route_fields.simps) simp
  then have f: "route_fields k \<lparr>rt_prefix = [], rt_backends = []\<rparr> = Some (Inr (a, r))"
    using e(2) a(1) b by simp
  obtain q where q: "next_route a = Some q" "at_tok q t' ts' rest" using next_route_at[OF a(2) assms(4)] .
  have "routes_loop p rs = routes_loop q (rs @ [r])"
    using at_tokD[OF assms(1)] k(1) f q(1) assms(2) b
    by (subst routes_loop.simps) (simp add: add_route_if_valid_def valid_route_def)
  then show ?thesis using that q(2) by blast
qed

text \<open>A route with more than one backend: the loop stops inside it.\<close>

lemma routes_loop_many:
  assumes "at_tok p J_ObjectStart (tl (route_tokens r) @ ts) rest" and "valid_route r" and "2 \<le> length (rt_backends r)"
  obtains q ts' where "routes_loop p rs = Some (Inr (q, rs @ [r\<lparr>rt_backends := [hd (rt_backends r)]\<rparr>]))"
    "at_tok q (J_Str ''host'') (J_Colon # ts') rest"
proof -
  obtain b b' bs where b: "rt_backends r = b # b' # bs"
    using assms(3) by (cases "rt_backends r" rule: remdups_adj.cases) auto
  obtain u' where tk: "list_tokens (map backend_tokens (b' # bs)) = J_ObjectStart # J_Str ''host'' # J_Colon # u'"
    by (cases bs) (simp_all add: backend_tokens_def)
  define u where "u = u' @ J_ArrayEnd # J_ObjectEnd # ts"
  obtain k where k: "advance p = Some k" "at_tok k (J_Str ''prefix'') (J_Colon # J_Str (rt_prefix r) # J_Comma
      # J_Str ''backends'' # J_Colon # J_ArrayStart # backend_tokens b @ J_Comma # J_ObjectStart # J_Str ''host'' # J_Colon # u) rest"
    using route_start[OF assms(1) b] unfolding u_def tk append_Cons list.distinct(2)[THEN eq_False[THEN iffD2]] if_False .
  have vb: "valid_backend b" using assms(2) b by (simp add: valid_route_def)
  obtain e where e: "at_tok e J_ObjectEnd (J_Comma # J_ObjectStart # J_Str ''host'' # J_Colon # u) rest"
    "route_fields k \<lparr>rt_prefix = [], rt_backends = []\<rparr> =
       Option.bind (advance_comma e) (\<lambda>q1. route_fields q1 \<lparr>rt_prefix = rt_prefix r, rt_backends = [b]\<rparr>)"
    using route_fields_at[OF k(2) vb] .
  obtain a where a: "advance_comma e = Some a" "at_tok a J_ObjectStart (J_Str ''host'' # J_Colon # u) rest"
    using advance_comma_at[OF e(1)] .
  have "route_fields a r' = Some (Inr (a, r'))" for r'
    using at_tokD[OF a(2)] by (subst route_fields.simps) simp
  then have f: "route_fields k \<lparr>rt_prefix = [], rt_backends = []\<rparr> = Some (Inr (a, r\<lparr>rt_backends := [b]\<rparr>))"
    using e(2) a(1) by simp
  obtain q where q: "advance a = Some q" "at_tok q (J_Str ''host'') (J_Colon # u) rest" using advance_at[OF a(2)] .
  have "next_route a = Some q" using q at_tokD[OF q(2)] by (simp add: next_route_def)
  moreover have "routes_loop q rs' = Some (Inr (q, rs'))" for rs'
    using at_tokD[OF q(2)] by (subst routes_loop.simps) simp
  ultimately have "routes_loop p rs = Some (Inr (q, rs @ [r\<lparr>rt_backends := [hd (rt_backends r)]\<rparr>]))"
    using at_tokD[OF assms(1)] k(1) f assms(2) b
    by (subst routes_loop.simps) (simp add: add_route_if_valid_def valid_route_def)
  then show ?thesis using that q(2) by blast
qed

definition at_toks :: "json_parser \<Rightarrow> jtok list \<Rightarrow> bytes \<Rightarrow> bool" where
  "at_toks p ts rest = (case ts of [] \<Rightarrow> False | t # ts' \<Rightarrow> at_tok p t ts' rest)"

lemma route_list_cons:
  "list_tokens (map route_tokens (r # rs)) =
     J_ObjectStart # tl (route_tokens r) @ (if rs = [] then [] else J_Comma # list_tokens (map route_tokens rs))"
  by (cases rs) (simp_all add: route_tokens_def)

definition single_route :: "route \<Rightarrow> bool" where
  "single_route r \<longleftrightarrow> valid_route r \<and> length (rt_backends r) = 1"

text \<open>One route with one backend at the front of a list of routes that goes on with \<open>ts\<close>.\<close>

lemma routes_loop_step:
  assumes "at_toks p (list_tokens (map route_tokens (r # rs)) @ ts) rest" and "single_route r"
    and "rs = [] \<Longrightarrow> \<exists>t ts'. ts = t # ts' \<and> t \<noteq> J_Comma"
  obtains q where "routes_loop p acc = routes_loop q (acc @ [r])" "at_toks q (list_tokens (map route_tokens rs) @ ts) rest"
proof -
  let ?next = "(if rs = [] then [] else J_Comma # list_tokens (map route_tokens rs)) @ ts"
  have at: "at_tok p J_ObjectStart (tl (route_tokens r) @ ?next) rest"
    using assms(1) unfolding route_list_cons by (simp add: at_toks_def)
  obtain t' ts' where nx: "list_tokens (map route_tokens rs) @ ts = t' # ts'"
    "?next = J_Comma # t' # ts' \<or> ?next = t' # ts' \<and> t' \<noteq> J_Comma"
  proof (cases rs)
    case Nil
    then show ?thesis using assms(3) that by auto
  next
    case (Cons a as)
    then show ?thesis using that unfolding Cons route_list_cons by simp
  qed
  obtain q where "routes_loop p acc = routes_loop q (acc @ [r])" "at_tok q t' ts' rest"
    using routes_loop_one[OF at _ _ nx(2)] assms(2) unfolding single_route_def by blast
  then show ?thesis using that nx(1) by (simp add: at_toks_def)
qed

lemma routes_loop_all:
  assumes "at_toks p (list_tokens (map route_tokens rs) @ J_ArrayEnd # ts) rest" and "list_all single_route rs"
  shows "\<exists>q. routes_loop p acc = Some (Inr (q, acc @ rs)) \<and> at_tok q J_ArrayEnd ts rest"
  using assms
proof (induction rs arbitrary: p acc)
  case Nil
  then have at: "at_tok p J_ArrayEnd ts rest" by (simp add: at_toks_def)
  then have "routes_loop p acc = Some (Inr (p, acc))" using at_tokD[OF at] by (subst routes_loop.simps) simp
  then show ?case using at by simp
next
  case (Cons r rs)
  have s: "single_route r" using Cons.prems(2) by simp
  obtain q where "routes_loop p acc = routes_loop q (acc @ [r])" "at_toks q (list_tokens (map route_tokens rs) @ J_ArrayEnd # ts) rest"
    using routes_loop_step[OF Cons.prems(1) s] not_comma(2) by blast
  then show ?case using Cons.IH[of q "acc @ [r]"] Cons.prems(2) by simp
qed

lemma routes_loop_stops:
  assumes "at_toks p (list_tokens (map route_tokens (rs @ r # rs')) @ ts) rest" and "list_all single_route rs"
    and "valid_route r" and "2 \<le> length (rt_backends r)"
  shows "\<exists>q ts'. routes_loop p acc = Some (Inr (q, acc @ rs @ [r\<lparr>rt_backends := [hd (rt_backends r)]\<rparr>]))
    \<and> at_tok q (J_Str ''host'') (J_Colon # ts') rest"
  using assms(1,2)
proof (induction rs arbitrary: p acc)
  case Nil
  let ?next = "(if rs' = [] then [] else J_Comma # list_tokens (map route_tokens rs')) @ ts"
  have at: "at_tok p J_ObjectStart (tl (route_tokens r) @ ?next) rest"
    using Nil(1) unfolding append_Nil route_list_cons by (simp add: at_toks_def)
  obtain q ts' where "routes_loop p acc = Some (Inr (q, acc @ [r\<lparr>rt_backends := [hd (rt_backends r)]\<rparr>]))"
    "at_tok q (J_Str ''host'') (J_Colon # ts') rest"
    using routes_loop_many[OF at assms(3,4)] .
  then show ?case by auto
next
  case (Cons a rs)
  have s: "single_route a" using Cons.prems(2) by simp
  obtain q where q: "routes_loop p acc = routes_loop q (acc @ [a])"
    "at_toks q (list_tokens (map route_tokens (rs @ r # rs')) @ ts) rest"
    using routes_loop_step[OF Cons.prems(1)[unfolded append_Cons] s] by blast
  then show ?case using Cons.IH[of q "acc @ [a]"] Cons.prems(2) by simp
qed

section \<open>The top level\<close>

text \<open>The setting that a number token sets.\<close>

definition set_int :: "bytes \<Rightarrow> int \<Rightarrow> gateway_config \<Rightarrow> gateway_config option" where
  "set_int key n cfg = int_setting key \<lparr>jp_rest = [], jp_type = TT_Number, jp_text = show_int n, jp_error = False,
     jp_error_msg = [], jp_stack = []\<rparr> cfg"

lemma int_setting_at: "at_tok p (J_Num n) ts rest \<Longrightarrow> int_setting key p cfg = set_int key n cfg"
  by (simp add: set_int_def int_setting_def read_int_def at_tok_def)

lemma set_int_eval:
  assumes "fits_int n"
  shows "set_int ''listen_port'' n cfg = Some (cfg\<lparr>listen_port := n\<rparr>)"
    "set_int ''keep_alive_timeout_sec'' n cfg = Some (cfg\<lparr>keep_alive_timeout_sec := n\<rparr>)"
    "set_int ''thread_count'' n cfg = Some (cfg\<lparr>thread_count := n\<rparr>)"
    "set_int ''backend_timeout_ms'' n cfg = Some (cfg\<lparr>backend_timeout_ms := n\<rparr>)"
    "set_int ''max_request_size'' n cfg = Some (cfg\<lparr>max_request_size := n\<rparr>)"
    "set_int ''max_epoll_events'' n cfg = Some (cfg\<lparr>max_epoll_events := n\<rparr>)"
    "set_int ''idle_cleanup_interval_sec'' n cfg = Some (cfg\<lparr>idle_cleanup_interval_sec := n\<rparr>)"
    "set_int ''pool_max_idle_per_host'' n cfg = Some (cfg\<lparr>pool_max_idle_per_host := n\<rparr>)"
    "set_int ''pool_idle_timeout_sec'' n cfg = Some (cfg\<lparr>pool_idle_timeout_sec := n\<rparr>)"
    "set_int ''max_connections'' n cfg = Some (cfg\<lparr>max_connections := n\<rparr>)"
    "set_int ''max_queue_size'' n cfg = Some (cfg\<lparr>max_queue_size := n\<rparr>)"
    "set_int ''max_deferred_per_round'' n cfg = Some (cfg\<lparr>max_deferred_per_round := n\<rparr>)"
proof -
  have "read_int d \<lparr>jp_rest = [], jp_type = TT_Number, jp_text = show_int n, jp_error = False,
      jp_error_msg = [], jp_stack = []\<rparr> = n" for d
    using assms strtol_show_int[of n] to_int32_id[of n] by (simp add: read_int_def fits_int_def)
  note r = this
  show "set_int ''listen_port'' n cfg = Some (cfg\<lparr>listen_port := n\<rparr>)"
    "set_int ''keep_alive_timeout_sec'' n cfg = Some (cfg\<lparr>keep_alive_timeout_sec := n\<rparr>)"
    "set_int ''thread_count'' n cfg = Some (cfg\<lparr>thread_count := n\<rparr>)"
    "set_int ''backend_timeout_ms'' n cfg = Some (cfg\<lparr>backend_timeout_ms := n\<rparr>)"
    "set_int ''max_request_size'' n cfg = Some (cfg\<lparr>max_request_size := n\<rparr>)"
    "set_int ''max_epoll_events'' n cfg = Some (cfg\<lparr>max_epoll_events := n\<rparr>)"
    "set_int ''idle_cleanup_interval_sec'' n cfg = Some (cfg\<lparr>idle_cleanup_interval_sec := n\<rparr>)"
    "set_int ''pool_max_idle_per_host'' n cfg = Some (cfg\<lparr>pool_max_idle_per_host := n\<rparr>)"
    "set_int ''pool_idle_timeout_sec'' n cfg = Some (cfg\<lparr>pool_idle_timeout_sec := n\<rparr>)"
    "set_int ''max_connections'' n cfg = Some (cfg\<lparr>max_connections := n\<rparr>)"
    "set_int ''max_queue_size'' n cfg = Some (cfg\<lparr>max_queue_size := n\<rparr>)"
    "set_int ''max_deferred_per_round'' n cfg = Some (cfg\<lparr>max_deferred_per_round := n\<rparr>)"
    by (simp_all add: set_int_def int_setting_def r)
qed

fun set_ints :: "(bytes \<times> int) list \<Rightarrow> gateway_config \<Rightarrow> gateway_config option" where
  "set_ints [] cfg = Some cfg"
| "set_ints ((k, n) # kvs) cfg = Option.bind (set_int k n cfg) (set_ints kvs)"

lemma config_loop_ints:
  assumes "at_toks p (concat (map setting_tokens kvs) @ J_Str k # ts) rest" and "set_ints kvs cfg = Some cfg'"
  shows "\<exists>q. config_loop p cfg = config_loop q cfg' \<and> at_tok q (J_Str k) ts rest"
  using assms
proof (induction kvs arbitrary: p cfg)
  case Nil
  then show ?case by (auto simp: at_toks_def)
next
  case (Cons kv kvs)
  obtain key n where kv: "kv = (key, n)" by fastforce
  obtain cfg1 where c1: "set_int key n cfg = Some cfg1" "set_ints kvs cfg1 = Some cfg'"
    using Cons.prems(2) by (auto simp: kv bind_eq_Some_conv)
  obtain k' ts' where nx: "concat (map setting_tokens kvs) @ J_Str k # ts = J_Str k' # ts'"
    by (cases kvs) (auto simp: setting_tokens_def)
  have at: "at_tok p (J_Str key) (J_Colon # J_Num n # J_Comma # J_Str k' # ts') rest"
    using Cons.prems(1) nx by (simp add: at_toks_def kv setting_tokens_def[of "(key, n)"])
  obtain v where v: "to_value p = Some v" "at_tok v (J_Num n) (J_Comma # J_Str k' # ts') rest"
    using to_value_at[OF at] .
  obtain q where q: "advance_comma v = Some q" "at_tok q (J_Str k') ts' rest" using advance_comma_at[OF v(2)] .
  have "config_value key v cfg = Some (Inr (v, cfg1))"
    using int_setting_at[OF v(2)] c1(1) by (simp add: config_value_def)
  then have "config_loop p cfg = config_loop q cfg1"
    using at_tokD[OF at] v(1) q(1) at_tokD[OF q(2)] by (subst config_loop.simps) simp
  moreover have "\<exists>q'. config_loop q cfg1 = config_loop q' cfg' \<and> at_tok q' (J_Str k) ts rest"
    using Cons.IH[OF _ c1(2), of q] q(2) nx by (simp add: at_toks_def)
  ultimately show ?case by simp
qed

lemma set_ints_settings:
  assumes "list_all (fits_int \<circ> snd) (settings_of cfg)"
  shows "set_ints (settings_of cfg) gateway_config_init = Some (cfg\<lparr>cfg_routes := []\<rparr>)"
  using assms by (cases cfg) (simp add: settings_of_def set_int_eval gateway_config_init_def)

text \<open>What follows a top-level value, and what is made of the result of the loop.\<close>

definition after_value :: "json_parser \<Rightarrow> gateway_config \<Rightarrow> (bytes + json_parser \<times> gateway_config) option" where
  "after_value p cfg = Option.bind (advance_comma p) (\<lambda>q.
     if jp_type q \<noteq> TT_String \<and> jp_type q \<noteq> TT_ObjectEnd then Some (Inr (q, cfg)) else config_loop q cfg)"

definition finish :: "(bytes + json_parser \<times> gateway_config) option \<Rightarrow> (bytes + gateway_config) option" where
  "finish res = map_option (\<lambda>res. case res of
       Inl msg \<Rightarrow> Inl (if msg = [] then ''Unknown parse error'' else msg) | Inr cfg \<Rightarrow> Inr cfg)
     (Option.bind res (\<lambda>res. case res of
        Inl msg \<Rightarrow> Some (Inl msg)
      | Inr (q, cfg) \<Rightarrow> if jp_error q then Some (Inl (jp_error_msg q)) else Some (Inr cfg)))"

lemma load_json_start:
  assumes "spelled (J_ObjectStart # t # ts) rest json"
  obtains q where "at_tok q t ts rest"
    "load_json t0 json = finish (config_loop q gateway_config_init)"
proof -
  have sp: "spelled (J_ObjectStart # t # ts) rest (jp_rest (new_json_parser t0 json))" "\<not> jp_error (new_json_parser t0 json)"
    using assms by (simp_all only: new_json_parser_def json_parser.select_convs not_False_eq_True)
  obtain p where p: "advance (new_json_parser t0 json) = Some p" "at_tok p J_ObjectStart (t # ts) rest"
    using advance_spelled[OF sp] .
  obtain q where q: "advance p = Some q" "at_tok q t ts rest" using advance_at[OF p(2)] .
  show ?thesis
    using that[OF q(2)] p(1) q(1) at_tokD[OF p(2)] by (simp add: load_json_def parse_config_def finish_def)
qed

lemma config_loop_routes:
  assumes "spelled (config_tokens cfg) rest json" and "list_all (fits_int \<circ> snd) (settings_of cfg)"
  obtains q where "at_toks q (list_tokens (map route_tokens (cfg_routes cfg)) @ [J_ArrayEnd, J_ObjectEnd]) rest"
    "\<forall>rs q'. routes_loop q [] = Some (Inr (q', rs)) \<longrightarrow>
       load_json t0 json = finish (after_value q' (cfg\<lparr>cfg_routes := rs\<rparr>))"
proof -
  let ?rt = "list_tokens (map route_tokens (cfg_routes cfg)) @ [J_ArrayEnd, J_ObjectEnd]"
  let ?kvs = "concat (map setting_tokens (settings_of cfg))"
  obtain t ts where tt: "?kvs @ J_Str ''routes'' # J_Colon # J_ArrayStart # ?rt = t # ts"
    by (cases ?kvs) simp_all
  have "spelled (J_ObjectStart # t # ts) rest json" using assms(1) tt by (simp add: config_tokens_def)
  from load_json_start[OF this, of t0] obtain k where k: "at_tok k t ts rest"
    "load_json t0 json = finish (config_loop k gateway_config_init)" .
  have "at_toks k (?kvs @ J_Str ''routes'' # J_Colon # J_ArrayStart # ?rt) rest" using k(1) tt by (simp add: at_toks_def)
  from config_loop_ints[OF this set_ints_settings[OF assms(2)]] obtain r
    where r: "config_loop k gateway_config_init = config_loop r (cfg\<lparr>cfg_routes := []\<rparr>)"
      "at_tok r (J_Str ''routes'') (J_Colon # J_ArrayStart # ?rt) rest" by blast
  obtain p where p: "to_value r = Some p" "at_tok p J_ArrayStart ?rt rest" using to_value_at[OF r(2)] .
  obtain t' ts' where t': "?rt = t' # ts'" by (cases ?rt) simp_all
  obtain q where q: "advance p = Some q" "at_tok q t' ts' rest" using advance_at[OF p(2)[unfolded t']] .
  have cv: "config_value ''routes'' p (cfg\<lparr>cfg_routes := []\<rparr>) = Some (Inr (q', cfg\<lparr>cfg_routes := rs\<rparr>))"
    if "routes_loop q [] = Some (Inr (q', rs))" for q' rs
    using that at_tokD[OF p(2)] q(1) by (simp add: config_value_def int_setting_def)
  have "load_json t0 json = finish (after_value q' (cfg\<lparr>cfg_routes := rs\<rparr>))"
    if "routes_loop q [] = Some (Inr (q', rs))" for rs q'
    using k(2) r at_tokD[OF r(2)] p(1) cv[OF that] config_loop.simps[of r] by (simp add: after_value_def)
  moreover have "at_toks q ?rt rest" using q(2) t' by (simp add: at_toks_def)
  ultimately show ?thesis using that by blast
qed

section \<open>Text without gaps\<close>

definition print_tokens :: "jtok list \<Rightarrow> bytes" where
  "print_tokens ts = concat (map spelling ts)"

fun is_num :: "jtok \<Rightarrow> bool" where
  "is_num (J_Num n) = True"
| "is_num t = False"

fun separated :: "jtok list \<Rightarrow> bool" where
  "separated (t # t' # ts) = ((is_num t \<longrightarrow> \<not> is_num t') \<and> separated (t' # ts))"
| "separated ts = True"

lemma not_num_start: "\<not> is_num t \<Longrightarrow> \<not> in_number (hd (spelling t @ r))"
  by (cases t) (auto simp: in_number_def is_digit_def DQUOTE_def)

lemma spelled_cons: "\<not> is_num t \<Longrightarrow> spelled ts rest r \<Longrightarrow> spelled (t # ts) rest (spelling t @ r)"
  using gap_empty by (subst spelled.simps) (rule exI[of _ "[]"], auto)

lemma spelled_print: "separated ts \<Longrightarrow> spelled ts [] (print_tokens ts)"
proof (induction ts rule: separated.induct)
  case (1 t t' ts)
  have "\<forall>n. t = J_Num n \<longrightarrow> \<not> in_number (hd (print_tokens (t' # ts)))"
    using 1(2) not_num_start[of t' "print_tokens ts"] by (auto simp: print_tokens_def)
  then show ?case using 1 gap_empty
    by (subst spelled.simps) (intro exI[of _ "[]"] exI[of _ "print_tokens (t' # ts)"], simp add: print_tokens_def)
next
  case "2_2"
  show ?case using gap_empty by (auto simp: print_tokens_def intro!: exI[of _ "[]"])
qed (simp add: print_tokens_def)

lemma load_printed_config:
  assumes "spelled (config_tokens cfg) rest json" and "list_all (fits_int \<circ> snd) (settings_of cfg)"
    and "list_all single_route (cfg_routes cfg)"
  shows "load_json t0 json = Some (Inr cfg)"
proof -
  obtain q where q: "at_toks q (list_tokens (map route_tokens (cfg_routes cfg)) @ [J_ArrayEnd, J_ObjectEnd]) rest"
    and run: "\<forall>rs q'. routes_loop q [] = Some (Inr (q', rs)) \<longrightarrow>
       load_json t0 json = finish (after_value q' (cfg\<lparr>cfg_routes := rs\<rparr>))"
    using config_loop_routes[OF assms(1,2), of t0] .
  obtain a where a: "routes_loop q [] = Some (Inr (a, cfg_routes cfg))" "at_tok a J_ArrayEnd [J_ObjectEnd] rest"
    using routes_loop_all[OF q assms(3), of "[]"] by auto
  obtain e where e: "advance_comma a = Some e" "at_tok e J_ObjectEnd [] rest"
    using advance_no_comma_at[OF a(2) not_comma(1)] .
  have "config_loop e cfg = Some (Inr (e, cfg))" using at_tokD[OF e(2)] by (subst config_loop.simps) simp
  then show ?thesis using run[rule_format, OF a(1)] e(1) at_tokD[OF e(2)] by (simp add: after_value_def finish_def)
qed

lemma load_printed_default:
  "load_json TT_End (print_tokens (config_tokens load_default_config)) = Some (Inr load_default_config)"
proof (rule load_printed_config)
  show "spelled (config_tokens load_default_config) [] (print_tokens (config_tokens load_default_config))"
    by (rule spelled_print)
      (simp add: config_tokens_def settings_of_def setting_tokens_def route_tokens_def backend_tokens_def load_default_config_def)
qed (simp_all add: settings_of_def load_default_config_def gateway_config_init_def fits_int_def single_route_def
      valid_route_def valid_backend_def)

section \<open>Properties\<close>

text \<open>C16: a configuration in which every route has one backend is read back as it was written: for
  every JSON text of it, with any blanks and comments between the tokens, \<^verbatim>\<open>load_json\<close> returns exactly
  that configuration.\<close>
theorem config_roundtrip:
  assumes "spelled (config_tokens cfg) rest json" and "list_all (fits_int \<circ> snd) (settings_of cfg)"
    and "list_all single_route (cfg_routes cfg)"
  shows "load_json t0 json = Some (Inr cfg)"
  using assms by (rule load_printed_config)

theorem config_roundtrip_witness:
  "load_json TT_End (print_tokens (config_tokens load_default_config)) = Some (Inr load_default_config)"
proof (rule config_roundtrip)
  show "spelled (config_tokens load_default_config) [] (print_tokens (config_tokens load_default_config))"
    by (rule spelled_print)
      (simp add: config_tokens_def settings_of_def setting_tokens_def route_tokens_def backend_tokens_def load_default_config_def)
qed (simp_all add: settings_of_def load_default_config_def gateway_config_init_def fits_int_def single_route_def
      valid_route_def valid_backend_def)

text \<open>C38: a route with two or more backends ends the configuration. Only the first backend of that
  route is kept, and everything after it - its other backends and all following routes - is dropped
  without an error, although the documentation of the loader shows such a configuration as its
  example.\<close>
theorem config_second_backend_lost:
  assumes "spelled (config_tokens cfg) rest json" and "list_all (fits_int \<circ> snd) (settings_of cfg)"
    and "cfg_routes cfg = rs @ r # rs'" and "list_all single_route rs" and "valid_route r" and "2 \<le> length (rt_backends r)"
  shows "load_json t0 json = Some (Inr (cfg\<lparr>cfg_routes := rs @ [r\<lparr>rt_backends := [hd (rt_backends r)]\<rparr>]\<rparr>))"
proof -
  let ?rs = "rs @ [r\<lparr>rt_backends := [hd (rt_backends r)]\<rparr>]"
  obtain q where q: "at_toks q (list_tokens (map route_tokens (cfg_routes cfg)) @ [J_ArrayEnd, J_ObjectEnd]) rest"
    and run: "\<forall>rs q'. routes_loop q [] = Some (Inr (q', rs)) \<longrightarrow>
       load_json t0 json = finish (after_value q' (cfg\<lparr>cfg_routes := rs\<rparr>))"
    using config_loop_routes[OF assms(1,2), of t0] .
  obtain a ts' where a: "routes_loop q [] = Some (Inr (a, ?rs))" "at_tok a (J_Str ''host'') (J_Colon # ts') rest"
    using routes_loop_stops[OF q[unfolded assms(3)] assms(4-6), of "[]"] by auto
  obtain e where "advance_comma a = Some e" "at_tok e J_Colon ts' rest"
    using advance_no_comma_at[OF a(2)] by blast
  then show ?thesis using run[rule_format, OF a(1)] at_tokD[of e J_Colon] by (simp add: after_value_def finish_def)
qed

definition wtwo :: gateway_config where
  "wtwo = load_default_config\<lparr>cfg_routes := [\<lparr>rt_prefix = ''/api/user'',
     rt_backends = [\<lparr>be_host = ''127.0.0.1'', be_port = 9001\<rparr>, \<lparr>be_host = ''127.0.0.1'', be_port = 9002\<rparr>]\<rparr>,
     \<lparr>rt_prefix = ''/api/order'', rt_backends = [\<lparr>be_host = ''127.0.0.1'', be_port = 9003\<rparr>]\<rparr>]\<rparr>"

theorem config_second_backend_lost_witness:
  "load_json TT_End (print_tokens (config_tokens wtwo)) =
     Some (Inr (wtwo\<lparr>cfg_routes := [\<lparr>rt_prefix = ''/api/user'', rt_backends = [\<lparr>be_host = ''127.0.0.1'', be_port = 9001\<rparr>]\<rparr>]\<rparr>))"
proof -
  have 1: "spelled (config_tokens wtwo) [] (print_tokens (config_tokens wtwo))"
    by (rule spelled_print)
      (simp add: config_tokens_def settings_of_def setting_tokens_def route_tokens_def backend_tokens_def wtwo_def load_default_config_def)
  have 2: "list_all (fits_int \<circ> snd) (settings_of wtwo)"
    by (simp add: settings_of_def wtwo_def load_default_config_def gateway_config_init_def fits_int_def)
  have 3: "cfg_routes wtwo = [] @ hd (cfg_routes wtwo) # tl (cfg_routes wtwo)" by (simp add: wtwo_def)
  show ?thesis
    using config_second_backend_lost[OF 1 2 3, of TT_End]
    by (simp add: wtwo_def valid_route_def valid_backend_def)
qed

section \<open>Input that is not JSON\<close>

text \<open>A character no token begins with.\<close>

definition unexpected :: "char \<Rightarrow> bool" where
  "unexpected c \<longleftrightarrow> \<not> json_blank c \<and> \<not> is_digit c \<and> c \<noteq> DQUOTE \<and> c \<notin> set ''/{}[]:,-tfn''"

definition stuck_parser :: "json_parser \<Rightarrow> bool" where
  "stuck_parser p \<longleftrightarrow> jp_type p = TT_String \<and> jp_text p \<noteq> ''routes'' \<and> advance p = Some p"

lemma config_value_string:
  assumes "jp_type q = TT_String" and "key \<noteq> ''routes''"
  shows "config_value key q cfg = Some (Inr (q, cfg))"
proof -
  have "int_setting key q cfg = None \<or> int_setting key q cfg = Some cfg"
    using assms(1) by (simp add: int_setting_def read_int_def)
  then show ?thesis
    using assms by (elim disjE) (simp_all add: config_value_def skip_value_def)
qed

lemma config_loop_diverges:
  assumes "stuck_parser p"
  shows "config_loop p cfg = None"
proof (rule ccontr)
  assume "config_loop p cfg \<noteq> None"
  then obtain y where y: "config_loop p cfg = Some y" by auto
  have "\<not> stuck_parser p"
  proof (induction rule: config_loop.raw_induct)
    case (1 loop p cfg y)
    show ?case
    proof
      assume s: "stuck_parser p"
      then have "config_value (jp_text p) p cfg = Some (Inr (p, cfg))"
        by (simp add: stuck_parser_def config_value_string)
      then have "loop p cfg = Some y"
        using 1(2) s by (simp add: stuck_parser_def to_value_def advance_comma_def)
      then show False using 1 s by blast
    qed
  qed (rule y)
  with assms show False by simp
qed

lemma advance_unexpected:
  assumes "gap g" and "unexpected c" and "jp_rest p = g @ c # tail"
  shows "advance p = Some (set_error (''Unexpected character: '' @ in_quotes [c]) (p\<lparr>jp_rest := c # tail\<rparr>))"
proof -
  have "skip_whitespace (jp_rest p) = Some (c # tail)"
    using skip_gap[OF assms(1), of "c # tail"] assms(2,3) by (simp add: unexpected_def)
  moreover have "scan_token c tail q = set_error (''Unexpected character: '' @ in_quotes [c]) q" for q
    using assms(2) by (simp add: scan_token_def unexpected_def)
  ultimately show ?thesis by (simp add: advance_def)
qed

text \<open>the loader hangs on malformed input. When the key of a setting is followed by a character
  that no JSON token begins with (an equals sign, say), the tokenizer reports the error without moving
  on, nobody looks at the report before the loop ends, and the loop reads the same key for ever: the
  gateway does not start and prints no message.\<close>
theorem config_hangs_on_unexpected_character:
  assumes "spelled [J_ObjectStart, J_Str key] (g @ c # tail) json" and "gap g" and "unexpected c" and "key \<noteq> ''routes''"
  shows "load_json t0 json = None"
proof -
  obtain q where q: "at_tok q (J_Str key) [] (g @ c # tail)" "load_json t0 json = finish (config_loop q gateway_config_init)"
    using load_json_start[OF assms(1)] .
  let ?q = "set_error (''Unexpected character: '' @ in_quotes [c]) (q\<lparr>jp_rest := c # tail\<rparr>)"
  have 1: "advance q = Some ?q"
    using advance_unexpected[OF assms(2,3), of q tail] q(1) by (simp add: at_tok_def)
  have 2: "advance ?q = Some ?q"
    using advance_unexpected[OF gap_empty assms(3), of ?q tail] by (simp add: set_error_def)
  have "stuck_parser ?q" using 2 q(1) assms(4) by (simp add: stuck_parser_def at_tok_def set_error_def)
  moreover have "config_loop q gateway_config_init = config_loop ?q gateway_config_init"
  proof -
    have ty: "jp_type q = TT_String" "jp_type ?q = TT_String" "jp_text q = key"
      using q(1) by (simp_all add: at_tok_def set_error_def)
    then show ?thesis
      using 1 2 config_value_string[OF ty(2) assms(4)] by (subst config_loop.simps) (simp add: to_value_def advance_comma_def)
  qed
  ultimately show ?thesis using q(2) config_loop_diverges by (simp add: finish_def)
qed

definition wequals :: bytes where
  "wequals = ''{'' @ DQUOTE # ''listen_port'' @ DQUOTE # '' = 8080}''"

theorem config_hangs_on_unexpected_character_witness: "load_json TT_End wequals = None"
proof (rule config_hangs_on_unexpected_character[where key = "''listen_port''" and g = "'' ''" and c = "CHR ''=''" and tail = "'' 8080}''"])
  have eq: "wequals = spelling J_ObjectStart @ spelling (J_Str ''listen_port'') @ '' = 8080}''"
    by (simp add: wequals_def escape_char_def DQUOTE_def)
  have "spelled [J_Str ''listen_port''] ('' '' @ CHR ''='' # '' 8080}'') (spelling (J_Str ''listen_port'') @ '' = 8080}'')"
    by (rule spelled_cons) simp_all
  then show "spelled [J_ObjectStart, J_Str ''listen_port''] ('' '' @ CHR ''='' # '' 8080}'') wequals"
    unfolding eq by (intro spelled_cons) simp_all
  show "gap '' ''" using gap_blank[OF _ gap_empty] by (simp add: json_blank_def)
  show "unexpected (CHR ''='')"
    by (simp add: unexpected_def json_blank_def is_digit_def DQUOTE_def TAB_def LF_def CR_def)
qed simp

end
