(* ===== verification/Gw_Config_Valid.thy ===== *)
theory Gw_Config_Valid
  imports Gw_Config_Json
begin

text \<open>
  What holds of every configuration the loader returns, for arbitrary file contents: the loops of
  \<^verbatim>\<open>parse_config\<close> only build routes and settings that are well formed. The loops are partial functions, so
  the lemmas are by fixpoint induction.
\<close>

section \<open>Values\<close>

lemma bind_someE:
  assumes "Option.bind m f = Some y"
  obtains x where "m = Some x" and "f x = Some y"
  using assms by (cases m) simp_all

lemma map_sum_Inr: "map_sum f g z = Inr y \<longleftrightarrow> (\<exists>x. z = Inr x \<and> y = g x)"
  by (cases z) auto

lemma if_someE:
  assumes "(if c then Some a else m) = Some y"
  obtains "a = y" | "m = Some y"
  using assms by (cases c) simp_all

lemma to_int32_fits: "fits_int (to_int32 i)"
proof -
  have "0 \<le> i mod 2 ^ 32" "i mod 2 ^ 32 < 2 ^ 32" by simp_all
  then show ?thesis by (auto simp: to_int32_def fits_int_def Let_def)
qed

lemma read_int_fits: "fits_int d \<Longrightarrow> fits_int (read_int d p)"
  by (simp add: read_int_def to_int32_fits split: prod.splits)

section \<open>Routes\<close>

lemma backend_fields_fits:
  assumes "backend_fields p b = Some (q, b')" and "fits_int (be_port b)"
  shows "fits_int (be_port b')"
proof -
  have "fits_int (be_port b) \<longrightarrow> fits_int (be_port (snd y))" if "backend_fields p b = Some y" for y
  proof (induction rule: backend_fields.raw_induct[where P = "\<lambda>p b y. fits_int (be_port b) \<longrightarrow> fits_int (be_port (snd y))"])
    case (1 loop p b y)
    then consider "y = (p, b)" | q1 s where "loop q1 (b\<lparr>be_host := s\<rparr>) = Some y"
      | q q1 where "loop q1 (b\<lparr>be_port := read_int 0 q\<rparr>) = Some y" | q1 where "loop q1 b = Some y"
      by (fastforce simp: bind_eq_Some_conv split: if_splits)
    then show ?case
    proof cases
      case 3
      have "fits_int (read_int 0 q)" by (rule read_int_fits) (simp add: fits_int_def)
      then show ?thesis using 1(1)[OF 3] by simp
    next
      case 2
      then show ?thesis using 1(1)[OF 2] by simp
    next
      case 4
      then show ?thesis by (rule 1(1))
    qed simp
  qed (rule that)
  from this[OF assms(1)] assms(2) show ?thesis by simp
qed

lemma add_backend_valid:
  "fits_int (be_port b) \<Longrightarrow> list_all valid_backend bs \<Longrightarrow> list_all valid_backend (add_backend_if_valid b bs)"
  by (simp add: add_backend_if_valid_def valid_backend_def fits_int_def)

lemma backends_loop_valid:
  assumes "backends_loop p bs = Some (q, bs')" and "list_all valid_backend bs"
  shows "list_all valid_backend bs'"
proof -
  have "list_all valid_backend bs \<longrightarrow> list_all valid_backend (snd y)" if "backends_loop p bs = Some y" for y
  proof (induction rule: backends_loop.raw_induct[where P = "\<lambda>p bs y. list_all valid_backend bs \<longrightarrow> list_all valid_backend (snd y)"])
    case (1 loop p bs y)
    show ?case
    proof (cases "jp_type p = TT_ObjectStart")
      case True
      with 1(2) obtain q q1 b where q: "advance p = Some q" "backend_fields q \<lparr>be_host = [], be_port = 0\<rparr> = Some (q1, b)"
        and l: "\<exists>q2. loop q2 (add_backend_if_valid b bs) = Some y"
        by (auto simp: bind_eq_Some_conv Let_def split: if_splits)
      have "fits_int (be_port b)" using backend_fields_fits[OF q(2)] by (simp add: fits_int_def)
      then show ?thesis using l 1(1) add_backend_valid by blast
    qed (use 1(2) in auto)
  qed (rule that)
  from this[OF assms(1)] assms(2) show ?thesis by simp
qed

lemma route_fields_valid:
  assumes "route_fields p r = Some (Inr (q, r'))" and "list_all valid_backend (rt_backends r)"
  shows "list_all valid_backend (rt_backends r')"
proof -
  have "\<forall>q r'. y = Inr (q, r') \<longrightarrow> list_all valid_backend (rt_backends r) \<longrightarrow> list_all valid_backend (rt_backends r')"
    if "route_fields p r = Some y" for y
  proof (induction rule: route_fields.raw_induct)
    case (1 loop p r y)
    then consider "y = Inr (p, r)" | msg where "y = Inl msg" | q1 r1 where "loop q1 r1 = Some y" "rt_backends r1 = rt_backends r"
      | q0 q2 q1 bs where "backends_loop q0 (rt_backends r) = Some (q2, bs)" "loop q1 (r\<lparr>rt_backends := bs\<rparr>) = Some y"
      by (fastforce simp: bind_eq_Some_conv split: if_splits)
    then show ?case
    proof cases
      case 3
      then show ?thesis using 1(1)[OF 3(1)] by simp
    next
      case 4
      then show ?thesis using 1(1)[OF 4(2)] backends_loop_valid[OF 4(1)] by simp
    qed simp_all
  qed (rule that)
  from this[OF assms(1)] assms(2) show ?thesis by simp
qed

lemma routes_loop_valid:
  assumes "routes_loop p rs = Some (Inr (q, rs'))" and "list_all valid_route rs"
  shows "list_all valid_route rs'"
proof -
  have "\<forall>q rs'. y = Inr (q, rs') \<longrightarrow> list_all valid_route rs \<longrightarrow> list_all valid_route rs'"
    if "routes_loop p rs = Some y" for y
  proof (induction rule: routes_loop.raw_induct)
    case (1 loop p rs y)
    then consider "y = Inr (p, rs)" | msg where "y = Inl msg"
      | q q1 r q2 where "route_fields q \<lparr>rt_prefix = [], rt_backends = []\<rparr> = Some (Inr (q1, r))"
          "loop q2 (add_route_if_valid r rs) = Some y"
      by (auto elim!: bind_someE split: if_split_asm sum.split_asm prod.split_asm)
    then show ?case
    proof cases
      case 3
      have "list_all valid_backend (rt_backends r)" using route_fields_valid[OF 3(1)] by simp
      then show ?thesis using 1(1)[OF 3(2)] by (auto simp: add_route_if_valid_def valid_route_def)
    qed simp_all
  qed (rule that)
  from this[OF assms(1)] assms(2) show ?thesis by simp
qed

section \<open>Configurations\<close>

definition config_ok :: "gateway_config \<Rightarrow> bool" where
  "config_ok cfg \<longleftrightarrow> list_all valid_route (cfg_routes cfg) \<and> list_all (fits_int \<circ> snd) (settings_of cfg)"

lemma int_setting_ok:
  assumes "int_setting key p cfg = Some cfg'" and "config_ok cfg"
  shows "config_ok cfg'"
  using assms unfolding int_setting_def
  by (elim if_someE) (auto simp: config_ok_def settings_of_def read_int_fits)

lemma config_value_ok:
  assumes "config_value key p cfg = Some (Inr (q, cfg'))" and "config_ok cfg"
  shows "config_ok cfg'"
proof (cases "int_setting key p cfg")
  case None
  show ?thesis
  proof (cases "key = ''routes''")
    case True
    with assms(1) None obtain r z where "routes_loop r (cfg_routes cfg) = Some z"
      and "map_sum id (\<lambda>(q1, rs). (q1, cfg\<lparr>cfg_routes := rs\<rparr>)) z = Inr (q, cfg')"
      unfolding config_value_def by (auto elim!: bind_someE split: if_split_asm)
    then obtain q1 rs where rs: "routes_loop r (cfg_routes cfg) = Some (Inr (q1, rs))" "cfg' = cfg\<lparr>cfg_routes := rs\<rparr>"
      by (auto simp: map_sum_Inr)
    then show ?thesis using assms(2) routes_loop_valid[OF rs(1)] by (simp add: config_ok_def settings_of_def)
  qed (use assms None in \<open>auto simp: config_value_def\<close>)
next
  case (Some c)
  with assms show ?thesis by (simp add: config_value_def int_setting_ok)
qed

lemma config_loop_ok:
  assumes "config_loop p cfg = Some (Inr (q, cfg'))" and "config_ok cfg"
  shows "config_ok cfg'"
proof -
  have "\<forall>q cfg'. y = Inr (q, cfg') \<longrightarrow> config_ok cfg \<longrightarrow> config_ok cfg'" if "config_loop p cfg = Some y" for y
  proof (induction rule: config_loop.raw_induct)
    case (1 loop p cfg y)
    then consider "y = Inr (p, cfg)" | msg where "y = Inl msg"
      | q q1 q2 c where "config_value (jp_text p) q cfg = Some (Inr (q1, c))" "y = Inr (q2, c) \<or> loop q2 c = Some y"
      by (fastforce elim!: bind_someE split: if_split_asm sum.split_asm prod.split_asm)
    then show ?case
    proof cases
      case 3
      then show ?thesis using 1(1)[of q2 c y] config_value_ok[OF 3(1)] by auto
    qed simp_all
  qed (rule that)
  from this[OF assms(1)] assms(2) show ?thesis by simp
qed

lemma init_ok: "config_ok gateway_config_init"
  by (simp add: config_ok_def settings_of_def gateway_config_init_def fits_int_def)

lemma load_json_ok:
  assumes "load_json t0 json = Some (Inr cfg)"
  shows "config_ok cfg"
proof -
  have "parse_config t0 json = Some (Inr cfg)"
    using assms by (cases "parse_config t0 json") (auto simp: load_json_def split: sum.split_asm)
  then obtain q q1 where "config_loop q gateway_config_init = Some (Inr (q1, cfg))"
    by (auto simp: parse_config_def elim!: bind_someE split: if_split_asm sum.split_asm prod.split_asm)
  then show ?thesis using config_loop_ok init_ok by blast
qed

lemma config_load_ok:
  assumes "config_load t0 path io = Some (Inr cfg)"
  shows "config_ok cfg"
proof -
  from assms have "\<exists>json. load_json t0 json = Some (Inr cfg)"
    by (auto simp: config_load_def split: file_io.splits if_splits)
  then show ?thesis using load_json_ok by blast
qed

section \<open>Properties\<close>

text \<open>C17: a loaded configuration is well formed. Whatever bytes the file holds, when the loader returns a
  configuration, every route has a prefix and at least one backend, every backend has a host and a
  positive port, and every setting is in the range of a 32-bit integer.\<close>
theorem loaded_config_well_formed:
  assumes "config_load t0 path io = Some (Inr cfg)"
  shows "list_all valid_route (cfg_routes cfg) \<and> list_all (fits_int \<circ> snd) (settings_of cfg)"
  using config_load_ok[OF assms] by (simp add: config_ok_def)

theorem loaded_config_well_formed_witness:
  "list_all valid_route (cfg_routes load_default_config) \<and> cfg_routes load_default_config \<noteq> []"
proof -
  let ?json = "print_tokens (config_tokens load_default_config)"
  have "?json \<noteq> []" by (simp add: print_tokens_def config_tokens_def)
  then have "config_load TT_End ''config.json'' (F_Size (int (length ?json)) ?json) = Some (Inr load_default_config)"
    using load_printed_default by (simp add: config_load_def)
  from loaded_config_well_formed[OF this] show ?thesis by (simp add: load_default_config_def)
qed

end
