(* ===== verification/Gw_Event_Loop.thy ===== *)
theory Gw_Event_Loop
  imports Gw_Timer Gw_Load_Balancer
begin

text \<open>
  The event loop of \<^verbatim>\<open>src/src/net/event_loop.cpp\<close>. A callback or a task acts on a world, the pair of the
  loop and of whatever else it changes, and may fail to return, which is \<^term>\<open>None\<close>. The kernel is a
  parameter: the answer of \<^verbatim>\<open>epoll_ctl\<close>, and the list of the answers of \<^verbatim>\<open>epoll_wait\<close>.

  The queue of deferred tasks is used from several threads, so it has a second model: the steps of
  \<open>queue_step\<close> are the pieces of \<^verbatim>\<open>defer\<close> and \<^verbatim>\<open>run_deferred_tasks\<close> that other threads can come between.
  The locale \<open>deferring_tasks\<close> is the contract of the tasks the loop runs; under it the sequential
  definition is shown to be one of the runs of the step relation.
\<close>

section \<open>The queue of deferred tasks\<close>

record 'task defer_queue =
  deferred_tasks :: "'task list"
  pending_tasks :: "'task list"
  max_deferred_per_round :: int
  wakeup_count :: nat

text \<open>The counter of an eventfd saturates: a write that would exceed the maximum fails and leaves it.\<close>

definition eventfd_max :: nat where "eventfd_max = size_mod - 2"

definition wakeup_write :: "('task, 'z) defer_queue_scheme \<Rightarrow> ('task, 'z) defer_queue_scheme" where
  "wakeup_write q = q\<lparr>wakeup_count := (if wakeup_count q < eventfd_max then wakeup_count q + 1 else wakeup_count q)\<rparr>"

definition wakeup_drain :: "('task, 'z) defer_queue_scheme \<Rightarrow> ('task, 'z) defer_queue_scheme" where
  "wakeup_drain q = q\<lparr>wakeup_count := 0\<rparr>"

definition push_task :: "'task \<Rightarrow> ('task, 'z) defer_queue_scheme \<Rightarrow> ('task, 'z) defer_queue_scheme" where
  "push_task t q = q\<lparr>deferred_tasks := deferred_tasks q @ [t]\<rparr>"

definition loop_defer :: "'task \<Rightarrow> ('task, 'z) defer_queue_scheme \<Rightarrow> ('task, 'z) defer_queue_scheme" where
  "loop_defer t q = wakeup_write (push_task t q)"

definition take_tasks :: "('task, 'z) defer_queue_scheme \<Rightarrow> 'task list \<times> ('task, 'z) defer_queue_scheme" where
  "take_tasks q = (pending_tasks q @ deferred_tasks q, q\<lparr>deferred_tasks := [], pending_tasks := []\<rparr>)"

definition over_limit :: "int \<Rightarrow> nat \<Rightarrow> bool" where
  "over_limit batch_limit n \<longleftrightarrow> 0 < batch_limit \<and> batch_limit < narrow_int n"

definition keep_rest :: "'task list \<Rightarrow> ('task, 'z) defer_queue_scheme \<Rightarrow> ('task, 'z) defer_queue_scheme" where
  "keep_rest rest q = wakeup_write (q\<lparr>pending_tasks := pending_tasks q @ rest\<rparr>)"

fun run_tasks :: "('task \<Rightarrow> 'w \<Rightarrow> 'w option) \<Rightarrow> 'task list \<Rightarrow> 'w \<Rightarrow> 'w option" where
  "run_tasks exec [] w = Some w"
| "run_tasks exec (t # ts) w = (case exec t w of None \<Rightarrow> None | Some w' \<Rightarrow> run_tasks exec ts w')"

definition run_deferred_tasks ::
    "('task \<Rightarrow> ('task, 'z) defer_queue_scheme \<times> 's \<Rightarrow> (('task, 'z) defer_queue_scheme \<times> 's) option)
      \<Rightarrow> ('task, 'z) defer_queue_scheme \<times> 's \<Rightarrow> (('task, 'z) defer_queue_scheme \<times> 's) option" where
  "run_deferred_tasks exec w =
     (let (tasks, q) = take_tasks (fst w);
          batch_limit = max_deferred_per_round q;
          n = length tasks
      in if over_limit batch_limit n
         then map_option (\<lambda>(q', s). (keep_rest (drop (nat batch_limit) tasks) q', s))
                (run_tasks exec (take (nat batch_limit) tasks) (q, snd w))
         else run_tasks exec tasks (q, snd w))"

text \<open>The callback the constructor registers for the eventfd.\<close>

definition on_wakeup ::
    "('task \<Rightarrow> ('task, 'z) defer_queue_scheme \<times> 's \<Rightarrow> (('task, 'z) defer_queue_scheme \<times> 's) option)
      \<Rightarrow> ('task, 'z) defer_queue_scheme \<times> 's \<Rightarrow> (('task, 'z) defer_queue_scheme \<times> 's) option" where
  "on_wakeup exec w = run_deferred_tasks exec (wakeup_drain (fst w), snd w)"

section \<open>The loop\<close>

datatype 'cb loop_callback = Cb_Wakeup | Cb_User 'cb

record ('cb, 'task) event_loop = "'task defer_queue" +
  callbacks :: "int \<Rightarrow> 'cb loop_callback option"
  registrations :: "int \<Rightarrow> nat option"
  loop_running :: bool
  wakeup_fd :: int
  idle_cb_set :: bool
  timer_set :: bool

definition EPOLLIN :: nat where "EPOLLIN = 1"
definition EPOLLOUT :: nat where "EPOLLOUT = 4"
definition EPOLLERR :: nat where "EPOLLERR = 8"
definition EPOLLHUP :: nat where "EPOLLHUP = 16"
definition EPOLLET :: nat where "EPOLLET = 2 ^ 31"

text \<open>The callback for idle rounds and the timer are fixed objects of the gateway, so the loop only knows
  whether they are set. The first argument of these operations is whether \<^verbatim>\<open>epoll_ctl\<close> succeeds.\<close>

definition add_fd :: "bool \<Rightarrow> int \<Rightarrow> nat \<Rightarrow> ('cb, 'task) event_loop \<Rightarrow> ('cb, 'task) event_loop" where
  "add_fd ok fd events el =
     (let el1 = el\<lparr>registrations := (registrations el)(fd \<mapsto> events)\<rparr>
      in if \<not> ok then el1\<lparr>registrations := (registrations el1)(fd := None)\<rparr> else el1)"

definition mod_fd :: "bool \<Rightarrow> int \<Rightarrow> nat \<Rightarrow> ('cb, 'task) event_loop \<Rightarrow> ('cb, 'task) event_loop" where
  "mod_fd ok fd events el =
     (let el1 = el\<lparr>registrations := (registrations el)(fd \<mapsto> events)\<rparr>
      in if \<not> ok then el1\<lparr>registrations := (registrations el1)(fd := None)\<rparr> else el1)"

definition del_fd :: "int \<Rightarrow> ('cb, 'task) event_loop \<Rightarrow> ('cb, 'task) event_loop" where
  "del_fd fd el = el\<lparr>registrations := (registrations el)(fd := None), callbacks := (callbacks el)(fd := None)\<rparr>"

definition set_callback :: "int \<Rightarrow> 'cb loop_callback \<Rightarrow> ('cb, 'task) event_loop \<Rightarrow> ('cb, 'task) event_loop" where
  "set_callback fd cb el = el\<lparr>callbacks := (callbacks el)(fd \<mapsto> cb)\<rparr>"

definition remove_callback :: "int \<Rightarrow> ('cb, 'task) event_loop \<Rightarrow> ('cb, 'task) event_loop" where
  "remove_callback fd el = el\<lparr>callbacks := (callbacks el)(fd := None)\<rparr>"

definition set_idle_callback :: "('cb, 'task) event_loop \<Rightarrow> ('cb, 'task) event_loop" where
  "set_idle_callback el = el\<lparr>idle_cb_set := True\<rparr>"

definition set_timer :: "('cb, 'task) event_loop \<Rightarrow> ('cb, 'task) event_loop" where
  "set_timer el = el\<lparr>timer_set := True\<rparr>"

definition set_max_deferred_per_round :: "int \<Rightarrow> ('cb, 'task) event_loop \<Rightarrow> ('cb, 'task) event_loop" where
  "set_max_deferred_per_round n el = el\<lparr>max_deferred_per_round := n\<rparr>"

definition loop_stop :: "('cb, 'task) event_loop \<Rightarrow> ('cb, 'task) event_loop" where
  "loop_stop el = (let el1 = el\<lparr>loop_running := False\<rparr> in if 0 \<le> wakeup_fd el1 then wakeup_write el1 else el1)"

text \<open>The constructor throws when \<^verbatim>\<open>epoll_create1\<close> or \<^verbatim>\<open>eventfd\<close> fails; its arguments are what they return.\<close>

datatype loop_error = Epoll_Create_Failed | Eventfd_Failed

definition new_event_loop :: "int \<Rightarrow> int \<Rightarrow> bool \<Rightarrow> loop_error + ('cb, 'task) event_loop" where
  "new_event_loop epfd efd ok =
     (if epfd < 0 then Inl Epoll_Create_Failed
      else if efd < 0 then Inl Eventfd_Failed
      else Inr (set_callback efd Cb_Wakeup (add_fd ok efd (EPOLLIN + EPOLLET)
             \<lparr>deferred_tasks = [], pending_tasks = [], max_deferred_per_round = 256, wakeup_count = 0,
              callbacks = Map.empty, registrations = Map.empty, loop_running = False, wakeup_fd = efd,
              idle_cb_set = False, timer_set = False\<rparr>)))"

definition compute_timeout_ms :: "int \<Rightarrow> 'tcb timer option \<Rightarrow> int \<Rightarrow> int" where
  "compute_timeout_ms now timer default_ms =
     (case timer of
        None \<Rightarrow> default_ms
      | Some tm \<Rightarrow>
          (let timer_timeout = next_timeout_ms now tm
           in if timer_timeout < 0 then default_ms
              else (let effective = (if timer_timeout < default_ms then timer_timeout else default_ms)
                    in if 0 < effective then effective else 1)))"

datatype epoll_result = Ep_Interrupted | Ep_Failed | Ep_Ready "(int \<times> nat) list"

text \<open>How a run of the loop ends: it was stopped, it waits in \<^verbatim>\<open>epoll_wait\<close> after the given answers, or
  a callback does not return.\<close>

datatype 'w loop_outcome = Loop_Stopped 'w | Loop_Waiting 'w | Loop_Stuck

fun dispatch ::
    "('cb \<Rightarrow> int \<Rightarrow> nat \<Rightarrow> ('cb, 'task) event_loop \<times> 's \<Rightarrow> (('cb, 'task) event_loop \<times> 's) option)
      \<Rightarrow> ('task \<Rightarrow> ('cb, 'task) event_loop \<times> 's \<Rightarrow> (('cb, 'task) event_loop \<times> 's) option)
      \<Rightarrow> (int \<times> nat) list \<Rightarrow> ('cb, 'task) event_loop \<times> 's \<Rightarrow> (('cb, 'task) event_loop \<times> 's) option" where
  "dispatch call exec [] w = Some w"
| "dispatch call exec ((fd, events) # evs) w =
     (case (case callbacks (fst w) fd of
              None \<Rightarrow> Some w
            | Some Cb_Wakeup \<Rightarrow> on_wakeup exec w
            | Some (Cb_User cb) \<Rightarrow> call cb fd events w) of
        None \<Rightarrow> None
      | Some w' \<Rightarrow> dispatch call exec evs w')"

fun run_loop ::
    "('cb \<Rightarrow> int \<Rightarrow> nat \<Rightarrow> ('cb, 'task) event_loop \<times> 's \<Rightarrow> (('cb, 'task) event_loop \<times> 's) option)
      \<Rightarrow> ('task \<Rightarrow> ('cb, 'task) event_loop \<times> 's \<Rightarrow> (('cb, 'task) event_loop \<times> 's) option)
      \<Rightarrow> (('cb, 'task) event_loop \<times> 's \<Rightarrow> (('cb, 'task) event_loop \<times> 's) option)
      \<Rightarrow> epoll_result list \<Rightarrow> ('cb, 'task) event_loop \<times> 's \<Rightarrow> (('cb, 'task) event_loop \<times> 's) loop_outcome" where
  "run_loop call exec idle rs w =
     (if \<not> loop_running (fst w) then Loop_Stopped w
      else case rs of
        [] \<Rightarrow> Loop_Waiting w
      | Ep_Interrupted # rs' \<Rightarrow> run_loop call exec idle rs' w
      | Ep_Failed # rs' \<Rightarrow> Loop_Stopped w
      | Ep_Ready evs # rs' \<Rightarrow>
          (case dispatch call exec evs w of
             None \<Rightarrow> Loop_Stuck
           | Some w1 \<Rightarrow>
               (case (if idle_cb_set (fst w1) then idle w1 else Some w1) of
                  None \<Rightarrow> Loop_Stuck
                | Some w2 \<Rightarrow> run_loop call exec idle rs' w2)))"

declare run_loop.simps [simp del]

definition event_loop_run ::
    "('cb \<Rightarrow> int \<Rightarrow> nat \<Rightarrow> ('cb, 'task) event_loop \<times> 's \<Rightarrow> (('cb, 'task) event_loop \<times> 's) option)
      \<Rightarrow> ('task \<Rightarrow> ('cb, 'task) event_loop \<times> 's \<Rightarrow> (('cb, 'task) event_loop \<times> 's) option)
      \<Rightarrow> (('cb, 'task) event_loop \<times> 's \<Rightarrow> (('cb, 'task) event_loop \<times> 's) option)
      \<Rightarrow> epoll_result list \<Rightarrow> ('cb, 'task) event_loop \<times> 's \<Rightarrow> (('cb, 'task) event_loop \<times> 's) loop_outcome" where
  "event_loop_run call exec idle rs w = run_loop call exec idle rs ((fst w)\<lparr>loop_running := True\<rparr>, snd w)"

section \<open>The queue between threads\<close>

text \<open>Where the loop thread is: waiting in \<^verbatim>\<open>epoll_wait\<close>, between the read that empties the eventfd and the
  swap under the lock, or running a batch with the tasks that are left of it and those to be kept.\<close>

datatype 'task loop_pc = Lp_Wait | Lp_Drained | Lp_Batch "'task list" "'task list"

record 'task queue_run =
  qr_queue :: "'task defer_queue"
  qr_writers :: nat
  qr_pc :: "'task loop_pc"
  qr_submitted :: "'task list"
  qr_executed :: "'task list"

definition batch_of :: "'task defer_queue \<Rightarrow> 'task list \<Rightarrow> nat" where
  "batch_of q tasks =
     (if over_limit (max_deferred_per_round q) (length tasks) then nat (max_deferred_per_round q) else length tasks)"

definition end_batch :: "'task list \<Rightarrow> 'task defer_queue \<Rightarrow> 'task defer_queue" where
  "end_batch rest q = (if rest = [] then q else keep_rest rest q)"

text \<open>A thread that calls \<^verbatim>\<open>defer\<close> pushes under the lock and then writes to the eventfd; any number of
  threads, the loop thread in a task included, can be between the two.\<close>

inductive queue_step :: "'task queue_run \<Rightarrow> 'task queue_run \<Rightarrow> bool" where
  push: "queue_step r (r\<lparr>qr_queue := push_task t (qr_queue r), qr_writers := qr_writers r + 1,
           qr_submitted := qr_submitted r @ [t]\<rparr>)"
| notify: "qr_writers r = Suc n \<Longrightarrow>
     queue_step r (r\<lparr>qr_queue := wakeup_write (qr_queue r), qr_writers := n\<rparr>)"
| drain: "qr_pc r = Lp_Wait \<Longrightarrow> 0 < wakeup_count (qr_queue r) \<Longrightarrow>
     queue_step r (r\<lparr>qr_queue := wakeup_drain (qr_queue r), qr_pc := Lp_Drained\<rparr>)"
| swap: "qr_pc r = Lp_Drained \<Longrightarrow> take_tasks (qr_queue r) = (tasks, q) \<Longrightarrow>
     queue_step r (r\<lparr>qr_queue := q, qr_pc := Lp_Batch (take (batch_of q tasks) tasks) (drop (batch_of q tasks) tasks)\<rparr>)"
| exec: "qr_pc r = Lp_Batch (t # ts) rest \<Longrightarrow>
     queue_step r (r\<lparr>qr_pc := Lp_Batch ts rest, qr_executed := qr_executed r @ [t]\<rparr>)"
| finish: "qr_pc r = Lp_Batch [] rest \<Longrightarrow>
     queue_step r (r\<lparr>qr_queue := end_batch rest (qr_queue r), qr_pc := Lp_Wait\<rparr>)"

definition new_queue_run :: "int \<Rightarrow> 'task queue_run" where
  "new_queue_run lim =
     \<lparr>qr_queue = \<lparr>deferred_tasks = [], pending_tasks = [], max_deferred_per_round = lim, wakeup_count = 0\<rparr>,
      qr_writers = 0, qr_pc = Lp_Wait, qr_submitted = [], qr_executed = []\<rparr>"

fun in_batch :: "'task loop_pc \<Rightarrow> 'task list" where
  "in_batch (Lp_Batch ts rest) = ts @ rest"
| "in_batch _ = []"

text \<open>Nothing is lost or reordered, and queued work is never left without a wake-up on its way.\<close>

definition queue_conserved :: "'task queue_run \<Rightarrow> bool" where
  "queue_conserved r \<longleftrightarrow>
     qr_executed r @ in_batch (qr_pc r) @ pending_tasks (qr_queue r) @ deferred_tasks (qr_queue r) = qr_submitted r"

definition wakeup_due :: "'task queue_run \<Rightarrow> bool" where
  "wakeup_due r \<longleftrightarrow> 0 < wakeup_count (qr_queue r) \<or> 0 < qr_writers r"

definition queue_awake :: "'task queue_run \<Rightarrow> bool" where
  "queue_awake r \<longleftrightarrow>
     (case qr_pc r of
        Lp_Wait \<Rightarrow> pending_tasks (qr_queue r) = [] \<and> deferred_tasks (qr_queue r) = [] \<or> wakeup_due r
      | Lp_Drained \<Rightarrow> True
      | Lp_Batch ts rest \<Rightarrow> pending_tasks (qr_queue r) = [] \<and> (deferred_tasks (qr_queue r) = [] \<or> wakeup_due r))"

definition batch_bounded :: "int \<Rightarrow> 'task queue_run \<Rightarrow> bool" where
  "batch_bounded lim r \<longleftrightarrow> max_deferred_per_round (qr_queue r) = lim \<and>
     (case qr_pc r of
        Lp_Batch ts rest \<Rightarrow> 0 < lim \<longrightarrow> length (qr_submitted r) < 2 ^ 31 \<longrightarrow> length ts \<le> nat lim
      | _ \<Rightarrow> True)"

lemmas queue_ops = wakeup_write_def wakeup_drain_def push_task_def take_tasks_def keep_rest_def end_batch_def

lemma wakeup_write_due [simp]: "0 < wakeup_count (wakeup_write q)"
  by (simp add: wakeup_write_def eventfd_max_def size_mod_def)

lemma wakeup_write_queue [simp]:
  "pending_tasks (wakeup_write q) = pending_tasks q" "deferred_tasks (wakeup_write q) = deferred_tasks q"
  "max_deferred_per_round (wakeup_write q) = max_deferred_per_round q"
  by (simp_all add: wakeup_write_def)

lemma queue_step_conserved: "queue_step r r' \<Longrightarrow> queue_awake r \<Longrightarrow> queue_conserved r \<Longrightarrow> queue_conserved r'"
proof (induction rule: queue_step.induct)
  case (swap r tasks q)
  then have q: "q = (qr_queue r)\<lparr>deferred_tasks := [], pending_tasks := []\<rparr>"
    and t: "tasks = pending_tasks (qr_queue r) @ deferred_tasks (qr_queue r)" by (auto simp: take_tasks_def)
  show ?case using swap.prems swap.hyps(1) by (simp add: queue_conserved_def q flip: t append_assoc)
qed (auto simp: queue_conserved_def queue_awake_def queue_ops)

lemma queue_step_awake: "queue_step r r' \<Longrightarrow> queue_awake r \<Longrightarrow> queue_awake r'"
proof (induction rule: queue_step.induct)
  case (push r t) then show ?case by (simp add: queue_awake_def wakeup_due_def push_task_def split: loop_pc.splits)
next
  case (notify r n) then show ?case by (simp add: queue_awake_def wakeup_due_def split: loop_pc.splits)
qed (auto simp: queue_awake_def wakeup_due_def wakeup_drain_def take_tasks_def end_batch_def keep_rest_def)

lemma narrow_int_small: "n < 2 ^ 31 \<Longrightarrow> narrow_int n = int n"
  by (simp add: narrow_int_def)

lemma over_limitD: "over_limit lim n \<Longrightarrow> 0 < lim \<and> nat lim < n"
proof -
  assume a: "over_limit lim n"
  have "narrow_int n \<le> int n" by (auto simp: narrow_int_def Let_def zmod_le_nonneg_dividend)
  then show ?thesis using a by (auto simp: over_limit_def)
qed

lemma batch_of_le: "0 < max_deferred_per_round q \<Longrightarrow> length tasks < 2 ^ 31 \<Longrightarrow>
    batch_of q tasks \<le> nat (max_deferred_per_round q)"
  by (auto simp: batch_of_def over_limit_def narrow_int_small)

lemma queue_step_bounded:
  "queue_step r r' \<Longrightarrow> queue_conserved r \<Longrightarrow> batch_bounded lim r \<Longrightarrow> batch_bounded lim r'"
proof (induction rule: queue_step.induct)
  case (push r t) then show ?case by (auto simp: batch_bounded_def push_task_def split: loop_pc.splits)
next
  case (notify r n) then show ?case by (simp add: batch_bounded_def split: loop_pc.splits)
next
  case (swap r tasks q)
  have "length tasks \<le> length (qr_submitted r)"
    using swap.prems(1) swap.hyps unfolding queue_conserved_def by (auto simp: take_tasks_def dest: arg_cong[where f = length])
  moreover have "max_deferred_per_round q = lim" using swap by (auto simp: take_tasks_def batch_bounded_def)
  ultimately show ?case using batch_of_le[of q tasks] by (auto simp: batch_bounded_def)
qed (auto simp: batch_bounded_def queue_ops)

definition queue_inv :: "int \<Rightarrow> 'task queue_run \<Rightarrow> bool" where
  "queue_inv lim r \<longleftrightarrow> queue_conserved r \<and> queue_awake r \<and> batch_bounded lim r"

lemma queue_steps_inv: "queue_step\<^sup>*\<^sup>* r r' \<Longrightarrow> queue_inv lim r \<Longrightarrow> queue_inv lim r'"
proof (induction rule: rtranclp_induct)
  case (step r1 r2)
  then show ?case using queue_step_conserved queue_step_awake queue_step_bounded unfolding queue_inv_def by blast
qed

lemma new_queue_run_inv: "queue_inv lim (new_queue_run lim)"
  by (simp add: queue_inv_def queue_conserved_def queue_awake_def batch_bounded_def new_queue_run_def)

text \<open>C12: no deferred task is lost. However the threads that call \<^verbatim>\<open>defer\<close> and the loop interleave, the
  tasks are executed in the order of their submission, each once; while one of them is not executed
  and the loop waits, its wake-up is pending or a thread is just about to write it; and a round
  executes at most \<^verbatim>\<open>max_deferred_per_round_\<close> tasks.\<close>
theorem deferred_never_lost:
  assumes "queue_step\<^sup>*\<^sup>* (new_queue_run lim) r"
  shows "prefix (qr_executed r) (qr_submitted r)
    \<and> (qr_pc r = Lp_Wait \<and> qr_executed r \<noteq> qr_submitted r \<longrightarrow> 0 < wakeup_count (qr_queue r) \<or> 0 < qr_writers r)
    \<and> (\<forall>ts rest. qr_pc r = Lp_Batch ts rest \<and> 0 < lim \<and> length (qr_submitted r) < 2 ^ 31 \<longrightarrow> length ts \<le> nat lim)"
proof (intro conjI impI allI)
  note inv = queue_steps_inv[OF assms new_queue_run_inv, unfolded queue_inv_def]
  show "prefix (qr_executed r) (qr_submitted r)" using inv unfolding queue_conserved_def by (metis prefixI)
  show "0 < wakeup_count (qr_queue r) \<or> 0 < qr_writers r" if "qr_pc r = Lp_Wait \<and> qr_executed r \<noteq> qr_submitted r"
    using inv that by (auto simp: queue_conserved_def queue_awake_def wakeup_due_def)
  show "length ts \<le> nat lim" if "qr_pc r = Lp_Batch ts rest \<and> 0 < lim \<and> length (qr_submitted r) < 2 ^ 31" for ts rest
    using inv that by (auto simp: batch_bounded_def)
qed

definition wqueue_run :: "nat queue_run" where
  "wqueue_run = (new_queue_run 2)\<lparr>qr_queue := wakeup_write (push_task 7 (qr_queue (new_queue_run 2))), qr_submitted := [7]\<rparr>"

theorem deferred_never_lost_witness:
  "prefix (qr_executed wqueue_run) (qr_submitted wqueue_run) \<and> 0 < wakeup_count (qr_queue wqueue_run)"
proof -
  let ?r = "(new_queue_run 2 :: nat queue_run)\<lparr>qr_queue := push_task 7 (qr_queue (new_queue_run 2)), qr_writers := 1, qr_submitted := [7]\<rparr>"
  have "queue_step (new_queue_run 2) ?r" using queue_step.push[of "new_queue_run 2" 7] by (simp add: new_queue_run_def)
  moreover have "queue_step ?r wqueue_run"
    using queue_step.notify[of ?r 0] by (simp add: wqueue_run_def new_queue_run_def)
  ultimately have "queue_step\<^sup>*\<^sup>* (new_queue_run 2) wqueue_run" by (meson converse_rtranclp_into_rtranclp r_into_rtranclp)
  from deferred_never_lost[OF this] show ?thesis by (simp add: wqueue_run_def new_queue_run_def)
qed

section \<open>Sequential rounds\<close>

text \<open>One round for each time the eventfd is readable, \<open>n\<close> at most.\<close>

fun wakeup_rounds ::
    "('task \<Rightarrow> ('task, 'z) defer_queue_scheme \<times> 's \<Rightarrow> (('task, 'z) defer_queue_scheme \<times> 's) option)
      \<Rightarrow> nat \<Rightarrow> ('task, 'z) defer_queue_scheme \<times> 's \<Rightarrow> (('task, 'z) defer_queue_scheme \<times> 's) option" where
  "wakeup_rounds exec 0 w = Some w"
| "wakeup_rounds exec (Suc n) w =
     (if wakeup_count (fst w) = 0 then Some w
      else case on_wakeup exec w of None \<Rightarrow> None | Some w' \<Rightarrow> wakeup_rounds exec n w')"

abbreviation seq_run :: "'task defer_queue \<Rightarrow> 'task loop_pc \<Rightarrow> 'task list \<Rightarrow> 'task list \<Rightarrow> 'task queue_run" where
  "seq_run q pc sub ex \<equiv> \<lparr>qr_queue = q, qr_writers = 0, qr_pc = pc, qr_submitted = sub, qr_executed = ex\<rparr>"

lemma defer_steps: "queue_step\<^sup>*\<^sup>* (seq_run q pc sub ex) (seq_run (fold loop_defer ks q) pc (sub @ ks) ex)"
proof (induction ks arbitrary: q sub)
  case (Cons k ks)
  let ?a = "seq_run q pc sub ex"
  let ?b = "?a\<lparr>qr_queue := push_task k q, qr_writers := 1, qr_submitted := sub @ [k]\<rparr>"
  have "queue_step ?a ?b" using queue_step.push[of ?a k] by simp
  moreover have "queue_step ?b (seq_run (loop_defer k q) pc (sub @ [k]) ex)"
    using queue_step.notify[of ?b 0] by (simp add: loop_defer_def)
  ultimately have "queue_step\<^sup>*\<^sup>* ?a (seq_run (loop_defer k q) pc (sub @ [k]) ex)" by (meson converse_rtranclp_into_rtranclp r_into_rtranclp)
  then show ?case using Cons.IH[of "loop_defer k q" "sub @ [k]"] by (simp add: rtranclp_trans)
qed simp

lemma truncate_fields [simp]:
  "deferred_tasks (defer_queue.truncate q) = deferred_tasks q" "pending_tasks (defer_queue.truncate q) = pending_tasks q"
  "max_deferred_per_round (defer_queue.truncate q) = max_deferred_per_round q"
  "wakeup_count (defer_queue.truncate q) = wakeup_count q"
  by (simp_all add: defer_queue.truncate_def)

lemma batch_of_cong: "max_deferred_per_round q = max_deferred_per_round q' \<Longrightarrow> batch_of q ts = batch_of q' ts"
  by (simp add: batch_of_def)

lemma truncate_keep_rest: "defer_queue.truncate (keep_rest rest q) = keep_rest rest (defer_queue.truncate q)"
  by (simp add: keep_rest_def wakeup_write_def defer_queue.truncate_def)

lemma truncate_drain: "defer_queue.truncate (wakeup_drain q) = wakeup_drain (defer_queue.truncate q)"
  by (simp add: wakeup_drain_def defer_queue.truncate_def)

lemma truncate_taken:
  "defer_queue.truncate (q\<lparr>deferred_tasks := [], pending_tasks := []\<rparr>) =
   (defer_queue.truncate q)\<lparr>deferred_tasks := [], pending_tasks := []\<rparr>"
  by (simp add: defer_queue.truncate_def)

text \<open>What the loop asks of the tasks it runs: that they touch the queue only by deferring further
  tasks.\<close>

locale deferring_tasks =
  fixes exec :: "'task \<Rightarrow> ('task, 'z) defer_queue_scheme \<times> 's \<Rightarrow> (('task, 'z) defer_queue_scheme \<times> 's) option"
  assumes exec_defers: "exec t (q, s) = Some (q', s') \<Longrightarrow>
    \<exists>ks. defer_queue.truncate q' = fold loop_defer ks (defer_queue.truncate q)"
begin

lemma run_tasks_steps:
  "run_tasks exec ts (q, s) = Some (q', s') \<Longrightarrow>
   \<exists>ks. queue_step\<^sup>*\<^sup>* (seq_run (defer_queue.truncate q) (Lp_Batch ts rest) sub ex)
         (seq_run (defer_queue.truncate q') (Lp_Batch [] rest) (sub @ ks) (ex @ ts))"
proof (induction ts arbitrary: q s sub ex)
  case Nil then show ?case by (intro exI[of _ "[]"]) simp
next
  case (Cons t ts)
  then obtain q1 s1 where 1: "exec t (q, s) = Some (q1, s1)" "run_tasks exec ts (q1, s1) = Some (q', s')"
    by (auto split: option.splits)
  obtain ks where ks: "defer_queue.truncate q1 = fold loop_defer ks (defer_queue.truncate q)"
    using exec_defers[OF 1(1)] by blast
  let ?a = "seq_run (defer_queue.truncate q) (Lp_Batch (t # ts) rest) sub ex"
  have "queue_step ?a (seq_run (defer_queue.truncate q) (Lp_Batch ts rest) sub (ex @ [t]))"
    using queue_step.exec[of ?a t ts rest] by simp
  then have "queue_step\<^sup>*\<^sup>* ?a (seq_run (defer_queue.truncate q1) (Lp_Batch ts rest) (sub @ ks) (ex @ [t]))"
    unfolding ks using defer_steps by (rule converse_rtranclp_into_rtranclp)
  moreover obtain ks' where "queue_step\<^sup>*\<^sup>* (seq_run (defer_queue.truncate q1) (Lp_Batch ts rest) (sub @ ks) (ex @ [t]))
      (seq_run (defer_queue.truncate q') (Lp_Batch [] rest) ((sub @ ks) @ ks') ((ex @ [t]) @ ts))"
    using Cons.IH[OF 1(2)] by blast
  ultimately show ?case by (intro exI[of _ "ks @ ks'"]) (simp add: rtranclp_trans)
qed

lemma round_steps:
  assumes "run_deferred_tasks exec (q, s) = Some (q', s')"
  defines "tasks \<equiv> pending_tasks q @ deferred_tasks q"
  shows "\<exists>ks. queue_step\<^sup>*\<^sup>* (seq_run (defer_queue.truncate q) Lp_Drained sub ex)
         (seq_run (defer_queue.truncate q') Lp_Wait (sub @ ks) (ex @ take (batch_of (defer_queue.truncate q) tasks) tasks))"
proof -
  let ?q = "q\<lparr>deferred_tasks := [], pending_tasks := []\<rparr>"
  let ?n = "batch_of (defer_queue.truncate q) tasks"
  obtain q1 where run: "run_tasks exec (take ?n tasks) (?q, s) = Some (q1, s')"
    and q': "defer_queue.truncate q' = end_batch (drop ?n tasks) (defer_queue.truncate q1)"
  proof (cases "over_limit (max_deferred_per_round q) (length tasks)")
    case True
    then have n: "?n = nat (max_deferred_per_round q)" by (simp add: batch_of_def)
    have "drop ?n tasks \<noteq> []" using over_limitD[OF True] by (simp add: n)
    moreover obtain q1 where "run_tasks exec (take ?n tasks) (?q, s) = Some (q1, s')" "q' = keep_rest (drop ?n tasks) q1"
      using assms(1) True unfolding run_deferred_tasks_def take_tasks_def tasks_def[symmetric] n by (auto simp: Let_def simp flip: tasks_def)
    ultimately show thesis using that by (simp add: truncate_keep_rest end_batch_def)
  next
    case False
    then have n: "drop ?n tasks = []" "take ?n tasks = tasks" by (simp_all add: batch_of_def)
    have "run_tasks exec tasks (?q, s) = Some (q', s')"
      using assms(1) False unfolding run_deferred_tasks_def take_tasks_def by (simp add: Let_def flip: tasks_def)
    then show thesis using that n by (simp add: end_batch_def)
  qed
  let ?a = "seq_run (defer_queue.truncate q) Lp_Drained sub ex"
  have tk: "take_tasks (defer_queue.truncate q) = (tasks, defer_queue.truncate ?q)"
    by (simp add: take_tasks_def tasks_def truncate_taken)
  have bo: "batch_of (defer_queue.truncate ?q) tasks = ?n" by (rule batch_of_cong) simp
  have "queue_step ?a (seq_run (defer_queue.truncate ?q) (Lp_Batch (take ?n tasks) (drop ?n tasks)) sub ex)"
    using queue_step.swap[of ?a tasks "defer_queue.truncate ?q"] tk by (simp add: bo)
  moreover obtain ks where
    ks: "queue_step\<^sup>*\<^sup>* (seq_run (defer_queue.truncate ?q) (Lp_Batch (take ?n tasks) (drop ?n tasks)) sub ex)
       (seq_run (defer_queue.truncate q1) (Lp_Batch [] (drop ?n tasks)) (sub @ ks) (ex @ take ?n tasks))"
    using run_tasks_steps[OF run] by blast
  moreover have "queue_step (seq_run (defer_queue.truncate q1) (Lp_Batch [] (drop ?n tasks)) (sub @ ks) (ex @ take ?n tasks))
      (seq_run (defer_queue.truncate q') Lp_Wait (sub @ ks) (ex @ take ?n tasks))"
    using queue_step.finish[of "seq_run (defer_queue.truncate q1) (Lp_Batch [] (drop ?n tasks)) (sub @ ks) (ex @ take ?n tasks)"]
    by (simp add: q')
  ultimately show ?thesis by (meson converse_rtranclp_into_rtranclp rtranclp.rtrancl_into_rtrancl)
qed

lemma wakeup_steps:
  assumes "on_wakeup exec (q, s) = Some (q', s')" and "wakeup_count q \<noteq> 0"
  defines "tasks \<equiv> pending_tasks q @ deferred_tasks q"
  shows "\<exists>ks. queue_step\<^sup>*\<^sup>* (seq_run (defer_queue.truncate q) Lp_Wait sub ex)
         (seq_run (defer_queue.truncate q') Lp_Wait (sub @ ks) (ex @ take (batch_of (defer_queue.truncate q) tasks) tasks))"
proof -
  let ?a = "seq_run (defer_queue.truncate q) Lp_Wait sub ex"
  have "queue_step ?a (seq_run (defer_queue.truncate (wakeup_drain q)) Lp_Drained sub ex)"
    using queue_step.drain[of ?a] assms(2) by (simp add: truncate_drain)
  moreover have same: "pending_tasks (wakeup_drain q) = pending_tasks q" "deferred_tasks (wakeup_drain q) = deferred_tasks q"
    by (simp_all add: wakeup_drain_def)
  moreover have bo: "batch_of (defer_queue.truncate (wakeup_drain q)) tasks = batch_of (defer_queue.truncate q) tasks"
    by (rule batch_of_cong) (simp add: wakeup_drain_def)
  moreover obtain ks where "queue_step\<^sup>*\<^sup>* (seq_run (defer_queue.truncate (wakeup_drain q)) Lp_Drained sub ex)
      (seq_run (defer_queue.truncate q') Lp_Wait (sub @ ks) (ex @ take (batch_of (defer_queue.truncate q) tasks) tasks))"
    using round_steps[of "wakeup_drain q" s q' s' sub ex] assms(1) bo same unfolding on_wakeup_def tasks_def by auto
  ultimately show ?thesis by (meson converse_rtranclp_into_rtranclp)
qed

lemma batch_of_ge: "0 < max_deferred_per_round q \<Longrightarrow>
    min (nat (max_deferred_per_round q)) (length tasks) \<le> length (take (batch_of q tasks) tasks)"
  using over_limitD[of "max_deferred_per_round q" "length tasks"] by (auto simp: batch_of_def)

lemma rounds_steps:
  assumes "wakeup_rounds exec n (q, s) = Some (q', s')" and "0 < lim"
    and "queue_inv lim (seq_run (defer_queue.truncate q) Lp_Wait sub ex)"
  shows "\<exists>ks done_now. queue_step\<^sup>*\<^sup>* (seq_run (defer_queue.truncate q) Lp_Wait sub ex)
           (seq_run (defer_queue.truncate q') Lp_Wait (sub @ ks) (ex @ done_now))
         \<and> min (n * nat lim) (length (pending_tasks q @ deferred_tasks q)) \<le> length done_now"
  using assms
proof (induction n arbitrary: q s sub ex)
  case 0 then show ?case by (intro exI[of _ "[]"]) simp
next
  case (Suc n)
  let ?tasks = "pending_tasks q @ deferred_tasks q"
  show ?case
  proof (cases "wakeup_count q = 0")
    case True
    then have "?tasks = []" using Suc.prems(3) by (simp add: queue_inv_def queue_awake_def wakeup_due_def defer_queue.truncate_def)
    then show ?thesis using True Suc.prems(1) by (intro exI[of _ "[]"]) simp
  next
    case False
    then obtain q1 s1 where 1: "on_wakeup exec (q, s) = Some (q1, s1)" "wakeup_rounds exec n (q1, s1) = Some (q', s')"
      using Suc.prems(1) by (auto split: option.splits)
    define b where "b = take (batch_of (defer_queue.truncate q) ?tasks) ?tasks"
    obtain ks where st: "queue_step\<^sup>*\<^sup>* (seq_run (defer_queue.truncate q) Lp_Wait sub ex)
        (seq_run (defer_queue.truncate q1) Lp_Wait (sub @ ks) (ex @ b))"
      unfolding b_def using wakeup_steps[OF 1(1) False] by blast
    note inv1 = queue_steps_inv[OF st Suc.prems(3)]
    obtain ks' d where st': "queue_step\<^sup>*\<^sup>* (seq_run (defer_queue.truncate q1) Lp_Wait (sub @ ks) (ex @ b))
        (seq_run (defer_queue.truncate q') Lp_Wait ((sub @ ks) @ ks') ((ex @ b) @ d))"
      and d: "min (n * nat lim) (length (pending_tasks q1 @ deferred_tasks q1)) \<le> length d"
      using Suc.IH[OF 1(2) Suc.prems(2) inv1] by blast
    have "length b + length (pending_tasks q1 @ deferred_tasks q1) = length ?tasks + length ks"
      using inv1 Suc.prems(3) unfolding queue_inv_def queue_conserved_def
      by (auto simp: defer_queue.truncate_def dest!: arg_cong[where f = length])
    moreover have "min (nat lim) (length ?tasks) \<le> length b"
      using batch_of_ge[of "defer_queue.truncate q" ?tasks] Suc.prems(2,3)
      by (simp add: b_def queue_inv_def batch_bounded_def)
    ultimately have "min (Suc n * nat lim) (length ?tasks) \<le> length (b @ d)" using d by (simp add: min_def split: if_splits)
    then show ?thesis using rtranclp_trans[OF st st'] by (intro exI[of _ "ks @ ks'"] exI[of _ "b @ d"]) simp
  qed
qed

end

end
