(* ===== verification/Gw_Thread_Pool.thy ===== *)
theory Gw_Thread_Pool
  imports Gw_Prelude
begin

text \<open>
  The worker pool of \<^verbatim>\<open>src/src/utils/thread_pool.cpp\<close>: the queue with its bound, the ways to submit a job and
  the loop of a worker. The pieces that run under the mutex are definitions on the state the mutex
  guards; a step relation composes them with the two condition variables, whose notifications come
  after the mutex is released. A step is taken by a worker or by a submitter inside the pool
  (\<open>pool_internal\<close>), by a caller (\<open>pool_call\<close>) or is a wake-up without a notification
  (\<open>pool_spurious\<close>).
\<close>

section \<open>Under the mutex\<close>

record 'job thread_pool =
  tp_tasks :: "'job list"
  tp_stop :: bool
  tp_max_queue_size :: nat

definition new_thread_pool :: "nat \<Rightarrow> 'job thread_pool" where
  "new_thread_pool max_queue_size = \<lparr>tp_tasks = [], tp_stop = False, tp_max_queue_size = max_queue_size\<rparr>"

datatype pool_error = Submit_On_Stopped

definition tp_push :: "'job \<Rightarrow> 'job thread_pool \<Rightarrow> 'job thread_pool" where
  "tp_push job p = p\<lparr>tp_tasks := tp_tasks p @ [job]\<rparr>"

definition try_submit :: "'job \<Rightarrow> 'job thread_pool \<Rightarrow> pool_error + bool \<times> 'job thread_pool" where
  "try_submit job p =
     (if tp_stop p then Inl Submit_On_Stopped
      else if 0 < tp_max_queue_size p \<and> tp_max_queue_size p \<le> length (tp_tasks p) then Inr (False, p)
      else Inr (True, tp_push job p))"

text \<open>\<^verbatim>\<open>enqueue\<close> takes no notice of the bound.\<close>

definition enqueue :: "'job \<Rightarrow> 'job thread_pool \<Rightarrow> pool_error + 'job thread_pool" where
  "enqueue job p = (if tp_stop p then Inl Submit_On_Stopped else Inr (tp_push job p))"

datatype 'job submit_result = Sub_Throws pool_error | Sub_Blocks | Sub_Done "'job thread_pool"

text \<open>\<^verbatim>\<open>submit\<close> from the evaluation of the wait predicate on, which is repeated after each wake-up, and
  the whole of it up to the first wait.\<close>

definition submit_check :: "'job \<Rightarrow> 'job thread_pool \<Rightarrow> 'job submit_result" where
  "submit_check job p =
     (if \<not> (tp_stop p \<or> length (tp_tasks p) < tp_max_queue_size p) then Sub_Blocks
      else if tp_stop p then Sub_Throws Submit_On_Stopped
      else Sub_Done (tp_push job p))"

definition submit :: "'job \<Rightarrow> 'job thread_pool \<Rightarrow> 'job submit_result" where
  "submit job p =
     (if tp_stop p then Sub_Throws Submit_On_Stopped
      else if 0 < tp_max_queue_size p then submit_check job p
      else Sub_Done (tp_push job p))"

datatype 'job take_result = Tk_Sleep | Tk_Exit | Tk_Job 'job "'job thread_pool"

definition worker_take :: "'job thread_pool \<Rightarrow> 'job take_result" where
  "worker_take p =
     (if \<not> (tp_stop p \<or> tp_tasks p \<noteq> []) then Tk_Sleep
      else case tp_tasks p of
        [] \<Rightarrow> Tk_Exit
      | t # ts \<Rightarrow> Tk_Job t (p\<lparr>tp_tasks := ts\<rparr>))"

definition pool_stop :: "'job thread_pool \<Rightarrow> 'job thread_pool" where
  "pool_stop p = p\<lparr>tp_stop := True\<rparr>"

section \<open>The threads\<close>

text \<open>A worker is about to look at the queue, asleep on \<^verbatim>\<open>cv_\<close>, about to notify \<^verbatim>\<open>cv_not_full_\<close>, running
  a job or gone. A submitter is asleep on \<^verbatim>\<open>cv_not_full_\<close>, woken, about to notify \<^verbatim>\<open>cv_\<close>, or has left.\<close>

datatype (discs_sels) 'job worker_pc = Wk_Ready | Wk_Asleep | Wk_Notify 'job | Wk_Run 'job | Wk_Exited
datatype (discs_sels) 'job submitter_pc = Sb_Asleep 'job | Sb_Check 'job | Sb_Notify | Sb_Done | Sb_Thrown

record 'job pool_run =
  pr_pool :: "'job thread_pool"
  pr_workers :: "'job worker_pc list"
  pr_submitters :: "'job submitter_pc list"
  pr_notify_all :: bool
  pr_accepted :: "'job list"
  pr_bounded :: "bool list"
  pr_started :: "'job list"

text \<open>The last three fields record a history: the jobs in the order in which they were accepted, for
  each whether it came through an operation that respects the bound, and the jobs in the order in
  which workers took them.\<close>

definition new_pool_run :: "nat \<Rightarrow> nat \<Rightarrow> 'job pool_run" where
  "new_pool_run num_threads max_queue_size =
     \<lparr>pr_pool = new_thread_pool max_queue_size, pr_workers = replicate num_threads Wk_Ready, pr_submitters = [],
      pr_notify_all = False, pr_accepted = [], pr_bounded = [], pr_started = []\<rparr>"

abbreviation set_worker :: "nat \<Rightarrow> 'job worker_pc \<Rightarrow> 'job pool_run \<Rightarrow> 'job pool_run" where
  "set_worker k pc r \<equiv> r\<lparr>pr_workers := (pr_workers r)[k := pc]\<rparr>"

abbreviation set_submitter :: "nat \<Rightarrow> 'job submitter_pc \<Rightarrow> 'job pool_run \<Rightarrow> 'job pool_run" where
  "set_submitter i pc r \<equiv> r\<lparr>pr_submitters := (pr_submitters r)[i := pc]\<rparr>"

abbreviation worker_at :: "nat \<Rightarrow> 'job worker_pc \<Rightarrow> 'job pool_run \<Rightarrow> bool" where
  "worker_at k pc r \<equiv> k < length (pr_workers r) \<and> pr_workers r ! k = pc"

abbreviation submitter_at :: "nat \<Rightarrow> 'job submitter_pc \<Rightarrow> 'job pool_run \<Rightarrow> bool" where
  "submitter_at i pc r \<equiv> i < length (pr_submitters r) \<and> pr_submitters r ! i = pc"

definition rouse :: "'job worker_pc \<Rightarrow> 'job worker_pc" where
  "rouse pc = (if pc = Wk_Asleep then Wk_Ready else pc)"

inductive pool_internal :: "'job pool_run \<Rightarrow> 'job pool_run \<Rightarrow> bool" where
  take_job: "worker_at k Wk_Ready r \<Longrightarrow> worker_take (pr_pool r) = Tk_Job t p \<Longrightarrow>
     pool_internal r ((set_worker k (Wk_Notify t) r)\<lparr>pr_pool := p, pr_started := pr_started r @ [t]\<rparr>)"
| sleep: "worker_at k Wk_Ready r \<Longrightarrow> worker_take (pr_pool r) = Tk_Sleep \<Longrightarrow> pool_internal r (set_worker k Wk_Asleep r)"
| exit: "worker_at k Wk_Ready r \<Longrightarrow> worker_take (pr_pool r) = Tk_Exit \<Longrightarrow> pool_internal r (set_worker k Wk_Exited r)"
| notify_submitter: "worker_at k (Wk_Notify t) r \<Longrightarrow> submitter_at i (Sb_Asleep j) r \<Longrightarrow>
     pool_internal r (set_submitter i (Sb_Check j) (set_worker k (Wk_Run t) r))"
| notify_nobody: "worker_at k (Wk_Notify t) r \<Longrightarrow> \<forall>j. Sb_Asleep j \<notin> set (pr_submitters r) \<Longrightarrow>
     pool_internal r (set_worker k (Wk_Run t) r)"
| ran: "worker_at k (Wk_Run t) r \<Longrightarrow> pool_internal r (set_worker k Wk_Ready r)"
| check_pushes: "submitter_at i (Sb_Check j) r \<Longrightarrow> submit_check j (pr_pool r) = Sub_Done p \<Longrightarrow>
     pool_internal r ((set_submitter i Sb_Notify r)\<lparr>pr_pool := p, pr_accepted := pr_accepted r @ [j],
       pr_bounded := pr_bounded r @ [True]\<rparr>)"
| check_blocks: "submitter_at i (Sb_Check j) r \<Longrightarrow> submit_check j (pr_pool r) = Sub_Blocks \<Longrightarrow>
     pool_internal r (set_submitter i (Sb_Asleep j) r)"
| check_throws: "submitter_at i (Sb_Check j) r \<Longrightarrow> submit_check j (pr_pool r) = Sub_Throws e \<Longrightarrow>
     pool_internal r (set_submitter i Sb_Thrown r)"
| notify_worker: "submitter_at i Sb_Notify r \<Longrightarrow> worker_at k Wk_Asleep r \<Longrightarrow>
     pool_internal r (set_worker k Wk_Ready (set_submitter i Sb_Done r))"
| notify_no_worker: "submitter_at i Sb_Notify r \<Longrightarrow> Wk_Asleep \<notin> set (pr_workers r) \<Longrightarrow>
     pool_internal r (set_submitter i Sb_Done r)"
| notify_all: "pr_notify_all r \<Longrightarrow>
     pool_internal r (r\<lparr>pr_workers := map rouse (pr_workers r), pr_notify_all := False\<rparr>)"

inductive pool_call :: "'job pool_run \<Rightarrow> 'job pool_run \<Rightarrow> bool" where
  try_submit: "try_submit j (pr_pool r) = Inr (True, p) \<Longrightarrow>
     pool_call r (r\<lparr>pr_pool := p, pr_submitters := pr_submitters r @ [Sb_Notify], pr_accepted := pr_accepted r @ [j],
       pr_bounded := pr_bounded r @ [True]\<rparr>)"
| submit: "submit j (pr_pool r) = Sub_Done p \<Longrightarrow>
     pool_call r (r\<lparr>pr_pool := p, pr_submitters := pr_submitters r @ [Sb_Notify], pr_accepted := pr_accepted r @ [j],
       pr_bounded := pr_bounded r @ [True]\<rparr>)"
| submit_blocks: "submit j (pr_pool r) = Sub_Blocks \<Longrightarrow>
     pool_call r (r\<lparr>pr_submitters := pr_submitters r @ [Sb_Asleep j]\<rparr>)"
| enqueue: "enqueue j (pr_pool r) = Inr p \<Longrightarrow>
     pool_call r (r\<lparr>pr_pool := p, pr_submitters := pr_submitters r @ [Sb_Notify], pr_accepted := pr_accepted r @ [j],
       pr_bounded := pr_bounded r @ [False]\<rparr>)"
| stop: "pool_call r (r\<lparr>pr_pool := pool_stop (pr_pool r), pr_notify_all := True\<rparr>)"

inductive pool_spurious :: "'job pool_run \<Rightarrow> 'job pool_run \<Rightarrow> bool" where
  worker: "worker_at k Wk_Asleep r \<Longrightarrow> pool_spurious r (set_worker k Wk_Ready r)"
| submitter: "submitter_at i (Sb_Asleep j) r \<Longrightarrow> pool_spurious r (set_submitter i (Sb_Check j) r)"

definition pool_step :: "'job pool_run \<Rightarrow> 'job pool_run \<Rightarrow> bool" where
  "pool_step r r' \<longleftrightarrow> pool_internal r r' \<or> pool_call r r' \<or> pool_spurious r r'"

section \<open>Invariants\<close>

lemmas pool_defs = try_submit_def submit_def submit_check_def worker_take_def tp_push_def pool_stop_def

lemma take_jobD: "worker_take p = Tk_Job t p' \<Longrightarrow> tp_tasks p = t # tp_tasks p' \<and> tp_stop p' = tp_stop p \<and> tp_max_queue_size p' = tp_max_queue_size p"
  by (auto simp: worker_take_def split: if_splits list.splits)

lemma take_sleepD: "worker_take p = Tk_Sleep \<Longrightarrow> tp_tasks p = [] \<and> \<not> tp_stop p"
  by (auto simp: worker_take_def split: if_splits list.splits)

lemma take_exitD: "worker_take p = Tk_Exit \<Longrightarrow> tp_tasks p = [] \<and> tp_stop p"
  by (auto simp: worker_take_def split: if_splits list.splits)

lemma check_doneD: "submit_check j p = Sub_Done p' \<Longrightarrow> p' = tp_push j p \<and> \<not> tp_stop p \<and> length (tp_tasks p) < tp_max_queue_size p"
  by (auto simp: submit_check_def split: if_splits)

lemma check_blocksD: "submit_check j p = Sub_Blocks \<Longrightarrow> \<not> tp_stop p \<and> tp_max_queue_size p \<le> length (tp_tasks p)"
  by (auto simp: submit_check_def split: if_splits)

lemma check_throwsD: "submit_check j p = Sub_Throws e \<Longrightarrow> tp_stop p"
  by (auto simp: submit_check_def split: if_splits)

lemma submit_doneD: "submit j p = Sub_Done p' \<Longrightarrow>
    p' = tp_push j p \<and> \<not> tp_stop p \<and> (0 < tp_max_queue_size p \<longrightarrow> length (tp_tasks p) < tp_max_queue_size p)"
  by (auto simp: submit_def dest: check_doneD split: if_splits)

lemma submit_blocksD: "submit j p = Sub_Blocks \<Longrightarrow> \<not> tp_stop p \<and> 0 < tp_max_queue_size p \<and> tp_max_queue_size p \<le> length (tp_tasks p)"
  by (auto simp: submit_def dest: check_blocksD split: if_splits)

lemma try_submitD: "try_submit j p = Inr (True, p') \<Longrightarrow>
    p' = tp_push j p \<and> \<not> tp_stop p \<and> (0 < tp_max_queue_size p \<longrightarrow> length (tp_tasks p) < tp_max_queue_size p)"
  by (auto simp: try_submit_def split: if_splits)

lemma enqueueD: "enqueue j p = Inr p' \<Longrightarrow> p' = tp_push j p \<and> \<not> tp_stop p"
  by (auto simp: enqueue_def split: if_splits)

lemmas pool_results = enqueueD take_jobD take_sleepD take_exitD check_doneD check_blocksD check_throwsD submit_doneD submit_blocksD try_submitD

text \<open>Every step is one of four changes to what the mutex guards.\<close>

definition held :: "'job pool_run \<Rightarrow> bool list" where
  "held r = drop (length (pr_started r)) (pr_bounded r)"

definition queue_ok :: "nat \<Rightarrow> nat \<Rightarrow> 'job pool_run \<Rightarrow> bool" where
  "queue_ok n m r \<longleftrightarrow> length (pr_workers r) = n \<and> tp_max_queue_size (pr_pool r) = m \<and>
     pr_started r @ tp_tasks (pr_pool r) = pr_accepted r \<and> length (pr_bounded r) = length (pr_accepted r) \<and>
     (0 < m \<longrightarrow> length (filter id (held r)) \<le> m)"

lemma queue_ok_push:
  assumes "queue_ok n m r" and "p = tp_push j (pr_pool r)" and "length ws = length (pr_workers r)"
    and "b \<longrightarrow> 0 < m \<longrightarrow> length (tp_tasks (pr_pool r)) < m"
  shows "queue_ok n m (r\<lparr>pr_pool := p, pr_submitters := ss, pr_accepted := pr_accepted r @ [j], pr_bounded := pr_bounded r @ [b]\<rparr>)"
proof -
  have len: "length (pr_started r) + length (tp_tasks (pr_pool r)) = length (pr_bounded r)"
    using assms(1) by (metis length_append queue_ok_def)
  then have "length (filter id (held r)) \<le> length (tp_tasks (pr_pool r))"
    using length_filter_le[of id "held r"] by (simp add: held_def)
  with len show ?thesis using assms by (auto simp: queue_ok_def held_def tp_push_def)
qed

lemma queue_ok_step: "pool_step r r' \<Longrightarrow> queue_ok n m r \<Longrightarrow> queue_ok n m r'"
proof -
  assume st: "pool_step r r'" and q: "queue_ok n m r"
  consider "pool_internal r r'" | "pool_call r r'" | "pool_spurious r r'" using st by (auto simp: pool_step_def)
  then show ?thesis
  proof cases
    case 1 then show ?thesis using q
    proof (induction rule: pool_internal.induct)
      case (take_job k r t p)
      have "length (filter id (drop (Suc a) (pr_bounded r))) \<le> length (filter id (drop a (pr_bounded r)))" for a
        by (cases "a < length (pr_bounded r)") (simp_all add: Cons_nth_drop_Suc[symmetric])
      then show ?case
        using take_job.prems take_jobD[OF take_job.hyps(2)] order_trans by (fastforce simp: queue_ok_def held_def)
    next
      case (check_pushes i j r p)
      then show ?case
        using queue_ok_push[OF check_pushes.prems, of p j "pr_workers r" True] check_doneD[OF check_pushes.hyps(2)]
        by (simp add: queue_ok_def held_def)
    qed (auto simp: queue_ok_def held_def)
  next
    case 2 then show ?thesis using q
    proof (induction rule: pool_call.induct)
      case (try_submit j r p)
      then show ?case
        using try_submitD[OF try_submit.hyps(1)] by (intro queue_ok_push[where ws = "pr_workers r"]) (auto simp: queue_ok_def)
    next
      case (submit j r p)
      then show ?case
        using submit_doneD[OF submit.hyps(1)] by (intro queue_ok_push[where ws = "pr_workers r"]) (auto simp: queue_ok_def)
    next
      case (enqueue j r p)
      then show ?case
        using enqueueD[OF enqueue.hyps(1)] by (intro queue_ok_push[where ws = "pr_workers r"]) auto
    qed (auto simp: queue_ok_def held_def pool_stop_def)
  next
    case 3 then show ?thesis using q by (induction rule: pool_spurious.induct) (auto simp: queue_ok_def held_def)
  qed
qed

text \<open>Workers leave only a stopped, empty pool, and a stopped pool has no worker asleep for good.\<close>

definition stop_ok :: "'job pool_run \<Rightarrow> bool" where
  "stop_ok r \<longleftrightarrow>
     (Wk_Exited \<in> set (pr_workers r) \<longrightarrow> tp_stop (pr_pool r) \<and> tp_tasks (pr_pool r) = []) \<and>
     (tp_stop (pr_pool r) \<and> Wk_Asleep \<in> set (pr_workers r) \<longrightarrow> pr_notify_all r)"

lemma stop_ok_internal: "pool_internal r r' \<Longrightarrow> stop_ok r \<Longrightarrow> stop_ok r'"
proof (induction rule: pool_internal.induct)
  case (notify_all r)
  have "Wk_Asleep \<notin> rouse ` set (pr_workers r)" "Wk_Exited \<in> rouse ` set (pr_workers r) \<longrightarrow> Wk_Exited \<in> set (pr_workers r)"
    by (auto simp: rouse_def split: if_splits)
  then show ?case using notify_all by (auto simp: stop_ok_def)
qed (auto simp: stop_ok_def tp_push_def dest!: in_set_update pool_results)

lemma stop_ok_step: "pool_step r r' \<Longrightarrow> stop_ok r \<Longrightarrow> stop_ok r'"
proof -
  assume st: "pool_step r r'" and q: "stop_ok r"
  consider "pool_internal r r'" | "pool_call r r'" | "pool_spurious r r'" using st by (auto simp: pool_step_def)
  then show ?thesis
  proof cases
    case 1 then show ?thesis using q by (rule stop_ok_internal)
  next
    case 2 then show ?thesis using q
      by (induction rule: pool_call.induct) (auto simp: stop_ok_def tp_push_def pool_stop_def dest!: pool_results)
  next
    case 3 then show ?thesis using q
      by (induction rule: pool_spurious.induct) (auto simp: stop_ok_def dest!: in_set_update)
  qed
qed

text \<open>No notification is lost: while there is a job, a worker is up or about to be woken, and while a
  submitter sleeps the queue is full, or a place in it is being handed to a submitter.\<close>

fun active :: "'job worker_pc \<Rightarrow> nat" where
  "active Wk_Asleep = 0" | "active Wk_Exited = 0" | "active _ = 1"

fun handing :: "'job worker_pc \<Rightarrow> nat" where
  "handing (Wk_Notify t) = 1" | "handing _ = 0"

fun calling :: "'job submitter_pc \<Rightarrow> nat" where
  "calling Sb_Notify = 1" | "calling _ = 0"

fun rechecking :: "'job submitter_pc \<Rightarrow> nat" where
  "rechecking (Sb_Check j) = 1" | "rechecking _ = 0"

definition jobs_ok :: "'job pool_run \<Rightarrow> bool" where
  "jobs_ok r \<longleftrightarrow> (pr_workers r \<noteq> [] \<and> tp_tasks (pr_pool r) \<noteq> [] \<longrightarrow>
     0 < tally active (pr_workers r) + tally calling (pr_submitters r))"

definition places_ok :: "'job pool_run \<Rightarrow> bool" where
  "places_ok r \<longleftrightarrow>
     ((\<exists>j. Sb_Asleep j \<in> set (pr_submitters r) \<or> Sb_Check j \<in> set (pr_submitters r)) \<longrightarrow>
        0 < tp_max_queue_size (pr_pool r)) \<and>
     ((\<exists>j. Sb_Asleep j \<in> set (pr_submitters r)) \<and> \<not> tp_stop (pr_pool r) \<longrightarrow>
        tp_max_queue_size (pr_pool r)
          \<le> length (tp_tasks (pr_pool r)) + tally rechecking (pr_submitters r) + tally handing (pr_workers r))"

lemma all_active:
  assumes "ws \<noteq> []" and "Wk_Asleep \<notin> set ws" and "Wk_Exited \<notin> set ws"
  shows "0 < tally active ws"
proof -
  have "active (hd ws) = 1" using assms list.set_sel(1)[OF assms(1)] by (cases "hd ws") auto
  then show ?thesis using assms(1) by (auto simp: tally_pos intro!: bexI[of _ "hd ws"])
qed

lemma tally_rouse: "tally active ws \<le> tally active (map rouse ws)"
proof (induction ws)
  case (Cons w ws) then show ?case by (cases w) (auto simp: rouse_def)
qed simp

lemma tally_rouse_handing: "tally handing (map rouse ws) = tally handing ws"
  by (induction ws) (auto simp: rouse_def)

lemma jobs_ok_internal: "pool_internal r r' \<Longrightarrow> stop_ok r \<Longrightarrow> jobs_ok r \<Longrightarrow> jobs_ok r'"
proof (induction rule: pool_internal.induct)
  case (take_job k r t p)
  then show ?case using tally_update[of k "pr_workers r" active "Wk_Notify t"] take_jobD[OF take_job.hyps(2)]
    by (auto simp: jobs_ok_def)
next
  case (notify_submitter k t r i j)
  then show ?case
    using tally_update[of k "pr_workers r" active "Wk_Run t"] tally_update[of i "pr_submitters r" calling "Sb_Check j"]
    by (auto simp: jobs_ok_def)
next
  case (notify_nobody k t r)
  then show ?case using tally_update[of k "pr_workers r" active "Wk_Run t"] by (auto simp: jobs_ok_def)
next
  case (ran k t r)
  then show ?case using tally_update[of k "pr_workers r" active Wk_Ready] by (auto simp: jobs_ok_def)
next
  case (check_pushes i j r p)
  then show ?case using tally_update[of i "pr_submitters r" calling Sb_Notify] by (auto simp: jobs_ok_def)
next
  case (check_blocks i j r)
  then show ?case using tally_update[of i "pr_submitters r" calling "Sb_Asleep j"] by (auto simp: jobs_ok_def)
next
  case (check_throws i j r e)
  then show ?case using tally_update[of i "pr_submitters r" calling Sb_Thrown] by (auto simp: jobs_ok_def)
next
  case (notify_worker i r k)
  then show ?case using tally_update[of k "pr_workers r" active Wk_Ready] by (auto simp: jobs_ok_def)
next
  case (notify_no_worker i r)
  then show ?case using all_active[of "pr_workers r"] by (auto simp: jobs_ok_def stop_ok_def)
next
  case (notify_all r)
  then show ?case using tally_rouse[of "pr_workers r"] by (auto simp: jobs_ok_def)
qed (auto simp: jobs_ok_def dest!: pool_results)

lemma places_ok_internal: "pool_internal r r' \<Longrightarrow> places_ok r \<Longrightarrow> places_ok r'"
proof (induction rule: pool_internal.induct)
  case (take_job k r t p)
  then show ?case
    using tally_update[of k "pr_workers r" handing "Wk_Notify t"] take_jobD[OF take_job.hyps(2)] by (auto simp: places_ok_def)
next
  case (sleep k r)
  then show ?case using tally_update[of k "pr_workers r" handing Wk_Asleep] by (auto simp: places_ok_def)
next
  case (exit k r)
  then show ?case using tally_update[of k "pr_workers r" handing Wk_Exited] by (auto simp: places_ok_def)
next
  case (notify_submitter k t r i j)
  have "Sb_Asleep j \<in> set (pr_submitters r)" using notify_submitter.hyps(2) by (metis nth_mem)
  then show ?case using notify_submitter
    using tally_update[of k "pr_workers r" handing "Wk_Run t"] tally_update[of i "pr_submitters r" rechecking "Sb_Check j"]
    by (auto simp: places_ok_def)
next
  case (notify_nobody k t r)
  then show ?case by (auto simp: places_ok_def)
next
  case (ran k t r)
  then show ?case using tally_update[of k "pr_workers r" handing Wk_Ready] by (auto simp: places_ok_def)
next
  case (check_pushes i j r p)
  then show ?case using tally_update[of i "pr_submitters r" rechecking Sb_Notify] check_doneD[OF check_pushes.hyps(2)]
    by (auto simp: places_ok_def tp_push_def dest!: in_set_update)
next
  case (check_blocks i j r)
  moreover have "Sb_Check j \<in> set (pr_submitters r)" using check_blocks.hyps(1) by (metis nth_mem)
  ultimately show ?case using check_blocksD[OF check_blocks.hyps(2)] by (auto simp: places_ok_def dest!: in_set_update)
next
  case (check_throws i j r e)
  then show ?case using check_throwsD[OF check_throws.hyps(2)] by (auto simp: places_ok_def dest!: in_set_update)
next
  case (notify_worker i r k)
  then show ?case
    using tally_update[of k "pr_workers r" handing Wk_Ready] tally_update[of i "pr_submitters r" rechecking Sb_Done]
    by (auto simp: places_ok_def dest!: in_set_update)
next
  case (notify_no_worker i r)
  then show ?case using tally_update[of i "pr_submitters r" rechecking Sb_Done]
    by (auto simp: places_ok_def dest!: in_set_update)
next
  case (notify_all r)
  then show ?case by (auto simp: places_ok_def tally_rouse_handing)
qed

definition pool_inv :: "nat \<Rightarrow> nat \<Rightarrow> 'job pool_run \<Rightarrow> bool" where
  "pool_inv n m r \<longleftrightarrow> queue_ok n m r \<and> stop_ok r \<and> jobs_ok r \<and> places_ok r"

lemma pool_inv_step: "pool_step r r' \<Longrightarrow> pool_inv n m r \<Longrightarrow> pool_inv n m r'"
proof -
  assume st: "pool_step r r'" and inv: "pool_inv n m r"
  consider "pool_internal r r'" | "pool_call r r'" | "pool_spurious r r'" using st by (auto simp: pool_step_def)
  then have "jobs_ok r' \<and> places_ok r'"
  proof cases
    case 1 then show ?thesis using inv jobs_ok_internal places_ok_internal by (auto simp: pool_inv_def)
  next
    case 2 then show ?thesis using inv
      by (induction rule: pool_call.induct)
        (auto simp: pool_inv_def jobs_ok_def places_ok_def tp_push_def pool_stop_def dest!: pool_results)
  next
    case 3 then show ?thesis using inv
    proof (induction rule: pool_spurious.induct)
      case (worker k r)
      then show ?case
        using tally_update[of k "pr_workers r" active Wk_Ready] tally_update[of k "pr_workers r" handing Wk_Ready]
        by (auto simp: pool_inv_def jobs_ok_def places_ok_def)
    next
      case (submitter i j r)
      moreover have "Sb_Asleep j \<in> set (pr_submitters r)" using submitter.hyps by (metis nth_mem)
      ultimately show ?case
        using tally_update[of i "pr_submitters r" calling "Sb_Check j"] tally_update[of i "pr_submitters r" rechecking "Sb_Check j"]
        by (auto simp: pool_inv_def jobs_ok_def places_ok_def)
    qed
  qed
  then show ?thesis using queue_ok_step[OF st] stop_ok_step[OF st] inv by (auto simp: pool_inv_def)
qed

lemma pool_inv_reachable: "pool_step\<^sup>*\<^sup>* (new_pool_run n m) r \<Longrightarrow> pool_inv n m r"
proof (induction rule: rtranclp_induct)
  case base
  show ?case
    by (auto simp: pool_inv_def queue_ok_def held_def stop_ok_def jobs_ok_def places_ok_def new_pool_run_def new_thread_pool_def)
next
  case (step r r') then show ?case using pool_inv_step by blast
qed

section \<open>Progress\<close>

text \<open>A weight that every internal step decreases.\<close>

fun worker_weight :: "'job worker_pc \<Rightarrow> nat" where
  "worker_weight Wk_Ready = 1" | "worker_weight (Wk_Notify t) = 4" | "worker_weight (Wk_Run t) = 2" | "worker_weight _ = 0"

fun submitter_weight :: "'job submitter_pc \<Rightarrow> nat" where
  "submitter_weight (Sb_Asleep j) = 6" | "submitter_weight (Sb_Check j) = 7" | "submitter_weight Sb_Notify = 2" | "submitter_weight _ = 0"

definition pool_weight :: "'job pool_run \<Rightarrow> nat" where
  "pool_weight r = 4 * length (tp_tasks (pr_pool r)) + tally worker_weight (pr_workers r) +
     tally submitter_weight (pr_submitters r) + (if pr_notify_all r then length (pr_workers r) + 1 else 0)"

lemma tally_rouse_weight: "tally worker_weight (map rouse ws) \<le> tally worker_weight ws + length ws"
  by (induction ws) (auto simp: rouse_def)

lemma internal_decreases: "pool_internal r r' \<Longrightarrow> pool_weight r' < pool_weight r"
proof (induction rule: pool_internal.induct)
  case (take_job k r t p)
  then show ?case using tally_update[of k "pr_workers r" worker_weight "Wk_Notify t"] take_jobD[OF take_job.hyps(2)]
    by (simp add: pool_weight_def)
next
  case (sleep k r)
  then show ?case using tally_update[of k "pr_workers r" worker_weight Wk_Asleep] by (simp add: pool_weight_def)
next
  case (exit k r)
  then show ?case using tally_update[of k "pr_workers r" worker_weight Wk_Exited] by (simp add: pool_weight_def)
next
  case (notify_submitter k t r i j)
  then show ?case
    using tally_update[of k "pr_workers r" worker_weight "Wk_Run t"] tally_update[of i "pr_submitters r" submitter_weight "Sb_Check j"]
    by (simp add: pool_weight_def)
next
  case (notify_nobody k t r)
  then show ?case using tally_update[of k "pr_workers r" worker_weight "Wk_Run t"] by (simp add: pool_weight_def)
next
  case (ran k t r)
  then show ?case using tally_update[of k "pr_workers r" worker_weight Wk_Ready] by (simp add: pool_weight_def)
next
  case (check_pushes i j r p)
  then show ?case using tally_update[of i "pr_submitters r" submitter_weight Sb_Notify] check_doneD[OF check_pushes.hyps(2)]
    by (simp add: pool_weight_def tp_push_def)
next
  case (check_blocks i j r)
  then show ?case using tally_update[of i "pr_submitters r" submitter_weight "Sb_Asleep j"] by (simp add: pool_weight_def)
next
  case (check_throws i j r e)
  then show ?case using tally_update[of i "pr_submitters r" submitter_weight Sb_Thrown] by (simp add: pool_weight_def)
next
  case (notify_worker i r k)
  then show ?case
    using tally_update[of k "pr_workers r" worker_weight Wk_Ready] tally_update[of i "pr_submitters r" submitter_weight Sb_Done]
    by (simp add: pool_weight_def)
next
  case (notify_no_worker i r)
  then show ?case using tally_update[of i "pr_submitters r" submitter_weight Sb_Done] by (simp add: pool_weight_def)
next
  case (notify_all r)
  then show ?case using tally_rouse_weight[of "pr_workers r"] by (simp add: pool_weight_def)
qed

definition pool_quiet :: "'job pool_run \<Rightarrow> bool" where
  "pool_quiet r \<longleftrightarrow> (\<forall>r'. \<not> pool_internal r r')"

lemma quiet_worker:
  assumes "pool_quiet r" and "pc \<in> set (pr_workers r)"
  shows "pc = Wk_Asleep \<or> pc = Wk_Exited"
proof -
  obtain k where k: "k < length (pr_workers r)" "pr_workers r ! k = pc" using assms(2) by (auto simp: in_set_conv_nth)
  show ?thesis
  proof (cases pc)
    case Wk_Ready
    then show ?thesis
      using assms(1) k pool_internal.take_job[of k r] pool_internal.sleep[of k r] pool_internal.exit[of k r]
      unfolding pool_quiet_def by (cases "worker_take (pr_pool r)") blast+
  next
    case (Wk_Notify t)
    then show ?thesis
      using assms(1) k pool_internal.notify_submitter[of k r t] pool_internal.notify_nobody[of k r t]
      unfolding pool_quiet_def by (metis in_set_conv_nth)
  next
    case (Wk_Run t)
    then show ?thesis using assms(1) k pool_internal.ran[of k r t] unfolding pool_quiet_def by blast
  qed simp_all
qed

lemma quiet_submitter:
  assumes "pool_quiet r" and "pc \<in> set (pr_submitters r)"
  shows "calling pc = 0 \<and> rechecking pc = 0"
proof -
  obtain i where i: "i < length (pr_submitters r)" "pr_submitters r ! i = pc" using assms(2) by (auto simp: in_set_conv_nth)
  show ?thesis
  proof (cases pc)
    case (Sb_Check j)
    then show ?thesis
      using assms(1) i pool_internal.check_pushes[of i r j] pool_internal.check_blocks[of i r j] pool_internal.check_throws[of i r j]
      unfolding pool_quiet_def by (cases "submit_check j (pr_pool r)") blast+
  next
    case Sb_Notify
    then show ?thesis
      using assms(1) i pool_internal.notify_worker[of i r] pool_internal.notify_no_worker[of i r]
      unfolding pool_quiet_def by (metis in_set_conv_nth)
  qed simp_all
qed

text \<open>When no thread of the pool can move, nothing is left to do.\<close>

lemma quiet_done:
  assumes "pool_quiet r" and "pool_inv n m r" and "0 < n"
  shows "tp_tasks (pr_pool r) = []" and "\<not> tp_stop (pr_pool r) \<Longrightarrow> Sb_Asleep j \<notin> set (pr_submitters r)"
proof -
  have w: "tally active (pr_workers r) = 0" "tally handing (pr_workers r) = 0"
    using quiet_worker[OF assms(1)] by (fastforce simp: tally_def)+
  have s: "tally calling (pr_submitters r) = 0" "tally rechecking (pr_submitters r) = 0"
    using quiet_submitter[OF assms(1)] by (fastforce simp: tally_def)+
  show t: "tp_tasks (pr_pool r) = []" using assms(2,3) w s by (auto simp: pool_inv_def queue_ok_def jobs_ok_def)
  show "Sb_Asleep j \<notin> set (pr_submitters r)" if "\<not> tp_stop (pr_pool r)"
    using assms(2) w s t that by (auto simp: pool_inv_def places_ok_def)
qed

lemma reaches_quiet: "\<exists>r'. pool_internal\<^sup>*\<^sup>* r r' \<and> pool_quiet r'"
proof (induction "pool_weight r" arbitrary: r rule: less_induct)
  case less
  show ?case
  proof (cases "pool_quiet r")
    case False
    then obtain r1 where r1: "pool_internal r r1" by (auto simp: pool_quiet_def)
    from less[OF internal_decreases[OF r1]] obtain r' where "pool_internal\<^sup>*\<^sup>* r1 r'" "pool_quiet r'" by blast
    with r1 show ?thesis by (meson converse_rtranclp_into_rtranclp)
  qed blast
qed

lemma run_internal: "pool_internal r r' \<Longrightarrow> pool_step\<^sup>*\<^sup>* r' s \<Longrightarrow> pool_step\<^sup>*\<^sup>* r s"
  by (rule converse_rtranclp_into_rtranclp) (simp_all add: pool_step_def)

lemma run_call: "pool_call r r' \<Longrightarrow> pool_step\<^sup>*\<^sup>* r' s \<Longrightarrow> pool_step\<^sup>*\<^sup>* r s"
  by (rule converse_rtranclp_into_rtranclp) (simp_all add: pool_step_def)

section \<open>Properties\<close>

text \<open>C15: jobs are started in the order in which they were accepted, each once, and none is dropped,
  not even by stopping the pool, whatever the callers, the workers and spurious wake-ups do. Of the
  jobs in the queue at most \<open>max_queue_size\<close> (if it is not zero) came through \<^verbatim>\<open>submit\<close> and
  \<^verbatim>\<open>try_submit\<close>, which respect the bound; \<^verbatim>\<open>enqueue\<close> does not, so the queue itself is within the bound
  as long as \<^verbatim>\<open>enqueue\<close> has not been used, as in the gateway.\<close>
theorem pool_fifo_bounded:
  assumes "pool_step\<^sup>*\<^sup>* (new_pool_run n m) r"
  shows "pr_started r @ tp_tasks (pr_pool r) = pr_accepted r \<and> length (pr_bounded r) = length (pr_accepted r)
    \<and> (0 < m \<longrightarrow> length (filter id (drop (length (pr_started r)) (pr_bounded r))) \<le> m)
    \<and> (0 < m \<and> False \<notin> set (pr_bounded r) \<longrightarrow> length (tp_tasks (pr_pool r)) \<le> m)"
proof -
  have q: "queue_ok n m r" using pool_inv_reachable[OF assms] by (simp add: pool_inv_def)
  have "length (filter id (held r)) = length (tp_tasks (pr_pool r))" if "False \<notin> set (pr_bounded r)"
  proof -
    have "set (held r) \<subseteq> set (pr_bounded r)" by (simp add: held_def set_drop_subset)
    then have "\<forall>b \<in> set (held r). id b" using that by (metis (full_types) id_apply subset_iff)
    then have "filter id (held r) = held r" by (rule filter_True)
    moreover have "length (pr_started r) + length (tp_tasks (pr_pool r)) = length (pr_bounded r)"
      using q by (metis length_append queue_ok_def)
    ultimately show ?thesis by (simp add: held_def)
  qed
  with q show ?thesis by (auto simp: queue_ok_def held_def)
qed

text \<open>C14: the pool does not deadlock. From every reachable state of a pool with at least one worker the
  threads of the pool come to rest however they are scheduled, without any spurious wake-up, and when
  they have, every accepted job has been started and - unless the pool is stopped - no submitter is
  still blocked.\<close>
theorem pool_comes_to_rest:
  assumes "pool_step\<^sup>*\<^sup>* (new_pool_run n m) r" and "0 < n"
  shows "wfp (\<lambda>y x. pool_internal x y) \<and> (\<exists>r'. pool_internal\<^sup>*\<^sup>* r r' \<and> pool_quiet r') \<and>
    (\<forall>r'. pool_internal\<^sup>*\<^sup>* r r' \<and> pool_quiet r' \<longrightarrow>
       pr_started r' = pr_accepted r' \<and> (tp_stop (pr_pool r') \<or> (\<forall>j. Sb_Asleep j \<notin> set (pr_submitters r'))))"
proof (intro conjI allI impI)
  show "wfp (\<lambda>y x. pool_internal x y)" by (rule wfp_if_convertible_to_nat[of _ pool_weight]) (rule internal_decreases)
  show "\<exists>r'. pool_internal\<^sup>*\<^sup>* r r' \<and> pool_quiet r'" by (rule reaches_quiet)
  fix r' assume r': "pool_internal\<^sup>*\<^sup>* r r' \<and> pool_quiet r'"
  have "pool_step\<^sup>*\<^sup>* r r'"
    using r' by (auto elim: mono_rtranclp[rule_format, rotated] simp: pool_step_def)
  then have inv: "pool_inv n m r'" using assms(1) by (intro pool_inv_reachable) (rule rtranclp_trans)
  show "pr_started r' = pr_accepted r'"
    using quiet_done(1)[OF _ inv assms(2)] inv r' by (simp add: pool_inv_def queue_ok_def)
  show "tp_stop (pr_pool r') \<or> (\<forall>j. Sb_Asleep j \<notin> set (pr_submitters r'))"
    using quiet_done(2)[OF _ inv assms(2)] r' by blast
qed

text \<open>A submitted job fills the one place of the queue; an enqueued one goes beyond it.\<close>

definition wpool_run :: "nat pool_run" where
  "wpool_run = \<lparr>pr_pool = \<lparr>tp_tasks = [5, 6], tp_stop = False, tp_max_queue_size = 1\<rparr>, pr_workers = [Wk_Ready],
     pr_submitters = [Sb_Notify, Sb_Notify], pr_notify_all = False, pr_accepted = [5, 6], pr_bounded = [True, False],
     pr_started = []\<rparr>"

lemma wpool_run_reachable: "pool_step\<^sup>*\<^sup>* (new_pool_run 1 1) wpool_run"
proof -
  let ?p = "\<lambda>ts. \<lparr>tp_tasks = ts, tp_stop = False, tp_max_queue_size = 1\<rparr> :: nat thread_pool"
  let ?r = "wpool_run\<lparr>pr_pool := ?p [5], pr_submitters := [Sb_Notify], pr_accepted := [5], pr_bounded := [True]\<rparr>"
  have 1: "pool_call (new_pool_run 1 1) ?r"
    using pool_call.submit[of 5 "new_pool_run 1 1" "?p [5]"]
    by (simp add: new_pool_run_def new_thread_pool_def wpool_run_def pool_defs)
  have 2: "pool_call ?r wpool_run"
    using pool_call.enqueue[of 6 ?r "?p [5, 6]"] by (simp add: wpool_run_def enqueue_def tp_push_def)
  show ?thesis by (rule run_call[OF 1 run_call[OF 2 rtranclp.rtrancl_refl]])
qed

theorem pool_fifo_bounded_witness:
  "pr_started wpool_run @ tp_tasks (pr_pool wpool_run) = pr_accepted wpool_run
   \<and> length (filter id (drop (length (pr_started wpool_run)) (pr_bounded wpool_run))) \<le> 1
   \<and> length (tp_tasks (pr_pool wpool_run)) = 2"
  using pool_fifo_bounded[OF wpool_run_reachable] by (simp add: wpool_run_def)

theorem pool_comes_to_rest_witness:
  "\<exists>r'. pool_internal\<^sup>*\<^sup>* wpool_run r' \<and> pr_started r' = pr_accepted r'"
  using pool_comes_to_rest[OF wpool_run_reachable] by auto

abbreviation one_place :: "'job list \<Rightarrow> bool \<Rightarrow> 'job worker_pc \<Rightarrow> 'job submitter_pc list \<Rightarrow> bool \<Rightarrow> 'job list \<Rightarrow> 'job list \<Rightarrow> 'job pool_run" where
  "one_place ts st w subs na acc started \<equiv>
     \<lparr>pr_pool = \<lparr>tp_tasks = ts, tp_stop = st, tp_max_queue_size = 1\<rparr>, pr_workers = [w], pr_submitters = subs,
      pr_notify_all = na, pr_accepted = acc, pr_bounded = replicate (length acc) True, pr_started = started\<rparr>"

lemma fill_pool:
  "pool_step\<^sup>*\<^sup>* (new_pool_run 1 1) (one_place [b] False (Wk_Run a) [Sb_Notify, Sb_Notify, Sb_Asleep c, Sb_Asleep d] False [a, b] [a])"
proof -
  let ?subs = "[Sb_Notify] :: 'a submitter_pc list"
  let ?s1 = "one_place [a] False Wk_Ready ?subs False [a] []"
  let ?s2 = "one_place [] False (Wk_Notify a) ?subs False [a] [a]"
  let ?s3 = "one_place [] False (Wk_Run a) ?subs False [a] [a]"
  let ?s4 = "one_place [b] False (Wk_Run a) (?subs @ [Sb_Notify]) False [a, b] [a]"
  let ?s5 = "one_place [b] False (Wk_Run a) (?subs @ [Sb_Notify, Sb_Asleep c]) False [a, b] [a]"
  let ?s6 = "one_place [b] False (Wk_Run a) (?subs @ [Sb_Notify, Sb_Asleep c, Sb_Asleep d]) False [a, b] [a]"
  have 1: "pool_call (new_pool_run 1 1) ?s1"
    using pool_call.submit[of a "new_pool_run 1 1"] by (simp add: new_pool_run_def new_thread_pool_def pool_defs)
  have 2: "pool_internal ?s1 ?s2" using pool_internal.take_job[of 0 ?s1 a] by (simp add: pool_defs)
  have 3: "pool_internal ?s2 ?s3" using pool_internal.notify_nobody[of 0 ?s2 a] by simp
  have 4: "pool_call ?s3 ?s4" using pool_call.submit[of b ?s3] by (simp add: pool_defs)
  have 5: "pool_call ?s4 ?s5" using pool_call.submit_blocks[of c ?s4] by (simp add: pool_defs)
  have 6: "pool_call ?s5 ?s6" using pool_call.submit_blocks[of d ?s5] by (simp add: pool_defs)
  have "pool_step\<^sup>*\<^sup>* (new_pool_run 1 1) ?s6"
    by (rule run_call[OF 1 run_internal[OF 2 run_internal[OF 3 run_call[OF 4 run_call[OF 5 run_call[OF 6 rtranclp.rtrancl_refl]]]]]])
  then show ?thesis by simp
qed

text \<open>stopping the pool can strand a submitter. The destructor notifies \<^verbatim>\<open>cv_\<close> but not
  \<^verbatim>\<open>cv_not_full_\<close>. With one worker, one place in the queue and two submitters blocked in \<^verbatim>\<open>submit\<close>, the
  worker takes the last job, wakes one of them, and leaves; the other is blocked for ever although
  its wait predicate is true.\<close>
theorem pool_stop_strands_submitter:
  "\<exists>r. pool_step\<^sup>*\<^sup>* (new_pool_run 1 1) r \<and> tp_stop (pr_pool r) \<and> pr_workers r = [Wk_Exited]
     \<and> Sb_Asleep d \<in> set (pr_submitters r) \<and> pool_quiet r"
proof -
  fix a b c :: 'a
  let ?subs = "\<lambda>pc. [Sb_Done, Sb_Done, pc, Sb_Asleep d]"
  let ?s0 = "one_place [b] False (Wk_Run a) [Sb_Notify, Sb_Notify, Sb_Asleep c, Sb_Asleep d] False [a, b] [a]"
  let ?s1 = "one_place [b] False (Wk_Run a) [Sb_Done, Sb_Notify, Sb_Asleep c, Sb_Asleep d] False [a, b] [a]"
  let ?s2 = "one_place [b] False (Wk_Run a) (?subs (Sb_Asleep c)) False [a, b] [a]"
  let ?s3 = "one_place [b] True (Wk_Run a) (?subs (Sb_Asleep c)) True [a, b] [a]"
  let ?s4 = "one_place [b] True (Wk_Run a) (?subs (Sb_Asleep c)) False [a, b] [a]"
  let ?s5 = "one_place [b] True Wk_Ready (?subs (Sb_Asleep c)) False [a, b] [a]"
  let ?s6 = "one_place [] True (Wk_Notify b) (?subs (Sb_Asleep c)) False [a, b] [a, b]"
  let ?s7 = "one_place [] True (Wk_Run b) (?subs (Sb_Check c)) False [a, b] [a, b]"
  let ?s8 = "one_place [] True (Wk_Run b) (?subs Sb_Thrown) False [a, b] [a, b]"
  let ?s9 = "one_place [] True Wk_Ready (?subs Sb_Thrown) False [a, b] [a, b]"
  let ?s10 = "one_place [] True Wk_Exited (?subs Sb_Thrown) False [a, b] [a, b]"
  have 1: "pool_internal ?s0 ?s1" using pool_internal.notify_no_worker[of 0 ?s0] by simp
  have 2: "pool_internal ?s1 ?s2" using pool_internal.notify_no_worker[of 1 ?s1] by simp
  have 3: "pool_call ?s2 ?s3" using pool_call.stop[of ?s2] by (simp add: pool_defs)
  have 4: "pool_internal ?s3 ?s4" using pool_internal.notify_all[of ?s3] by (simp add: rouse_def)
  have 5: "pool_internal ?s4 ?s5" using pool_internal.ran[of 0 ?s4 a] by simp
  have 6: "pool_internal ?s5 ?s6" using pool_internal.take_job[of 0 ?s5 b] by (simp add: pool_defs)
  have 7: "pool_internal ?s6 ?s7" using pool_internal.notify_submitter[of 0 ?s6 b 2 c] by (simp add: numeral_2_eq_2)
  have 8: "pool_internal ?s7 ?s8" using pool_internal.check_throws[of 2 ?s7 c] by (simp add: pool_defs numeral_2_eq_2)
  have 9: "pool_internal ?s8 ?s9" using pool_internal.ran[of 0 ?s8 b] by simp
  have 10: "pool_internal ?s9 ?s10" using pool_internal.exit[of 0 ?s9] by (simp add: pool_defs)
  have "pool_step\<^sup>*\<^sup>* ?s0 ?s10"
    by (rule run_internal[OF 1 run_internal[OF 2 run_call[OF 3 run_internal[OF 4 run_internal[OF 5 run_internal[OF 6 run_internal[OF 7 run_internal[OF 8 run_internal[OF 9 run_internal[OF 10 rtranclp.rtrancl_refl]]]]]]]]]])
  with fill_pool have "pool_step\<^sup>*\<^sup>* (new_pool_run 1 1) ?s10" by (rule rtranclp_trans)
  moreover have "pool_quiet ?s10"
    unfolding pool_quiet_def by (auto elim!: pool_internal.cases simp: less_Suc_eq)
  ultimately show ?thesis by (intro exI[of _ ?s10]) simp
qed

end
