(* ===== verification/Gw_Connection.thy ===== *)
theory Gw_Connection
  imports Gw_Event_Loop Gw_Buffer Gw_Http_Framing
begin

text \<open>
  A client connection, \<^verbatim>\<open>src/src/net/connection.cpp\<close>: the buffers, the incremental parser and the state
  machine of one socket. An operation acts on a world with the connection, the event loop, the answers
  the kernel will give to \<^verbatim>\<open>write\<close> and the list of what the operations did outside of the connection:
  bytes sent, messages handed to the message callback, the close callback, \<^verbatim>\<open>shutdown\<close> and \<^verbatim>\<open>close\<close>. The
  result is \<^term>\<open>None\<close> when the HTTP parser does not return. Where a list of answers ends the kernel
  answers \<^verbatim>\<open>EAGAIN\<close>.
\<close>

section \<open>State\<close>

datatype conn_state = Cs_Reading | Cs_Processing | Cs_Writing | Cs_Closing | Cs_Closed

datatype read_result = Rd_Data bytes | Rd_Eof | Rd_Again | Rd_Error
datatype write_result = Wr_Sent nat | Wr_Again | Wr_Error

datatype conn_effect =
    Ef_Sent bytes
  | Ef_Message int bytes
  | Ef_Close_Callback int
  | Ef_Shutdown int
  | Ef_Close int

text \<open>The tasks \<^verbatim>\<open>send\<close> and \<^verbatim>\<open>force_close\<close> defer; the number stands for the shared pointer they capture.\<close>

datatype conn_task = Task_Send nat bytes bool | Task_Close nat

record connection =
  cn_fd :: int
  cn_state :: conn_state
  cn_last_active :: int
  cn_max_request_size :: int
  cn_read_buf :: buffer
  cn_write_buf :: buffer
  cn_close_cb :: bool
  cn_message_cb :: bool
  cn_keep_alive :: bool
  cn_parser :: http_parser

record 'cb conn_world =
  cw_loop :: "('cb, conn_task) event_loop"
  cw_conn :: connection
  cw_writes :: "write_result list"
  cw_effects :: "conn_effect list"

definition new_connection :: "int \<Rightarrow> int \<Rightarrow> int \<Rightarrow> connection" where
  "new_connection now fd mx =
     \<lparr>cn_fd = fd, cn_state = Cs_Reading, cn_last_active = now, cn_max_request_size = mx,
      cn_read_buf = new_buffer, cn_write_buf = new_buffer, cn_close_cb = False, cn_message_cb = False,
      cn_keep_alive = False, cn_parser = new_parser mx\<rparr>"

definition set_message_callback :: "connection \<Rightarrow> connection" where
  "set_message_callback c = c\<lparr>cn_message_cb := True\<rparr>"

definition set_close_callback :: "connection \<Rightarrow> connection" where
  "set_close_callback c = c\<lparr>cn_close_cb := True\<rparr>"

definition emit :: "conn_effect list \<Rightarrow> 'cb conn_world \<Rightarrow> 'cb conn_world" where
  "emit es w = w\<lparr>cw_effects := cw_effects w @ es\<rparr>"

section \<open>Closing\<close>

definition close_internal :: "'cb conn_world \<Rightarrow> 'cb conn_world" where
  "close_internal w =
     (if cn_state (cw_conn w) = Cs_Closed then w
      else
        let fd = cn_fd (cw_conn w);
            cb = cn_close_cb (cw_conn w);
            w1 = w\<lparr>cw_conn := (cw_conn w)\<lparr>cn_fd := -1, cn_state := Cs_Closed, cn_close_cb := False\<rparr>\<rparr>;
            w2 = w1\<lparr>cw_loop := del_fd fd (cw_loop w1)\<rparr>;
            w3 = (if cb then emit [Ef_Close_Callback fd] w2 else w2);
            w4 = w3\<lparr>cw_loop := remove_callback fd (cw_loop w3)\<rparr>
        in emit [Ef_Close fd] w4)"

section \<open>Reading\<close>

partial_function (option) try_parse_message :: "'cb conn_world \<Rightarrow> 'cb conn_world option" where
  "try_parse_message w =
     (if readable_size (cn_read_buf (cw_conn w)) = 0 \<and> partial (cn_parser (cw_conn w)) = [] then Some w
      else
        case parse (readable (cn_read_buf (cw_conn w))) (cn_parser (cw_conn w)) of
          None \<Rightarrow> None
        | Some (consumed, p) \<Rightarrow>
            let c1 = (cw_conn w)\<lparr>cn_read_buf := consume consumed (cn_read_buf (cw_conn w)), cn_parser := p\<rparr>
            in if pstate p = PS_Error then Some (close_internal (w\<lparr>cw_conn := c1\<rparr>))
               else if pstate p = PS_Complete then
                 let c2 = c1\<lparr>cn_parser := parser_reset p, cn_state := Cs_Processing\<rparr>
                 in Some (if cn_message_cb c2 then emit [Ef_Message (cn_fd c2) (raw p)] (w\<lparr>cw_conn := c2\<rparr>)
                          else w\<lparr>cw_conn := c2\<rparr>)
               else if consumed = 0 then Some (w\<lparr>cw_conn := c1\<rparr>)
               else try_parse_message (w\<lparr>cw_conn := c1\<rparr>))"

datatype io_stop = Io_Done | Io_Wait | Io_Fail

lemma read_capacity_pos [simp]: "0 < read_capacity b"
  by (simp add: read_capacity_def stack_buf_size_def)

text \<open>A \<^verbatim>\<open>readv\<close> takes at most what the buffer and the extra stack buffer hold; the rest stays in the
  socket.\<close>

function read_loop :: "int \<Rightarrow> read_result list \<Rightarrow> buffer \<Rightarrow> io_stop \<times> buffer" where
  "read_loop mx [] b = (Io_Wait, b)"
| "read_loop mx (Rd_Again # rs) b = (Io_Wait, b)"
| "read_loop mx (Rd_Error # rs) b = (Io_Fail, snd (read_from_fd None b))"
| "read_loop mx (Rd_Eof # rs) b = (Io_Fail, snd (read_from_fd (Some []) b))"
| "read_loop mx (Rd_Data d # rs) b =
     (if d = [] then read_loop mx rs b
      else
        let b1 = snd (read_from_fd (Some (take (read_capacity b) d)) b);
            d1 = drop (read_capacity b) d
        in if size_of_int mx < readable_size b1 then (Io_Fail, b1)
           else if d1 = [] then read_loop mx rs b1
           else read_loop mx (Rd_Data d1 # rs) b1)"
  by pat_completeness auto
termination
  by (relation "measure (\<lambda>(m, rs, b). sum_list (map (\<lambda>r. case r of Rd_Data d \<Rightarrow> Suc (length d) | _ \<Rightarrow> 1) rs))") auto

definition on_read :: "int \<Rightarrow> read_result list \<Rightarrow> 'cb conn_world \<Rightarrow> 'cb conn_world option" where
  "on_read now rs w =
     (if cn_state (cw_conn w) = Cs_Closing then Some (close_internal w)
      else if cn_state (cw_conn w) \<noteq> Cs_Reading then Some w
      else
        let c1 = (cw_conn w)\<lparr>cn_last_active := now\<rparr>
        in case read_loop (cn_max_request_size c1) rs (cn_read_buf c1) of (stop, b) \<Rightarrow>
             let w1 = w\<lparr>cw_conn := c1\<lparr>cn_read_buf := b\<rparr>\<rparr>
             in if stop = Io_Fail then Some (close_internal w1) else try_parse_message w1)"

section \<open>Writing\<close>

definition finish_response :: "(int \<Rightarrow> bool) \<Rightarrow> 'cb conn_world \<Rightarrow> 'cb conn_world option" where
  "finish_response ctl_ok w =
     (let fd = cn_fd (cw_conn w)
      in if cn_keep_alive (cw_conn w) then
           let w1 = w\<lparr>cw_conn := (cw_conn w)\<lparr>cn_state := Cs_Reading\<rparr>,
                      cw_loop := mod_fd (ctl_ok fd) fd (EPOLLIN + EPOLLET) (cw_loop w)\<rparr>;
               w2 = w1\<lparr>cw_conn := (cw_conn w1)\<lparr>cn_parser := parser_reset (cn_parser (cw_conn w1))\<rparr>\<rparr>
           in if partial (cn_parser (cw_conn w2)) \<noteq> [] then try_parse_message w2 else Some w2
         else
           let w1 = emit [Ef_Shutdown fd] w
           in Some (w1\<lparr>cw_conn := (cw_conn w1)\<lparr>cn_state := Cs_Closing\<rparr>,
                       cw_loop := mod_fd (ctl_ok fd) fd (EPOLLIN + EPOLLET) (cw_loop w1)\<rparr>))"

text \<open>A \<^verbatim>\<open>write\<close> accepts at most the bytes it is offered.\<close>

fun write_loop :: "write_result list \<Rightarrow> buffer \<Rightarrow> bytes \<Rightarrow> io_stop \<times> write_result list \<times> buffer \<times> bytes" where
  "write_loop ws b sent =
     (if readable_size b = 0 then (Io_Done, ws, b, sent)
      else case ws of
        [] \<Rightarrow> (Io_Wait, [], b, sent)
      | Wr_Again # ws' \<Rightarrow> (Io_Wait, ws', snd (write_to_fd (-1) b), sent)
      | Wr_Error # ws' \<Rightarrow> (Io_Fail, ws', snd (write_to_fd (-1) b), sent)
      | Wr_Sent n # ws' \<Rightarrow>
          (let k = min n (readable_size b);
               b1 = snd (write_to_fd (int k) b)
           in if k = 0 then (Io_Wait, ws', b1, sent)
              else write_loop ws' b1 (sent @ take k (readable b))))"

declare write_loop.simps [simp del]

definition on_write :: "(int \<Rightarrow> bool) \<Rightarrow> int \<Rightarrow> 'cb conn_world \<Rightarrow> 'cb conn_world option" where
  "on_write ctl_ok now w =
     (if cn_state (cw_conn w) \<noteq> Cs_Writing then Some w
      else case write_loop (cw_writes w) (cn_write_buf (cw_conn w)) [] of (stop, ws, b, sent) \<Rightarrow>
        let w1 = emit [Ef_Sent sent]
                   (w\<lparr>cw_conn := (cw_conn w)\<lparr>cn_last_active := now, cn_write_buf := b\<rparr>, cw_writes := ws\<rparr>)
        in case stop of
             Io_Wait \<Rightarrow> Some w1
           | Io_Fail \<Rightarrow> Some (close_internal w1)
           | Io_Done \<Rightarrow> finish_response ctl_ok w1)"

definition send_internal :: "(int \<Rightarrow> bool) \<Rightarrow> int \<Rightarrow> bytes \<Rightarrow> bool \<Rightarrow> 'cb conn_world \<Rightarrow> 'cb conn_world option" where
  "send_internal ctl_ok now data keep_alive w =
     (let c = cw_conn w; fd = cn_fd c
      in if cn_state c \<noteq> Cs_Processing \<and> cn_state c \<noteq> Cs_Reading then Some w
         else on_write ctl_ok now
           (w\<lparr>cw_conn := c\<lparr>cn_keep_alive := keep_alive, cn_write_buf := append_bytes data (cn_write_buf c),
                            cn_state := Cs_Writing\<rparr>,
              cw_loop := mod_fd (ctl_ok fd) fd (EPOLLIN + EPOLLOUT + EPOLLET) (cw_loop w)\<rparr>))"

section \<open>From other threads\<close>

definition conn_send :: "nat \<Rightarrow> bytes \<Rightarrow> bool \<Rightarrow> ('cb, conn_task) event_loop \<Rightarrow> ('cb, conn_task) event_loop" where
  "conn_send self data keep_alive el = loop_defer (Task_Send self data keep_alive) el"

definition force_close :: "nat \<Rightarrow> connection \<Rightarrow> ('cb, conn_task) event_loop \<Rightarrow> ('cb, conn_task) event_loop" where
  "force_close self c el = (if cn_state c = Cs_Closed then el else loop_defer (Task_Close self) el)"

section \<open>The loops\<close>

lemma length_buf_shrink: "buffer_inv b \<Longrightarrow> kPrependableSize < read_idx b \<Longrightarrow> length (buf (shrink b)) = length (buf b)"
  by (rule shrink_ok(4))

lemma length_buf_append:
  assumes "buffer_inv b" and "buffer_room b d"
  shows "length (buf (append_bytes d b)) \<le> length (buf b) + length d"
proof (cases "d = []")
  case False
  define e where "e = ensure_writable (length d) b"
  have e: "write_idx e + length d \<le> length (buf e)"
    using ensure_writable_ok(3)[of b "length d"] assms by (simp add: e_def buffer_room_def)
  have "length (buf e) \<le> length (buf b) + length d"
    using assms(1) shrink_ok(4)[OF assms(1)]
    by (auto simp: e_def ensure_writable_def prependable_size_def Let_def)
  then show ?thesis using False e by (simp add: append_bytes_def Let_def flip: e_def)
qed (simp add: append_bytes_def)

lemma length_buf_consume [simp]: "length (buf (consume n b)) = length (buf b)"
  by (simp add: consume_def Let_def)

lemma length_buf_write_to_fd [simp]: "length (buf (snd (write_to_fd r b))) = length (buf b)"
  by (simp add: write_to_fd_def)

lemma write_loop_ok:
  "buffer_inv b \<Longrightarrow> write_loop ws b s = (stop, ws', b', sent) \<Longrightarrow>
   buffer_inv b' \<and> sent @ readable b' = s @ readable b \<and> (stop = Io_Done \<longrightarrow> readable b' = []) \<and>
   length (buf b') = length (buf b)"
proof (induction ws b s rule: write_loop.induct)
  case (1 ws b s)
  note w = write_to_fd_ok[OF 1(2)]
  show ?case
  proof (cases "readable_size b = 0")
    case True
    then have "readable b = []" by (simp add: readable_def)
    then show ?thesis using 1(2,3) True by (subst (asm) write_loop.simps) auto
  next
    case False
    show ?thesis
    proof (cases ws)
      case (Cons r rs)
      show ?thesis
      proof (cases r)
        case (Wr_Sent n)
        define k where "k = min n (readable_size b)"
        define b1 where "b1 = snd (write_to_fd (int k) b)"
        have b1: "buffer_inv b1" "readable b1 = drop k (readable b)" "length (buf b1) = length (buf b)"
          using w by (simp_all add: b1_def)
        have eq: "write_loop ws b s = (if k = 0 then (Io_Wait, rs, b1, s) else write_loop rs b1 (s @ take k (readable b)))"
          using False Cons Wr_Sent by (subst write_loop.simps) (auto simp: Let_def k_def b1_def min_def)
        show ?thesis
        proof (cases "k = 0")
          case True then show ?thesis using 1(3) eq b1 by auto
        next
          case k: False
          then have "buffer_inv b' \<and> sent @ readable b' = (s @ take k (readable b)) @ readable b1 \<and>
              (stop = Io_Done \<longrightarrow> readable b' = []) \<and> length (buf b') = length (buf b1)"
            using 1(1)[OF False Cons Wr_Sent k_def b1_def k b1(1)] 1(3) eq by simp
          then show ?thesis using b1 by simp
        qed
      qed (use 1(2,3) False Cons w in \<open>subst (asm) write_loop.simps, auto\<close>)+
    qed (use 1(2,3) False in \<open>subst (asm) write_loop.simps, auto\<close>)
  qed
qed

fun arrived :: "read_result list \<Rightarrow> bytes" where
  "arrived (Rd_Data d # rs) = d @ arrived rs"
| "arrived _ = []"

lemma length_buf_read:
  assumes "buffer_inv b" and "buffer_room b d"
  shows "length (buf (snd (read_from_fd (Some d) b))) \<le> length (buf b) + length d"
proof -
  define w where "w = writable_size b"
  have fit: "write_idx b + length (take w d) \<le> length (buf b)"
    using assms(1) by (auto simp: w_def buffer_inv_def)
  define b2 where "b2 = b\<lparr>buf := write_at (write_idx b) (take w d) (buf b), write_idx := length (buf b)\<rparr>"
  have l: "length (write_at (write_idx b) (take w d) (buf b)) = length (buf b)" using fit by (rule length_write_at)
  have i: "buffer_inv b2" using assms(1) l by (auto simp: b2_def buffer_inv_def)
  moreover have "buffer_room b2 (drop w d)" using assms(2) l by (simp add: b2_def buffer_room_def)
  ultimately have "length (buf (append_bytes (drop w d) b2)) \<le> length (buf b2) + length (drop w d)"
    by (rule length_buf_append)
  then show ?thesis using l by (auto simp: read_from_fd_def Let_def b2_def simp flip: w_def)
qed

lemma read_loop_ok:
  "buffer_inv b \<Longrightarrow> length (buf b) + length (arrived rs) < size_mod \<Longrightarrow> read_loop mx rs b = (stop, b') \<Longrightarrow>
   buffer_inv b' \<and> (stop \<noteq> Io_Fail \<longrightarrow> readable b' = readable b @ arrived rs) \<and>
   length (buf b') \<le> length (buf b) + length (arrived rs)"
proof (induction mx rs b rule: read_loop.induct)
  case (5 mx d rs b)
  show ?case
  proof (cases "d = []")
    case False
    define d0 where "d0 = take (read_capacity b) d"
    define d1 where "d1 = drop (read_capacity b) d"
    define b1 where "b1 = snd (read_from_fd (Some d0) b)"
    have b1': "b1 = snd (read_from_fd (Some (take (read_capacity b) d)) b)" by (simp add: b1_def d0_def)
    have eq: "read_loop mx (Rd_Data d # rs) b = (if size_of_int mx < readable_size b1 then (Io_Fail, b1)
        else if d1 = [] then read_loop mx rs b1 else read_loop mx (Rd_Data d1 # rs) b1)"
      unfolding b1' d1_def using False by (simp add: Let_def)
    have d: "d = d0 @ d1" "d0 \<noteq> []" using False by (simp_all add: d0_def d1_def neq_Nil_conv)
    have room: "buffer_room b d0" using 5(5) d(1) by (simp add: buffer_room_def)
    have b1: "buffer_inv b1" "readable b1 = readable b @ d0" "length (buf b1) \<le> length (buf b) + length d0"
      using read_from_fd_ok[OF 5(4) room d(2)] length_buf_read[OF 5(4) room] by (simp_all add: b1_def)
    have fits: "length (buf b1) + length (d1 @ arrived rs) < size_mod" using 5(5) b1(3) d(1) by simp
    consider "size_of_int mx < readable_size b1" | "\<not> size_of_int mx < readable_size b1" "d1 = []"
      | "\<not> size_of_int mx < readable_size b1" "d1 \<noteq> []" by blast
    then show ?thesis
    proof cases
      case 1
      then have "stop = Io_Fail \<and> b' = b1" using 5(6) unfolding eq by simp
      then show ?thesis using b1 d(1) by simp
    next
      case 2
      then have "read_loop mx rs b1 = (stop, b')" using 5(6) unfolding eq by simp
      with 5(2)[OF False b1' d1_def 2 b1(1)] fits b1 d(1) 2(2) show ?thesis by simp
    next
      case 3
      then have "read_loop mx (Rd_Data d1 # rs) b1 = (stop, b')" using 5(6) unfolding eq by simp
      with 5(3)[OF False b1' d1_def 3 b1(1)] fits b1 d(1) show ?thesis by simp
    qed
  qed (use 5 in simp)
qed (auto simp: read_from_fd_def)

section \<open>One call of the parser loop\<close>

text \<open>The bytes received and not yet handed to the message callback.\<close>

definition unparsed :: "connection \<Rightarrow> bytes" where
  "unparsed c = raw (cn_parser c) @ partial (cn_parser c) @ readable (cn_read_buf c)"

abbreviation with_input :: "http_parser \<Rightarrow> buffer \<Rightarrow> connection \<Rightarrow> connection" where
  "with_input p b c \<equiv> c\<lparr>cn_read_buf := b, cn_parser := p\<rparr>"

definition deliver :: "bytes \<Rightarrow> 'cb conn_world \<Rightarrow> 'cb conn_world" where
  "deliver m w = (if cn_message_cb (cw_conn w) then emit [Ef_Message (cn_fd (cw_conn w)) m] w else w)"

text \<open>How a call of \<^verbatim>\<open>try_parse_message\<close> that returns can end.\<close>

inductive parse_outcome :: "'cb conn_world \<Rightarrow> 'cb conn_world \<Rightarrow> bool" for w where
  failed: "buffer_inv b \<Longrightarrow> length (buf b) = length (buf (cn_read_buf (cw_conn w))) \<Longrightarrow>
     parse_outcome w (close_internal (w\<lparr>cw_conn := with_input p b (cw_conn w)\<rparr>))"
| waiting: "buffer_inv b \<Longrightarrow> length (buf b) = length (buf (cn_read_buf (cw_conn w))) \<Longrightarrow> readable b = [] \<Longrightarrow>
     \<not> parser_done p \<Longrightarrow> raw p @ partial p = unparsed (cw_conn w) \<Longrightarrow>
     parse_outcome w (w\<lparr>cw_conn := with_input p b (cw_conn w)\<rparr>)"
| message: "buffer_inv b \<Longrightarrow> length (buf b) = length (buf (cn_read_buf (cw_conn w))) \<Longrightarrow> readable b = [] \<Longrightarrow>
     \<not> parser_done p \<Longrightarrow> raw p = [] \<Longrightarrow> m @ partial p = unparsed (cw_conn w) \<Longrightarrow>
     parse_outcome w (deliver m (w\<lparr>cw_conn := (with_input p b (cw_conn w))\<lparr>cn_state := Cs_Processing\<rparr>\<rparr>))"

lemma parse_step:
  assumes "parse d p = Some (n, q)" and "\<not> parser_done p" and "pstate q \<noteq> PS_Error"
  shows "raw q @ partial q = raw p @ partial p @ d" and "drop n d = []"
  using parse_stream[OF assms(1,2)] assms
  by (auto simp: parse_def parser_done_def check_size_limit_def split: option.splits prod.splits if_splits)

lemma reset_not_done [simp]: "\<not> parser_done (parser_reset p)" "raw (parser_reset p) = []" "partial (parser_reset p) = partial p"
  by (simp_all add: parser_done_def parser_reset_def)

lemma parse_outcome_again:
  assumes "parse_outcome (w\<lparr>cw_conn := with_input p b (cw_conn w)\<rparr>) w'"
    and "length (buf b) = length (buf (cn_read_buf (cw_conn w)))" and "raw p @ partial p @ readable b = unparsed (cw_conn w)"
  shows "parse_outcome w w'"
  using assms(1)
proof (cases rule: parse_outcome.cases)
  case (failed b' p')
  then show ?thesis using parse_outcome.failed[of b' w p'] assms(2) by simp
next
  case (waiting b' p')
  then show ?thesis using parse_outcome.waiting[of b' w p'] assms(2,3) by (simp add: unparsed_def)
next
  case (message b' p' m)
  then show ?thesis using parse_outcome.message[of b' w p' m] assms(2,3) by (simp add: unparsed_def)
qed

lemma try_parse_outcome:
  assumes "try_parse_message w = Some w'" and "buffer_inv (cn_read_buf (cw_conn w))" and "\<not> parser_done (cn_parser (cw_conn w))"
  shows "parse_outcome w w'"
  using assms(2,3)
proof (induction rule: try_parse_message.raw_induct)
  case (1 loop w w')
  let ?c = "cw_conn w"
  let ?b = "cn_read_buf ?c"
  show ?case
  proof (cases "readable_size ?b = 0 \<and> partial (cn_parser ?c) = []")
    case True
    then show ?thesis
      using 1(2-4) parse_outcome.waiting[of ?b w "cn_parser ?c"] by (simp add: unparsed_def readable_def)
  next
    case False
    then obtain n p where p: "parse (readable ?b) (cn_parser ?c) = Some (n, p)"
      using 1(2) by (auto simp: prod.case_eq_if split: option.splits)
    define b where "b = consume n ?b"
    have b: "buffer_inv b" "readable b = drop n (readable ?b)" "length (buf b) = length (buf ?b)"
      using consume_ok[OF 1(3)] by (simp_all add: b_def)
    note step = 1(2)[unfolded p option.case prod.case Let_def, folded b_def]
    consider "pstate p = PS_Error" | "pstate p = PS_Complete" | "\<not> parser_done p" by (auto simp: parser_done_def)
    then show ?thesis
    proof cases
      case 1
      then show ?thesis using step False parse_outcome.failed[OF b(1,3), of p] by simp
    next
      case 2
      then have ps: "raw p @ partial p = unparsed ?c" "readable b = []"
        using parse_step[OF p 1(4)] b(2) by (simp_all add: unparsed_def)
      show ?thesis
        using step False 2 parse_outcome.message[OF b(1,3) ps(2), of "parser_reset p" "raw p"] ps(1)
        by (simp add: deliver_def split: if_splits)
    next
      case 3
      then have ps: "raw p @ partial p = unparsed ?c" "readable b = []"
        using parse_step[OF p 1(4)] b(2) by (auto simp: unparsed_def parser_done_def)
      show ?thesis
      proof (cases "n = 0")
        case True
        then show ?thesis using step False 3 parse_outcome.waiting[OF b(1,3) ps(2) 3 ps(1)] by (simp add: parser_done_def)
      next
        case n: False
        then have "loop (w\<lparr>cw_conn := with_input p b ?c\<rparr>) = Some w'" using step False 3 by (simp add: parser_done_def)
        from 1(1)[OF this] b 3 have "parse_outcome (w\<lparr>cw_conn := with_input p b ?c\<rparr>) w'" by simp
        then show ?thesis using b(3) by (rule parse_outcome_again) (simp add: ps)
      qed
    qed
  qed
qed (rule assms(1))

section \<open>The life of a connection\<close>

datatype conn_op =
    Op_Read int "read_result list"
  | Op_Write int "write_result list"
  | Op_Send int bytes bool "write_result list"
  | Op_Close

fun conn_apply :: "(int \<Rightarrow> bool) \<Rightarrow> conn_op \<Rightarrow> 'cb conn_world \<Rightarrow> 'cb conn_world option" where
  "conn_apply ctl_ok (Op_Read now rs) w = on_read now rs w"
| "conn_apply ctl_ok (Op_Write now ws) w = on_write ctl_ok now (w\<lparr>cw_writes := ws\<rparr>)"
| "conn_apply ctl_ok (Op_Send now data keep ws) w = send_internal ctl_ok now data keep (w\<lparr>cw_writes := ws\<rparr>)"
| "conn_apply ctl_ok Op_Close w = Some (close_internal w)"

text \<open>What an operation receives from the socket, and the response it accepts. Responses are sent by the
  gateway once per message, so a send comes when the connection is not reading.\<close>

fun op_received :: "conn_op \<Rightarrow> connection \<Rightarrow> bytes" where
  "op_received (Op_Read now rs) c = (if cn_state c = Cs_Reading then arrived rs else [])"
| "op_received _ c = []"

fun op_accepted :: "conn_op \<Rightarrow> connection \<Rightarrow> bytes list" where
  "op_accepted (Op_Send now data keep ws) c = (if cn_state c = Cs_Processing then [data] else [])"
| "op_accepted _ c = []"

fun op_proper :: "conn_op \<Rightarrow> connection \<Rightarrow> bool" where
  "op_proper (Op_Send now data keep ws) c \<longleftrightarrow> cn_state c \<noteq> Cs_Reading"
| "op_proper _ c \<longleftrightarrow> True"

fun op_volume :: "conn_op \<Rightarrow> nat" where
  "op_volume (Op_Read now rs) = length (arrived rs)"
| "op_volume (Op_Send now data keep ws) = length data"
| "op_volume _ = 0"

inductive conn_trace :: "(int \<Rightarrow> bool) \<Rightarrow> 'cb conn_world \<Rightarrow> nat \<Rightarrow> bytes \<Rightarrow> bytes list \<Rightarrow> 'cb conn_world \<Rightarrow> bool"
  for ctl_ok w0 where
  start: "conn_trace ctl_ok w0 0 [] [] w0"
| step: "conn_trace ctl_ok w0 v received accepted w \<Longrightarrow> op_proper op (cw_conn w) \<Longrightarrow> conn_apply ctl_ok op w = Some w' \<Longrightarrow>
     conn_trace ctl_ok w0 (v + op_volume op) (received @ op_received op (cw_conn w)) (accepted @ op_accepted op (cw_conn w)) w'"

fun sent_in :: "conn_effect \<Rightarrow> bytes" where
  "sent_in (Ef_Sent d) = d" | "sent_in _ = []"

fun message_in :: "conn_effect \<Rightarrow> bytes list" where
  "message_in (Ef_Message fd m) = [m]" | "message_in _ = []"

fun close_call_in :: "conn_effect \<Rightarrow> int list" where
  "close_call_in (Ef_Close_Callback fd) = [fd]" | "close_call_in _ = []"

fun closed_in :: "conn_effect \<Rightarrow> int list" where
  "closed_in (Ef_Close fd) = [fd]" | "closed_in _ = []"

definition sent_bytes :: "conn_effect list \<Rightarrow> bytes" where "sent_bytes es = concat (map sent_in es)"
definition messages :: "conn_effect list \<Rightarrow> bytes list" where "messages es = concat (map message_in es)"
definition close_calls :: "conn_effect list \<Rightarrow> int list" where "close_calls es = concat (map close_call_in es)"
definition closed_fds :: "conn_effect list \<Rightarrow> int list" where "closed_fds es = concat (map closed_in es)"

lemmas effect_views = sent_bytes_def messages_def close_calls_def closed_fds_def

lemma effect_views_simps [simp]:
  "sent_bytes [] = []" "sent_bytes (e # es) = sent_in e @ sent_bytes es" "sent_bytes (xs @ ys) = sent_bytes xs @ sent_bytes ys"
  "messages [] = []" "messages (e # es) = message_in e @ messages es" "messages (xs @ ys) = messages xs @ messages ys"
  "close_calls [] = []" "close_calls (e # es) = close_call_in e @ close_calls es"
  "close_calls (xs @ ys) = close_calls xs @ close_calls ys"
  "closed_fds [] = []" "closed_fds (e # es) = closed_in e @ closed_fds es" "closed_fds (xs @ ys) = closed_fds xs @ closed_fds ys"
  by (simp_all add: effect_views)

lemma cw_emit [simp]:
  "cw_conn (emit es w) = cw_conn w" "cw_loop (emit es w) = cw_loop w" "cw_writes (emit es w) = cw_writes w"
  "cw_effects (emit es w) = cw_effects w @ es"
  by (simp_all add: emit_def)

text \<open>What an open connection keeps, in the middle of an operation and between operations.\<close>

definition conn_open :: "int \<Rightarrow> bytes \<Rightarrow> bytes list \<Rightarrow> 'cb conn_world \<Rightarrow> bool" where
  "conn_open fd received accepted w \<longleftrightarrow>
     cn_state (cw_conn w) \<noteq> Cs_Closed \<and> buffer_inv (cn_read_buf (cw_conn w)) \<and> buffer_inv (cn_write_buf (cw_conn w)) \<and>
     cn_message_cb (cw_conn w) \<and> cn_close_cb (cw_conn w) \<and> cn_fd (cw_conn w) = fd \<and> 0 \<le> fd \<and>
     closed_fds (cw_effects w) = [] \<and> close_calls (cw_effects w) = [] \<and>
     prefix (concat (messages (cw_effects w))) received \<and>
     sent_bytes (cw_effects w) @ readable (cn_write_buf (cw_conn w)) = concat accepted"

definition conn_size :: "connection \<Rightarrow> nat" where
  "conn_size c = length (buf (cn_read_buf c)) + length (buf (cn_write_buf c))"

definition conn_live :: "nat \<Rightarrow> int \<Rightarrow> bytes \<Rightarrow> bytes list \<Rightarrow> 'cb conn_world \<Rightarrow> bool" where
  "conn_live v fd received accepted w \<longleftrightarrow> conn_open fd received accepted w \<and>
     \<not> parser_done (cn_parser (cw_conn w)) \<and> readable (cn_read_buf (cw_conn w)) = [] \<and>
     (cn_state (cw_conn w) \<noteq> Cs_Writing \<longrightarrow> readable (cn_write_buf (cw_conn w)) = []) \<and>
     (cn_state (cw_conn w) \<noteq> Cs_Reading \<longrightarrow> raw (cn_parser (cw_conn w)) = []) \<and>
     concat (messages (cw_effects w)) @ unparsed (cw_conn w) = received \<and>
     conn_size (cw_conn w) \<le> 2 * (kInitialSize + kPrependableSize) + v \<and>
     length (messages (cw_effects w)) = length accepted + (if cn_state (cw_conn w) = Cs_Processing then 1 else 0)"

definition conn_shut :: "int \<Rightarrow> bytes \<Rightarrow> bytes list \<Rightarrow> 'cb conn_world \<Rightarrow> bool" where
  "conn_shut fd received accepted w \<longleftrightarrow>
     cn_state (cw_conn w) = Cs_Closed \<and> cn_fd (cw_conn w) = -1 \<and>
     closed_fds (cw_effects w) = [fd] \<and> close_calls (cw_effects w) = [fd] \<and>
     prefix (concat (messages (cw_effects w))) received \<and> prefix (sent_bytes (cw_effects w)) (concat accepted)"

definition conn_ok :: "nat \<Rightarrow> int \<Rightarrow> bytes \<Rightarrow> bytes list \<Rightarrow> 'cb conn_world \<Rightarrow> bool" where
  "conn_ok v fd received accepted w \<longleftrightarrow> conn_live v fd received accepted w \<or> conn_shut fd received accepted w"

lemma close_shuts: "conn_open fd received accepted w \<Longrightarrow> conn_shut fd received accepted (close_internal w)"
  unfolding conn_open_def conn_shut_def by (simp add: close_internal_def Let_def) (metis prefixI)

lemma close_when_shut [simp]: "cn_state (cw_conn w) = Cs_Closed \<Longrightarrow> close_internal w = w"
  by (simp add: close_internal_def)

lemma try_parse_ok:
  assumes "try_parse_message w = Some w'" and "conn_open fd received accepted w" and "cn_state (cw_conn w) = Cs_Reading"
    and "\<not> parser_done (cn_parser (cw_conn w))" and "readable (cn_write_buf (cw_conn w)) = []"
    and "concat (messages (cw_effects w)) @ unparsed (cw_conn w) = received"
    and "length (messages (cw_effects w)) = length accepted"
    and "conn_size (cw_conn w) \<le> 2 * (kInitialSize + kPrependableSize) + v"
  shows "conn_ok v fd received accepted w'"
proof -
  have "buffer_inv (cn_read_buf (cw_conn w))" using assms(2) by (simp add: conn_open_def)
  from try_parse_outcome[OF assms(1) this assms(4)] show ?thesis
  proof (cases rule: parse_outcome.cases)
    case (failed b p)
    have "conn_open fd received accepted (w\<lparr>cw_conn := with_input p b (cw_conn w)\<rparr>)"
      using assms(2) failed by (simp add: conn_open_def)
    then show ?thesis using close_shuts failed(1) by (auto simp: conn_ok_def)
  next
    case (waiting b p)
    then have "conn_live v fd received accepted w'"
      using assms(2,3,5-8) by (simp add: conn_live_def conn_open_def conn_size_def) (simp add: unparsed_def)
    then show ?thesis by (simp add: conn_ok_def)
  next
    case (message b p m)
    have rec: "received = concat (messages (cw_effects w)) @ m @ partial p" using assms(6) message(7) by simp
    have "conn_live v fd received accepted w'"
      using assms(2,3,5,7,8) message(1-6) by (simp add: conn_live_def conn_open_def conn_size_def deliver_def unparsed_def rec)
    then show ?thesis by (simp add: conn_ok_def)
  qed
qed

lemma finish_response_ok:
  assumes "finish_response ctl_ok w = Some w'" and "conn_open fd received accepted w"
    and "\<not> parser_done (cn_parser (cw_conn w))" and "readable (cn_write_buf (cw_conn w)) = []"
    and "readable (cn_read_buf (cw_conn w)) = []" and "raw (cn_parser (cw_conn w)) = []"
    and "concat (messages (cw_effects w)) @ unparsed (cw_conn w) = received"
    and "length (messages (cw_effects w)) = length accepted"
    and "conn_size (cw_conn w) \<le> 2 * (kInitialSize + kPrependableSize) + v"
  shows "conn_ok v fd received accepted w'"
proof (cases "cn_keep_alive (cw_conn w)")
  case True
  define w2 where "w2 = w\<lparr>cw_loop := mod_fd (ctl_ok (cn_fd (cw_conn w))) (cn_fd (cw_conn w)) (EPOLLIN + EPOLLET) (cw_loop w),
      cw_conn := (cw_conn w)\<lparr>cn_state := Cs_Reading, cn_parser := parser_reset (cn_parser (cw_conn w))\<rparr>\<rparr>"
  have r: "(if partial (cn_parser (cw_conn w2)) \<noteq> [] then try_parse_message w2 else Some w2) = Some w'"
    using assms(1) True
    by (cases "partial (cn_parser (cw_conn w)) = []") (auto simp: finish_response_def Let_def w2_def)
  have o: "conn_open fd received accepted w2" using assms(2) by (simp add: conn_open_def w2_def)
  have u: "concat (messages (cw_effects w2)) @ unparsed (cw_conn w2) = received"
    using assms(6,7) by (simp add: w2_def unparsed_def)
  note facts = o u assms(4,5,8,9)
  show ?thesis
  proof (cases "partial (cn_parser (cw_conn w2)) = []")
    case True
    then have "w' = w2" using r by simp
    moreover have "conn_live v fd received accepted w2" using facts by (simp add: conn_live_def) (simp add: w2_def conn_size_def)
    ultimately show ?thesis by (simp add: conn_ok_def)
  next
    case False
    then have "try_parse_message w2 = Some w'" using r by simp
    then show ?thesis by (rule try_parse_ok) (use facts in \<open>simp_all add: w2_def conn_size_def\<close>)
  qed
next
  case False
  then have "conn_live v fd received accepted w'"
    using assms by (auto simp: finish_response_def Let_def conn_live_def conn_open_def conn_size_def unparsed_def)
  then show ?thesis by (simp add: conn_ok_def)
qed

text \<open>A connection that is writing: the state \<^verbatim>\<open>on_write\<close> finds.\<close>

definition conn_writing :: "nat \<Rightarrow> int \<Rightarrow> bytes \<Rightarrow> bytes list \<Rightarrow> 'cb conn_world \<Rightarrow> bool" where
  "conn_writing v fd received accepted w \<longleftrightarrow> conn_live v fd received accepted w \<and> cn_state (cw_conn w) = Cs_Writing"

lemma on_write_ok:
  assumes "on_write ctl_ok now w = Some w'" and "conn_writing v fd received accepted w"
  shows "conn_ok v fd received accepted w'"
proof -
  have st: "cn_state (cw_conn w) = Cs_Writing" and live: "conn_live v fd received accepted w"
    using assms(2) by (simp_all add: conn_writing_def)
  obtain stop ws b sent where wl: "write_loop (cw_writes w) (cn_write_buf (cw_conn w)) [] = (stop, ws, b, sent)"
    by (metis prod_cases4)
  have b: "buffer_inv b" "sent @ readable b = readable (cn_write_buf (cw_conn w))" "stop = Io_Done \<Longrightarrow> readable b = []"
      "length (buf b) = length (buf (cn_write_buf (cw_conn w)))"
    using write_loop_ok[OF _ wl] live by (simp_all add: conn_live_def conn_open_def)
  define w1 where "w1 = emit [Ef_Sent sent]
      (w\<lparr>cw_conn := (cw_conn w)\<lparr>cn_last_active := now, cn_write_buf := b\<rparr>, cw_writes := ws\<rparr>)"
  have r: "(case stop of Io_Wait \<Rightarrow> Some w1 | Io_Fail \<Rightarrow> Some (close_internal w1) | Io_Done \<Rightarrow> finish_response ctl_ok w1) = Some w'"
    using assms(1) st wl unfolding w1_def by (simp add: on_write_def Let_def)
  have o: "conn_open fd received accepted w1" using live b(1,2) by (simp add: w1_def conn_live_def conn_open_def)
  have l: "conn_live v fd received accepted w1"
    using o live st b(4) by (simp add: conn_live_def) (auto simp: w1_def unparsed_def conn_size_def)
  show ?thesis
  proof (cases stop)
    case Io_Done
    then have fin: "finish_response ctl_ok w1 = Some w'" and e: "readable (cn_write_buf (cw_conn w1)) = []"
      using r b(3) by (simp_all add: w1_def)
    have "cn_state (cw_conn w1) = Cs_Writing" using st by (simp add: w1_def)
    then show ?thesis
      by (intro finish_response_ok[OF fin o _ e]) (use l in \<open>simp_all add: conn_live_def\<close>)
  next
    case Io_Wait then show ?thesis using r l by (simp add: conn_ok_def)
  next
    case Io_Fail then show ?thesis using r close_shuts[OF o] by (auto simp: conn_ok_def)
  qed
qed

lemma send_internal_ok:
  assumes "send_internal ctl_ok now data keep w = Some w'" and "conn_live v fd received accepted w"
    and "cn_state (cw_conn w) = Cs_Processing" and "2 * (kInitialSize + kPrependableSize) + v + length data < size_mod"
  shows "conn_ok (v + length data) fd received (accepted @ [data]) w'"
proof -
  let ?c = "cw_conn w"
  define w1 where "w1 = w\<lparr>cw_conn := ?c\<lparr>cn_keep_alive := keep, cn_write_buf := append_bytes data (cn_write_buf ?c), cn_state := Cs_Writing\<rparr>,
      cw_loop := mod_fd (ctl_ok (cn_fd ?c)) (cn_fd ?c) (EPOLLIN + EPOLLOUT + EPOLLET) (cw_loop w)\<rparr>"
  have inv: "buffer_inv (cn_write_buf ?c)" using assms(2) by (simp add: conn_live_def conn_open_def)
  have room: "buffer_room (cn_write_buf ?c) data"
    using assms(2,4) by (simp add: buffer_room_def conn_live_def conn_size_def)
  note app = append_bytes_ok[OF inv room] length_buf_append[OF inv room]
  have "conn_writing (v + length data) fd received (accepted @ [data]) w1"
    using assms(2,3) app
    by (auto simp: conn_writing_def conn_live_def conn_open_def w1_def unparsed_def conn_size_def)
  moreover have "on_write ctl_ok now w1 = Some w'"
    using assms(1,3) by (simp add: send_internal_def Let_def w1_def)
  ultimately show ?thesis by (intro on_write_ok)
qed

lemma conn_live_more: "conn_live v fd received accepted w \<Longrightarrow> conn_live (v + n) fd received accepted w"
  by (simp add: conn_live_def)

lemma on_read_ok:
  assumes "on_read now rs w = Some w'" and "conn_live v fd received accepted w"
    and "cn_state (cw_conn w) = Cs_Reading" and "2 * (kInitialSize + kPrependableSize) + v + length (arrived rs) < size_mod"
  shows "conn_ok (v + length (arrived rs)) fd (received @ arrived rs) accepted w'"
proof -
  let ?c = "cw_conn w"
  obtain stop b where rl: "read_loop (cn_max_request_size ?c) rs (cn_read_buf ?c) = (stop, b)" by fastforce
  have b: "buffer_inv b" "stop \<noteq> Io_Fail \<Longrightarrow> readable b = arrived rs"
      "length (buf b) \<le> length (buf (cn_read_buf ?c)) + length (arrived rs)"
    using read_loop_ok[OF _ _ rl] assms(2,4) by (simp_all add: conn_live_def conn_open_def conn_size_def)
  define w1 where "w1 = w\<lparr>cw_conn := ?c\<lparr>cn_last_active := now, cn_read_buf := b\<rparr>\<rparr>"
  have r: "(if stop = Io_Fail then Some (close_internal w1) else try_parse_message w1) = Some w'"
    using assms(1,3) rl by (auto simp: on_read_def Let_def w1_def split: if_splits)
  have o: "conn_open fd (received @ arrived rs) accepted w1"
    using assms(2) b(1) by (simp add: w1_def conn_live_def conn_open_def)
  show ?thesis
  proof (cases "stop = Io_Fail")
    case True then show ?thesis using r close_shuts[OF o] by (auto simp: conn_ok_def)
  next
    case False
    then have "try_parse_message w1 = Some w'" using r by simp
    then show ?thesis
      by (rule try_parse_ok[OF _ o]) (use assms(2,3) b False in \<open>auto simp: conn_live_def w1_def unparsed_def conn_size_def\<close>)
  qed
qed

lemma shut_stays:
  assumes "conn_shut fd received accepted w" and "conn_apply ctl_ok op w = Some w'"
  shows "conn_shut fd (received @ op_received op (cw_conn w)) (accepted @ op_accepted op (cw_conn w)) w'"
proof -
  have st: "cn_state (cw_conn w) = Cs_Closed" using assms(1) by (simp add: conn_shut_def)
  then have "cw_conn w' = cw_conn w" "cw_effects w' = cw_effects w"
    using assms(2) by (cases op; auto simp: on_read_def on_write_def send_internal_def Let_def)+
  then show ?thesis using assms(1) st by (cases op) (auto simp: conn_shut_def)
qed

lemma conn_apply_ok:
  assumes "conn_live v fd received accepted w" and "conn_apply ctl_ok op w = Some w'" and "op_proper op (cw_conn w)"
    and "2 * (kInitialSize + kPrependableSize) + v + op_volume op < size_mod"
  shows "conn_ok (v + op_volume op) fd (received @ op_received op (cw_conn w)) (accepted @ op_accepted op (cw_conn w)) w'"
proof -
  have o: "conn_open fd received accepted w" using assms(1) by (simp add: conn_live_def)
  have same: "conn_ok (v + n) fd received accepted w" for n using conn_live_more[OF assms(1)] by (simp add: conn_ok_def)
  have scr: "conn_live v fd received accepted (w\<lparr>cw_writes := ws\<rparr>)" for ws
    using assms(1) by (simp add: conn_live_def conn_open_def)
  have close: "conn_ok n fd received accepted (close_internal w)" for n using close_shuts[OF o] by (simp add: conn_ok_def)
  show ?thesis
  proof (cases op)
    case (Op_Read now rs)
    then show ?thesis
      using assms(2,4) on_read_ok[OF _ assms(1), of now rs w'] same close
      by (cases "cn_state (cw_conn w)") (auto simp: on_read_def)
  next
    case (Op_Write now ws)
    show ?thesis
    proof (cases "cn_state (cw_conn w) = Cs_Writing")
      case True
      then have "conn_writing v fd received accepted (w\<lparr>cw_writes := ws\<rparr>)" using scr by (simp add: conn_writing_def)
      from on_write_ok[OF _ this, of ctl_ok now w'] show ?thesis using assms(2) Op_Write by simp
    next
      case False
      then have "w' = w\<lparr>cw_writes := ws\<rparr>" using assms(2) Op_Write by (simp add: on_write_def)
      then show ?thesis using scr Op_Write by (simp add: conn_ok_def)
    qed
  next
    case (Op_Send now data keep ws)
    show ?thesis
    proof (cases "cn_state (cw_conn w) = Cs_Processing")
      case True
      then show ?thesis using send_internal_ok[OF _ scr, of ctl_ok now data keep ws w'] assms(2,4) Op_Send by simp
    next
      case False
      then have "w' = w\<lparr>cw_writes := ws\<rparr>" using assms(2,3) Op_Send by (simp add: send_internal_def Let_def)
      then show ?thesis using conn_live_more[OF scr] Op_Send False by (simp add: conn_ok_def)
    qed
  next
    case Op_Close
    then show ?thesis using assms(2) close by auto
  qed
qed

definition fresh_world :: "int \<Rightarrow> 'cb conn_world \<Rightarrow> bool" where
  "fresh_world fd w \<longleftrightarrow> 0 \<le> fd \<and> cw_effects w = [] \<and>
     (\<exists>now mx. cw_conn w = set_close_callback (set_message_callback (new_connection now fd mx)))"

lemma fresh_live: "fresh_world fd w \<Longrightarrow> conn_live 0 fd [] [] w"
  using new_buffer_ok
  by (auto simp: fresh_world_def conn_live_def conn_open_def conn_size_def unparsed_def set_close_callback_def
      set_message_callback_def new_connection_def new_parser_def parser_done_def) (simp add: new_buffer_def)

lemma conn_trace_ok:
  "conn_trace ctl_ok w0 v received accepted w \<Longrightarrow> fresh_world fd w0 \<Longrightarrow>
   2 * (kInitialSize + kPrependableSize) + v < size_mod \<Longrightarrow> conn_ok v fd received accepted w"
proof (induction rule: conn_trace.induct)
  case start then show ?case using fresh_live[of fd w0] by (simp add: conn_ok_def)
next
  case (step v received accepted w op w')
  then have "conn_ok v fd received accepted w" by simp
  then show ?case
    using conn_apply_ok[of v fd received accepted w ctl_ok op w'] shut_stays[of fd received accepted w ctl_ok op w'] step.hyps step.prems
    unfolding conn_ok_def by (elim disjE) simp_all
qed

section \<open>Properties\<close>

definition wget :: bytes where "wget = ''GET / HTTP/1.1'' @ crlf2"

definition wconn :: "unit conn_world" where
  "wconn = \<lparr>cw_loop = \<lparr>deferred_tasks = [], pending_tasks = [], max_deferred_per_round = 256, wakeup_count = 0,
      callbacks = Map.empty, registrations = Map.empty, loop_running = True, wakeup_fd = 4,
      idle_cb_set = False, timer_set = False\<rparr>,
    cw_conn = set_close_callback (set_message_callback (new_connection 100 7 64)), cw_writes = [], cw_effects = []\<rparr>"

lemma wget_length: "length wget = 18"
  by (simp add: wget_def crlf2_def)

lemma wconn_state: "cn_state (cw_conn wconn) = Cs_Reading"
  by (simp add: wconn_def set_close_callback_def set_message_callback_def new_connection_def)

lemma wconn_fresh: "fresh_world 7 wconn"
  by (auto simp: fresh_world_def wconn_def)

text \<open>One read with a whole request hands it over.\<close>

lemma wconn_read:
  obtains w where "on_read 101 [Rd_Data wget] wconn = Some w" and "cn_state (cw_conn w) = Cs_Processing"
    and "cw_effects w = [Ef_Message 7 wget]"
proof -
  note len = wget_length
  obtain stop b where rl: "read_loop 64 [Rd_Data wget] new_buffer = (stop, b)" by fastforce
  have b: "buffer_inv b" "readable b = wget" "stop = Io_Wait"
  proof -
    have c: "take (read_capacity new_buffer) wget = wget" "drop (read_capacity new_buffer) wget = []"
      using len by (simp_all add: read_capacity_def stack_buf_size_def)
    have room: "buffer_room new_buffer wget"
      by (simp add: buffer_room_def len new_buffer_def kInitialSize_def kPrependableSize_def size_mod_def)
    have ne: "wget \<noteq> []" using len by auto
    note ok = read_from_fd_ok[OF new_buffer_ok(1) room ne]
    have "\<not> size_of_int 64 < readable_size (snd (read_from_fd (Some wget) new_buffer))"
      using ok new_buffer_ok(2) len length_readable[of "snd (read_from_fd (Some wget) new_buffer)"]
      by (simp add: size_of_int_def)
    then show "buffer_inv b" "readable b = wget" "stop = Io_Wait" using rl ok new_buffer_ok(2) ne by (simp_all add: c)
  qed
  obtain p where p: "parse wget (new_parser 64) = Some (18, p)" "pstate p = PS_Complete" "raw p = wget"
  proof -
    have "(case parse wget (new_parser 64) of Some (n, p) \<Rightarrow> n = 18 \<and> pstate p = PS_Complete \<and> raw p = wget | None \<Rightarrow> False)"
      by code_simp
    then show ?thesis using that by (auto split: option.splits)
  qed
  have rs: "readable_size b \<noteq> 0" using b(1,2) len length_readable[OF b(1)] by simp
  have c: "cn_parser (cw_conn wconn) = new_parser 64" "cn_message_cb (cw_conn wconn)" "cn_fd (cw_conn wconn) = 7"
      "cn_max_request_size (cw_conn wconn) = 64" "cn_read_buf (cw_conn wconn) = new_buffer" "cw_effects wconn = []"
    by (simp_all add: wconn_def set_close_callback_def set_message_callback_def new_connection_def)
  let ?w1 = "wconn\<lparr>cw_conn := (cw_conn wconn)\<lparr>cn_last_active := 101, cn_read_buf := b\<rparr>\<rparr>"
  let ?w2 = "wconn\<lparr>cw_conn := (cw_conn wconn)\<lparr>cn_last_active := 101, cn_read_buf := consume 18 b,
      cn_parser := parser_reset p, cn_state := Cs_Processing\<rparr>\<rparr>"
  have "on_read 101 [Rd_Data wget] wconn = try_parse_message ?w1" using rl b(3) by (simp add: on_read_def Let_def c wconn_state del: read_loop.simps)
  also have "\<dots> = Some (deliver wget ?w2)"
    using b(2) p rs by (subst try_parse_message.simps) (simp add: c deliver_def Let_def)
  finally show ?thesis using that[of "deliver wget ?w2"] by (simp add: deliver_def c)
qed

text \<open>C7: a connection neither loses nor reorders bytes, pipelined requests and partial reads and writes
  included. While it is open, the messages handed to the gateway followed by what is still unparsed are
  exactly the bytes received; the bytes sent followed by the write buffer are exactly the accepted
  responses in order; and there is one response for each message except for the one being processed,
  so a second request is never handed over before the first is answered. When it has been closed, what
  was handed over and what was sent are prefixes.\<close>
theorem connection_stream:
  assumes "conn_trace ctl_ok w0 v received accepted w" and "fresh_world fd w0"
    and "2 * (kInitialSize + kPrependableSize) + v < size_mod"
  shows "if cn_state (cw_conn w) = Cs_Closed
     then prefix (concat (messages (cw_effects w))) received \<and> prefix (sent_bytes (cw_effects w)) (concat accepted)
     else concat (messages (cw_effects w)) @ unparsed (cw_conn w) = received
        \<and> sent_bytes (cw_effects w) @ readable (cn_write_buf (cw_conn w)) = concat accepted
        \<and> length (messages (cw_effects w)) = length accepted + (if cn_state (cw_conn w) = Cs_Processing then 1 else 0)"
  using conn_trace_ok[OF assms] by (auto simp: conn_ok_def conn_live_def conn_open_def conn_shut_def)

theorem connection_stream_witness:
  "\<exists>w. conn_trace (\<lambda>_. True) wconn 18 wget [] w \<and> messages (cw_effects w) = [wget]
     \<and> concat (messages (cw_effects w)) @ unparsed (cw_conn w) = wget"
proof -
  obtain w where w: "on_read 101 [Rd_Data wget] wconn = Some w" "cn_state (cw_conn w) = Cs_Processing"
      "cw_effects w = [Ef_Message 7 wget]"
    using wconn_read .
  have "conn_trace (\<lambda>_. True) wconn 18 wget [] w"
    using conn_trace.step[OF conn_trace.start, of "Op_Read 101 [Rd_Data wget]" wconn "\<lambda>_. True" w] w(1)
    by (simp add: wget_length wconn_state)
  with connection_stream[OF this wconn_fresh] w show ?thesis
    by (auto simp: kInitialSize_def kPrependableSize_def size_mod_def)
qed

text \<open>C30: a descriptor is closed once. However reads, writes, responses and close requests are ordered,
  \<^verbatim>\<open>close\<close> and the close callback are called exactly once, with the descriptor of the connection, when
  the connection is closed, and not before; afterwards the connection holds no descriptor.\<close>
theorem connection_closed_once:
  assumes "conn_trace ctl_ok w0 v received accepted w" and "fresh_world fd w0"
    and "2 * (kInitialSize + kPrependableSize) + v < size_mod"
  shows "closed_fds (cw_effects w) = (if cn_state (cw_conn w) = Cs_Closed then [fd] else [])
    \<and> close_calls (cw_effects w) = (if cn_state (cw_conn w) = Cs_Closed then [fd] else [])
    \<and> cn_fd (cw_conn w) = (if cn_state (cw_conn w) = Cs_Closed then -1 else fd)"
  using conn_trace_ok[OF assms] by (auto simp: conn_ok_def conn_live_def conn_open_def conn_shut_def)

theorem connection_closed_once_witness:
  "\<exists>w. conn_trace (\<lambda>_. True) wconn 0 [] [] w \<and> closed_fds (cw_effects w) = [7] \<and> cn_fd (cw_conn w) = -1"
proof -
  let ?w = "close_internal (close_internal wconn)"
  have "conn_trace (\<lambda>_. True) wconn 0 [] [] ?w"
    using conn_trace.step[OF conn_trace.step[OF conn_trace.start, of Op_Close wconn "\<lambda>_. True" "close_internal wconn"], of Op_Close ?w]
    by simp
  moreover have "cn_state (cw_conn ?w) = Cs_Closed" by (simp add: close_internal_def Let_def)
  ultimately show ?thesis
    using connection_closed_once[of "\<lambda>_. True" wconn 0 "[]" "[]" ?w 7, OF _ wconn_fresh]
    by (auto simp: kInitialSize_def kPrependableSize_def size_mod_def)
qed

lemma read_loop_eof: "fst (read_loop mx (map Rd_Data ds @ Rd_Eof # rs) b) = Io_Fail"
proof (induction mx "map Rd_Data ds @ Rd_Eof # rs" b arbitrary: ds rule: read_loop.induct)
  case (5 mx d rs' b)
  then obtain ds' where ds: "ds = d # ds'" "rs' = map Rd_Data ds' @ Rd_Eof # rs" by (cases ds) auto
  show ?case
    using 5(1)[of ds'] 5(2)[of _ _ ds'] 5(3)[of _ _ "drop (read_capacity b) d # ds'"] by (auto simp: ds Let_def)
qed (auto simp: append_eq_Cons_conv map_eq_Cons_conv Cons_eq_append_conv)

text \<open>a client that sends its request and shuts down its sending side gets no answer. When the end
  of the stream is seen in the same round as the last bytes, the connection is closed without looking
  at them, even if they are a complete request.\<close>
theorem half_closed_request_dropped:
  assumes "cn_state (cw_conn w) = Cs_Reading"
  shows "\<exists>w'. on_read now (map Rd_Data ds @ Rd_Eof # rs) w = Some w' \<and> cn_state (cw_conn w') = Cs_Closed
    \<and> messages (cw_effects w') = messages (cw_effects w)"
proof -
  obtain b where "read_loop (cn_max_request_size (cw_conn w)) (map Rd_Data ds @ Rd_Eof # rs) (cn_read_buf (cw_conn w)) = (Io_Fail, b)"
    using read_loop_eof by (metis eq_fst_iff)
  then show ?thesis using assms by (simp add: on_read_def Let_def close_internal_def)
qed

theorem half_closed_request_dropped_witness:
  "\<exists>w. on_read 101 [Rd_Data wget, Rd_Eof] wconn = Some w \<and> messages (cw_effects w) = []
    \<and> (\<exists>w'. on_read 101 [Rd_Data wget] wconn = Some w' \<and> messages (cw_effects w') = [wget])"
proof -
  from half_closed_request_dropped[OF wconn_state, of 101 "[wget]" "[]"]
  obtain w where w: "on_read 101 [Rd_Data wget, Rd_Eof] wconn = Some w" "messages (cw_effects w) = messages (cw_effects wconn)" by auto
  obtain w' where "on_read 101 [Rd_Data wget] wconn = Some w'" "cw_effects w' = [Ef_Message 7 wget]" using wconn_read .
  with w show ?thesis by (simp add: wconn_def)
qed

end
