(* ===== verification/Gw_Server.thy ===== *)
theory Gw_Server
  imports Gw_Connection Gw_Gateway
begin

text \<open>
  The reactor side of the gateway: \<^verbatim>\<open>src/src/net/tcp_server.cpp\<close> and the callbacks that \<^verbatim>\<open>Gateway::run\<close> in
  \<^verbatim>\<open>src/src/core/gateway.cpp\<close> registers. Connection objects are numbered in the order of their creation; a
  callback or a deferred task that captured a shared pointer names the number. The table \<^verbatim>\<open>connections_\<close>
  is the list of its entries in some iteration order. The environment holds the clock and the answers
  of the kernel; the endless sequence of answers of \<^verbatim>\<open>accept\<close> is a function, so that a loop that never
  gets another answer does not return.
\<close>

section \<open>State\<close>

datatype server_cb = Sc_Listen | Sc_Conn nat

datatype accept_result = Ac_Conn int | Ac_Again | Ac_Fd_Limit | Ac_Error

record server_env =
  se_now :: int
  se_ctl_ok :: "int \<Rightarrow> bool"
  se_nonblock_ok :: "int \<Rightarrow> bool"
  se_reads :: "int \<Rightarrow> read_result list"
  se_accept :: "nat \<Rightarrow> accept_result"

record server =
  sv_config :: gateway_config
  sv_max_connections :: int
  sv_objects :: "connection list"
  sv_table :: "(int \<times> nat) list"
  sv_count :: int
  sv_submitted :: "(nat \<times> bytes) list"
  sv_writes :: "write_result list"
  sv_sent :: "(nat \<times> bytes) list"
  sv_closed :: "int list"
  sv_listen_fd :: int

type_synonym reactor = "(server_cb, conn_task) event_loop \<times> server"

section \<open>Callbacks of a connection\<close>

text \<open>The message callback submits the request to the pool; the close callback drops the table entry and
  the count.\<close>

definition on_close_callback :: "int \<Rightarrow> server \<Rightarrow> server" where
  "on_close_callback fd sv =
     sv\<lparr>sv_table := filter (\<lambda>e. fst e \<noteq> fd) (sv_table sv), sv_count := sv_count sv - 1\<rparr>"

fun apply_effect :: "nat \<Rightarrow> conn_effect \<Rightarrow> server \<Rightarrow> server" where
  "apply_effect cid (Ef_Message fd m) sv = sv\<lparr>sv_submitted := sv_submitted sv @ [(cid, m)]\<rparr>"
| "apply_effect cid (Ef_Close_Callback fd) sv = on_close_callback fd sv"
| "apply_effect cid (Ef_Close fd) sv = sv\<lparr>sv_closed := sv_closed sv @ [fd]\<rparr>"
| "apply_effect cid (Ef_Sent d) sv = sv\<lparr>sv_sent := sv_sent sv @ [(cid, d)]\<rparr>"
| "apply_effect cid (Ef_Shutdown fd) sv = sv"

text \<open>An operation of connection \<open>cid\<close>.\<close>

definition with_conn :: "nat \<Rightarrow> (server_cb conn_world \<Rightarrow> server_cb conn_world option) \<Rightarrow> reactor \<Rightarrow> reactor option" where
  "with_conn cid f w =
     (case w of (el, sv) \<Rightarrow>
        case f \<lparr>cw_loop = el, cw_conn = sv_objects sv ! cid, cw_writes = sv_writes sv, cw_effects = []\<rparr> of
          None \<Rightarrow> None
        | Some cw \<Rightarrow>
            Some (cw_loop cw, fold (apply_effect cid) (cw_effects cw)
              (sv\<lparr>sv_objects := (sv_objects sv)[cid := cw_conn cw], sv_writes := cw_writes cw\<rparr>)))"

fun run_conn_task :: "server_env \<Rightarrow> conn_task \<Rightarrow> reactor \<Rightarrow> reactor option" where
  "run_conn_task env (Task_Send cid data keep) w = with_conn cid (send_internal (se_ctl_ok env) (se_now env) data keep) w"
| "run_conn_task env (Task_Close cid) w = with_conn cid (\<lambda>cw. Some (close_internal cw)) w"

definition has_flag :: "nat \<Rightarrow> nat \<Rightarrow> bool" where
  "has_flag events flag \<longleftrightarrow> odd (events div flag)"

definition on_conn_event :: "server_env \<Rightarrow> nat \<Rightarrow> int \<Rightarrow> nat \<Rightarrow> reactor \<Rightarrow> reactor option" where
  "on_conn_event env cid fd events w =
     (case (if has_flag events EPOLLIN then with_conn cid (on_read (se_now env) (se_reads env fd)) w else Some w) of
        None \<Rightarrow> None
      | Some w1 \<Rightarrow>
          (case (if has_flag events EPOLLOUT then with_conn cid (on_write (se_ctl_ok env) (se_now env)) w1 else Some w1) of
             None \<Rightarrow> None
           | Some (el2, sv2) \<Rightarrow>
               Some (if has_flag events EPOLLHUP \<or> has_flag events EPOLLERR
                     then force_close cid (sv_objects sv2 ! cid) el2 else el2, sv2)))"

section \<open>Accepting\<close>

definition on_new_connection :: "server_env \<Rightarrow> int \<Rightarrow> reactor \<Rightarrow> reactor" where
  "on_new_connection env cfd w =
     (case w of (el, sv) \<Rightarrow>
        if 0 < sv_max_connections sv \<and> sv_max_connections sv \<le> sv_count sv
        then (el, sv\<lparr>sv_closed := sv_closed sv @ [cfd]\<rparr>)
        else
          let cid = length (sv_objects sv);
              conn = set_close_callback (set_message_callback
                       (new_connection (se_now env) cfd (max_request_size (sv_config sv))));
              el1 = add_fd (se_ctl_ok env cfd) cfd (EPOLLIN + EPOLLET) el;
              el2 = set_callback cfd (Cb_User (Sc_Conn cid)) el1
          in (el2, sv\<lparr>sv_objects := sv_objects sv @ [conn],
                      sv_table := (cfd, cid) # filter (\<lambda>e. fst e \<noteq> cfd) (sv_table sv),
                      sv_count := sv_count sv + 1\<rparr>))"

text \<open>The loop of \<^verbatim>\<open>on_accept\<close>, from the \<open>n\<close>-th answer of \<^verbatim>\<open>accept\<close> on.\<close>

partial_function (option) accept_loop :: "server_env \<Rightarrow> nat \<Rightarrow> reactor \<Rightarrow> reactor option" where
  "accept_loop env n w =
     (case se_accept env n of
        Ac_Again \<Rightarrow> Some w
      | Ac_Error \<Rightarrow> Some w
      | Ac_Fd_Limit \<Rightarrow> accept_loop env (Suc n) w
      | Ac_Conn cfd \<Rightarrow>
          accept_loop env (Suc n)
            (if \<not> se_nonblock_ok env cfd then (fst w, (snd w)\<lparr>sv_closed := sv_closed (snd w) @ [cfd]\<rparr>)
             else on_new_connection env cfd w))"

definition on_accept :: "server_env \<Rightarrow> reactor \<Rightarrow> reactor option" where
  "on_accept env w = accept_loop env 0 w"

text \<open>The first argument is the descriptor \<^verbatim>\<open>create_listen_socket\<close> returns.\<close>

definition tcp_server_start :: "int \<Rightarrow> server_env \<Rightarrow> reactor \<Rightarrow> reactor" where
  "tcp_server_start lfd env w =
     (case w of (el, sv) \<Rightarrow>
        let sv1 = sv\<lparr>sv_listen_fd := lfd\<rparr>
        in if lfd < 0 then (el, sv1)
           else (set_callback lfd (Cb_User Sc_Listen) (add_fd (se_ctl_ok env lfd) lfd (EPOLLIN + EPOLLET) el), sv1))"

text \<open>The destructor of the server.\<close>

definition tcp_server_stop :: "reactor \<Rightarrow> reactor" where
  "tcp_server_stop w =
     (case w of (el, sv) \<Rightarrow>
        if 0 \<le> sv_listen_fd sv
        then (remove_callback (sv_listen_fd sv) (del_fd (sv_listen_fd sv) el), sv\<lparr>sv_closed := sv_closed sv @ [sv_listen_fd sv]\<rparr>)
        else (el, sv))"

fun reactor_call :: "server_env \<Rightarrow> server_cb \<Rightarrow> int \<Rightarrow> nat \<Rightarrow> reactor \<Rightarrow> reactor option" where
  "reactor_call env Sc_Listen fd events w = on_accept env w"
| "reactor_call env (Sc_Conn cid) fd events w = on_conn_event env cid fd events w"

section \<open>Periodic work\<close>

fun cleanup_entries :: "int \<Rightarrow> int \<Rightarrow> connection list \<Rightarrow> (int \<times> nat) list \<Rightarrow>
    (server_cb, conn_task) event_loop \<Rightarrow> (int \<times> nat) list \<times> (server_cb, conn_task) event_loop" where
  "cleanup_entries now timeout objs [] el = ([], el)"
| "cleanup_entries now timeout objs ((fd, cid) # es) el =
     (if timeout < now - cn_last_active (objs ! cid)
      then cleanup_entries now timeout objs es (force_close cid (objs ! cid) el)
      else (case cleanup_entries now timeout objs es el of (es', el') \<Rightarrow> ((fd, cid) # es', el')))"

definition cleanup_idle_connections :: "int \<Rightarrow> reactor \<Rightarrow> reactor" where
  "cleanup_idle_connections now w =
     (case w of (el, sv) \<Rightarrow>
        case cleanup_entries now (keep_alive_timeout_sec (sv_config sv)) (sv_objects sv) (sv_table sv) el of
          (es, el') \<Rightarrow> (el', sv\<lparr>sv_table := es\<rparr>))"

definition send_error_and_close :: "nat \<Rightarrow> bytes \<Rightarrow> reactor \<Rightarrow> reactor" where
  "send_error_and_close cid resp w = (conn_send cid resp False (fst w), snd w)"

section \<open>What a connection operation does to the reactor\<close>

definition is_open :: "connection \<Rightarrow> bool" where
  "is_open c \<longleftrightarrow> cn_state c \<noteq> Cs_Closed"

text \<open>An operation leaves the connection open with its descriptor and callbacks, or closes it, taking its
  callback out of the loop and calling the close callback; a closed connection it leaves alone. It never
  touches the queue of deferred tasks.\<close>

definition kept_open :: "'cb conn_world \<Rightarrow> 'cb conn_world \<Rightarrow> bool" where
  "kept_open w w' \<longleftrightarrow> is_open (cw_conn w) \<and> is_open (cw_conn w') \<and> cn_fd (cw_conn w') = cn_fd (cw_conn w) \<and>
     cn_close_cb (cw_conn w') = cn_close_cb (cw_conn w) \<and> callbacks (cw_loop w') = callbacks (cw_loop w) \<and>
     close_calls (cw_effects w') = close_calls (cw_effects w)"

definition was_closed :: "'cb conn_world \<Rightarrow> 'cb conn_world \<Rightarrow> bool" where
  "was_closed w w' \<longleftrightarrow> is_open (cw_conn w) \<and> \<not> is_open (cw_conn w') \<and>
     callbacks (cw_loop w') = (callbacks (cw_loop w))(cn_fd (cw_conn w) := None) \<and>
     close_calls (cw_effects w') = close_calls (cw_effects w) @ (if cn_close_cb (cw_conn w) then [cn_fd (cw_conn w)] else []) \<and>
     cn_fd (cw_conn w) \<in> set (closed_fds (cw_effects w'))"

definition left_closed :: "'cb conn_world \<Rightarrow> 'cb conn_world \<Rightarrow> bool" where
  "left_closed w w' \<longleftrightarrow> \<not> is_open (cw_conn w) \<and> cw_conn w' = cw_conn w \<and> callbacks (cw_loop w') = callbacks (cw_loop w) \<and>
     close_calls (cw_effects w') = close_calls (cw_effects w)"

definition same_queue :: "'cb conn_world \<Rightarrow> 'cb conn_world \<Rightarrow> bool" where
  "same_queue w w' \<longleftrightarrow> defer_queue.truncate (cw_loop w') = defer_queue.truncate (cw_loop w) \<and>
     wakeup_fd (cw_loop w') = wakeup_fd (cw_loop w) \<and> loop_running (cw_loop w') = loop_running (cw_loop w)"

definition conn_changed :: "'cb conn_world \<Rightarrow> 'cb conn_world \<Rightarrow> bool" where
  "conn_changed w w' \<longleftrightarrow> same_queue w w' \<and> (kept_open w w' \<or> was_closed w w' \<or> left_closed w w')"

lemmas changed_defs = conn_changed_def same_queue_def kept_open_def was_closed_def left_closed_def

lemma kept_open_then: "kept_open w w1 \<Longrightarrow> same_queue w w1 \<Longrightarrow> conn_changed w1 w' \<Longrightarrow> conn_changed w w'"
  by (auto simp: changed_defs)

lemma changed_refl: "conn_changed w w"
  by (auto simp: changed_defs)

lemma changed_close: "conn_changed w (close_internal w)"
proof (cases "is_open (cw_conn w)")
  case True
  then have "was_closed w (close_internal w)"
    by (auto simp: was_closed_def is_open_def close_internal_def Let_def del_fd_def remove_callback_def)
  moreover have "same_queue w (close_internal w)"
    by (simp add: same_queue_def close_internal_def Let_def del_fd_def remove_callback_def defer_queue.truncate_def)
  ultimately show ?thesis by (simp add: conn_changed_def)
qed (auto simp: changed_defs is_open_def)

lemma changed_parse:
  assumes "try_parse_message w = Some w'" and "is_open (cw_conn w)"
  shows "conn_changed w w'"
  using assms(2)
proof (induction rule: try_parse_message.raw_induct)
  case (1 loop w w')
  let ?c = "cw_conn w"
  show ?case
  proof (cases "readable_size (cn_read_buf ?c) = 0 \<and> partial (cn_parser ?c) = []")
    case True then show ?thesis using 1(2) changed_refl by simp
  next
    case False
    then obtain n p where p: "parse (readable (cn_read_buf ?c)) (cn_parser ?c) = Some (n, p)"
      using 1(2) by (auto simp: prod.case_eq_if split: option.splits)
    define w1 where "w1 = w\<lparr>cw_conn := with_input p (consume n (cn_read_buf ?c)) ?c\<rparr>"
    have k: "kept_open w w1" "same_queue w w1" using 1(3) by (simp_all add: w1_def kept_open_def is_open_def same_queue_def)
    note step = 1(2)[unfolded p option.case prod.case Let_def, folded w1_def]
    consider "pstate p = PS_Error" | "pstate p = PS_Complete" | "pstate p \<noteq> PS_Error" "pstate p \<noteq> PS_Complete" by blast
    then show ?thesis
    proof cases
      case 1
      then show ?thesis using step False kept_open_then[OF k changed_close] by simp
    next
      case 2
      define w2 where "w2 = w\<lparr>cw_conn := (with_input (parser_reset p) (consume n (cn_read_buf ?c)) ?c)\<lparr>cn_state := Cs_Processing\<rparr>\<rparr>"
      have "w' = deliver (raw p) w2" using step False 2 by (auto simp: deliver_def w2_def)
      then show ?thesis using 1(3) by (auto simp: changed_defs deliver_def w2_def is_open_def)
    next
      case 3
      show ?thesis
      proof (cases "n = 0")
        case True
        then have "w' = w1" using step False 3 by simp
        then show ?thesis using k by (simp add: conn_changed_def)
      next
        case n: False
        then have "loop w1 = Some w'" using step False 3 by simp
        moreover have "is_open (cw_conn w1)" using k(1) by (simp add: kept_open_def)
        ultimately show ?thesis using 1(1) kept_open_then[OF k] by blast
      qed
    qed
  qed
qed (rule assms(1))

lemma mod_fd_same [simp]:
  "callbacks (mod_fd ok fd ev el) = callbacks el" "defer_queue.truncate (mod_fd ok fd ev el) = defer_queue.truncate el"
  "wakeup_fd (mod_fd ok fd ev el) = wakeup_fd el" "loop_running (mod_fd ok fd ev el) = loop_running el"
  by (simp_all add: mod_fd_def Let_def defer_queue.truncate_def)

lemma changed_finish:
  assumes "finish_response ctl_ok w = Some w'" and "is_open (cw_conn w)"
  shows "conn_changed w w'"
proof (cases "cn_keep_alive (cw_conn w)")
  case True
  define w2 where "w2 = w\<lparr>cw_loop := mod_fd (ctl_ok (cn_fd (cw_conn w))) (cn_fd (cw_conn w)) (EPOLLIN + EPOLLET) (cw_loop w),
      cw_conn := (cw_conn w)\<lparr>cn_state := Cs_Reading, cn_parser := parser_reset (cn_parser (cw_conn w))\<rparr>\<rparr>"
  have k: "kept_open w w2" "same_queue w w2" using assms(2) by (simp_all add: kept_open_def same_queue_def w2_def is_open_def)
  have "w' = w2 \<or> try_parse_message w2 = Some w'"
    using assms(1) True by (auto simp: finish_response_def Let_def w2_def split: if_splits)
  moreover have "is_open (cw_conn w2)" using k(1) by (simp add: kept_open_def)
  ultimately have "conn_changed w2 w'" using changed_refl[of w2] changed_parse[of w2 w'] by auto
  then show ?thesis by (rule kept_open_then[OF k])
next
  case False
  then show ?thesis using assms by (auto simp: finish_response_def Let_def changed_defs is_open_def)
qed

lemma changed_write: "on_write ctl_ok now w = Some w' \<Longrightarrow> conn_changed w w'"
proof (cases "cn_state (cw_conn w) = Cs_Writing")
  case True
  assume a: "on_write ctl_ok now w = Some w'"
  obtain stop ws b sent where wl: "write_loop (cw_writes w) (cn_write_buf (cw_conn w)) [] = (stop, ws, b, sent)"
    by (metis prod_cases4)
  define w1 where "w1 = emit [Ef_Sent sent]
      (w\<lparr>cw_conn := (cw_conn w)\<lparr>cn_last_active := now, cn_write_buf := b\<rparr>, cw_writes := ws\<rparr>)"
  have r: "(case stop of Io_Wait \<Rightarrow> Some w1 | Io_Fail \<Rightarrow> Some (close_internal w1) | Io_Done \<Rightarrow> finish_response ctl_ok w1) = Some w'"
    using a True wl unfolding w1_def by (simp add: on_write_def Let_def)
  have k: "kept_open w w1" "same_queue w w1" using True by (simp_all add: kept_open_def same_queue_def w1_def is_open_def)
  then have "conn_changed w1 w'"
    using r changed_close[of w1] changed_refl[of w1] changed_finish[of ctl_ok w1 w']
    by (auto simp: kept_open_def split: io_stop.splits)
  then show ?thesis by (rule kept_open_then[OF k])
qed (use changed_refl in \<open>auto simp: on_write_def\<close>)

lemma changed_send: "send_internal ctl_ok now data keep w = Some w' \<Longrightarrow> conn_changed w w'"
proof (cases "cn_state (cw_conn w) \<noteq> Cs_Processing \<and> cn_state (cw_conn w) \<noteq> Cs_Reading")
  case False
  assume a: "send_internal ctl_ok now data keep w = Some w'"
  define w1 where "w1 = w\<lparr>cw_conn := (cw_conn w)\<lparr>cn_keep_alive := keep, cn_write_buf := append_bytes data (cn_write_buf (cw_conn w)),
        cn_state := Cs_Writing\<rparr>,
      cw_loop := mod_fd (ctl_ok (cn_fd (cw_conn w))) (cn_fd (cw_conn w)) (EPOLLIN + EPOLLOUT + EPOLLET) (cw_loop w)\<rparr>"
  have "on_write ctl_ok now w1 = Some w'" using a False by (auto simp: send_internal_def Let_def w1_def)
  moreover have "kept_open w w1" "same_queue w w1" using False by (auto simp: kept_open_def same_queue_def w1_def is_open_def)
  ultimately show ?thesis using changed_write kept_open_then by blast
qed (use changed_refl in \<open>auto simp: send_internal_def Let_def\<close>)

lemma changed_read: "on_read now rs w = Some w' \<Longrightarrow> conn_changed w w'"
proof (cases "cn_state (cw_conn w) = Cs_Reading")
  case True
  assume a: "on_read now rs w = Some w'"
  obtain stop b where rl: "read_loop (cn_max_request_size (cw_conn w)) rs (cn_read_buf (cw_conn w)) = (stop, b)" by fastforce
  define w1 where "w1 = w\<lparr>cw_conn := (cw_conn w)\<lparr>cn_last_active := now, cn_read_buf := b\<rparr>\<rparr>"
  have r: "w' = close_internal w1 \<or> try_parse_message w1 = Some w'"
    using a True rl by (auto simp: on_read_def Let_def w1_def split: if_splits)
  have k: "kept_open w w1" "same_queue w w1" using True by (simp_all add: kept_open_def same_queue_def w1_def is_open_def)
  then have "conn_changed w1 w'" using r changed_close[of w1] changed_parse[of w1 w'] by (auto simp: kept_open_def)
  then show ?thesis by (rule kept_open_then[OF k])
qed (use changed_refl changed_close in \<open>auto simp: on_read_def split: if_splits\<close>)

section \<open>Deferred connection tasks\<close>

lemma objects_apply [simp]:
  "sv_objects (apply_effect cid e sv) = sv_objects sv" "sv_max_connections (apply_effect cid e sv) = sv_max_connections sv"
  "sv_listen_fd (apply_effect cid e sv) = sv_listen_fd sv" "sv_config (apply_effect cid e sv) = sv_config sv"
  by (cases e; simp add: on_close_callback_def)+

lemma fold_apply:
  "sv_objects (fold (apply_effect cid) es sv) = sv_objects sv"
  "sv_max_connections (fold (apply_effect cid) es sv) = sv_max_connections sv"
  "sv_listen_fd (fold (apply_effect cid) es sv) = sv_listen_fd sv"
  "sv_table (fold (apply_effect cid) es sv) = filter (\<lambda>e. fst e \<notin> set (close_calls es)) (sv_table sv)"
  "sv_count (fold (apply_effect cid) es sv) = sv_count sv - int (length (close_calls es))"
  "sv_closed (fold (apply_effect cid) es sv) = sv_closed sv @ closed_fds es"
proof -
  have "sv_objects (fold (apply_effect cid) es sv) = sv_objects sv \<and>
    sv_max_connections (fold (apply_effect cid) es sv) = sv_max_connections sv \<and>
    sv_listen_fd (fold (apply_effect cid) es sv) = sv_listen_fd sv \<and>
    sv_table (fold (apply_effect cid) es sv) = filter (\<lambda>e. fst e \<notin> set (close_calls es)) (sv_table sv) \<and>
    sv_count (fold (apply_effect cid) es sv) = sv_count sv - int (length (close_calls es)) \<and>
    sv_closed (fold (apply_effect cid) es sv) = sv_closed sv @ closed_fds es"
  proof (induction es arbitrary: sv)
    case (Cons e es)
    then show ?case by (cases e) (simp_all add: on_close_callback_def conj_commute)
  qed simp
  then show "sv_objects (fold (apply_effect cid) es sv) = sv_objects sv"
    "sv_max_connections (fold (apply_effect cid) es sv) = sv_max_connections sv"
    "sv_listen_fd (fold (apply_effect cid) es sv) = sv_listen_fd sv"
    "sv_table (fold (apply_effect cid) es sv) = filter (\<lambda>e. fst e \<notin> set (close_calls es)) (sv_table sv)"
    "sv_count (fold (apply_effect cid) es sv) = sv_count sv - int (length (close_calls es))"
    "sv_closed (fold (apply_effect cid) es sv) = sv_closed sv @ closed_fds es" by simp_all
qed

text \<open>The operation acts on the connection and the loop as \<open>conn_changed\<close> says.\<close>

lemma with_conn_changed:
  assumes "with_conn cid f (el, sv) = Some (el', sv')" and "\<And>w w'. f w = Some w' \<Longrightarrow> conn_changed w w'"
  obtains c es where
    "conn_changed \<lparr>cw_loop = el, cw_conn = sv_objects sv ! cid, cw_writes = sv_writes sv, cw_effects = []\<rparr>
       \<lparr>cw_loop = el', cw_conn = c, cw_writes = sv_writes sv', cw_effects = es\<rparr>"
    and "sv_objects sv' = (sv_objects sv)[cid := c]" and "sv_max_connections sv' = sv_max_connections sv"
    and "sv_listen_fd sv' = sv_listen_fd sv"
    and "sv_table sv' = filter (\<lambda>e. fst e \<notin> set (close_calls es)) (sv_table sv)"
    and "sv_count sv' = sv_count sv - int (length (close_calls es))"
    and "sv_closed sv' = sv_closed sv @ closed_fds es"
proof -
  let ?w = "\<lparr>cw_loop = el, cw_conn = sv_objects sv ! cid, cw_writes = sv_writes sv, cw_effects = []\<rparr>"
  obtain cw where cw: "f ?w = Some cw" "el' = cw_loop cw"
      "sv' = fold (apply_effect cid) (cw_effects cw) (sv\<lparr>sv_objects := (sv_objects sv)[cid := cw_conn cw], sv_writes := cw_writes cw\<rparr>)"
    using assms(1) by (auto simp: with_conn_def split: option.splits)
  have "conn_changed ?w \<lparr>cw_loop = el', cw_conn = cw_conn cw, cw_writes = sv_writes sv', cw_effects = cw_effects cw\<rparr>"
    using assms(2)[OF cw(1)] cw(2) by (simp add: changed_defs)
  then show thesis by (rule that) (simp_all add: cw(3) fold_apply)
qed




section \<open>The connection table\<close>

abbreviation opened :: "connection \<Rightarrow> nat" where
  "opened c \<equiv> (if is_open c then 1 else 0)"

text \<open>Connection \<open>cid\<close> is open on descriptor \<open>fd\<close>.\<close>

definition open_on :: "server \<Rightarrow> nat \<Rightarrow> int \<Rightarrow> bool" where
  "open_on sv cid fd \<longleftrightarrow> cid < length (sv_objects sv) \<and> is_open (sv_objects sv ! cid) \<and> cn_fd (sv_objects sv ! cid) = fd"

definition reactor_inv :: "reactor \<Rightarrow> bool" where
  "reactor_inv w \<longleftrightarrow> (case w of (el, sv) \<Rightarrow>
     sv_count sv = int (tally opened (sv_objects sv)) \<and>
     (0 < sv_max_connections sv \<longrightarrow> sv_count sv \<le> sv_max_connections sv) \<and>
     distinct (map fst (sv_table sv)) \<and>
     (\<forall>(fd, cid) \<in> set (sv_table sv). open_on sv cid fd) \<and>
     (\<forall>cid fd. callbacks el fd = Some (Cb_User (Sc_Conn cid)) \<longleftrightarrow> open_on sv cid fd) \<and>
     callbacks el (wakeup_fd el) = Some Cb_Wakeup \<and>
     callbacks el (sv_listen_fd sv) = Some (Cb_User Sc_Listen) \<and>
     (\<forall>c \<in> set (sv_objects sv). is_open c \<longrightarrow> cn_close_cb c))"

lemma reactor_invD:
  assumes "reactor_inv (el, sv)"
  shows "sv_count sv = int (tally opened (sv_objects sv))" and "0 < sv_max_connections sv \<Longrightarrow> sv_count sv \<le> sv_max_connections sv"
    and "distinct (map fst (sv_table sv))" and "(fd, cid) \<in> set (sv_table sv) \<Longrightarrow> open_on sv cid fd"
    and "callbacks el fd = Some (Cb_User (Sc_Conn cid)) \<longleftrightarrow> open_on sv cid fd"
    and "callbacks el (wakeup_fd el) = Some Cb_Wakeup" and "callbacks el (sv_listen_fd sv) = Some (Cb_User Sc_Listen)"
    and "c \<in> set (sv_objects sv) \<Longrightarrow> is_open c \<Longrightarrow> cn_close_cb c"
  using assms unfolding reactor_inv_def by auto

lemma reactor_invI:
  assumes "sv_count sv = int (tally opened (sv_objects sv))" and "0 < sv_max_connections sv \<Longrightarrow> sv_count sv \<le> sv_max_connections sv"
    and "distinct (map fst (sv_table sv))" and "\<And>fd cid. (fd, cid) \<in> set (sv_table sv) \<Longrightarrow> open_on sv cid fd"
    and "\<And>fd cid. callbacks el fd = Some (Cb_User (Sc_Conn cid)) \<longleftrightarrow> open_on sv cid fd"
    and "callbacks el (wakeup_fd el) = Some Cb_Wakeup" and "callbacks el (sv_listen_fd sv) = Some (Cb_User Sc_Listen)"
    and "\<And>c. c \<in> set (sv_objects sv) \<Longrightarrow> is_open c \<Longrightarrow> cn_close_cb c"
  shows "reactor_inv (el, sv)"
  using assms unfolding reactor_inv_def by auto

lemma open_on_inj: "reactor_inv (el, sv) \<Longrightarrow> open_on sv i fd \<Longrightarrow> open_on sv j fd \<Longrightarrow> i = j"
proof -
  assume inv: "reactor_inv (el, sv)" and o: "open_on sv i fd" "open_on sv j fd"
  have "callbacks el fd = Some (Cb_User (Sc_Conn i))" "callbacks el fd = Some (Cb_User (Sc_Conn j))"
    using inv o by (auto simp: reactor_inv_def)
  then show ?thesis by simp
qed

lemma open_on_update:
  "cid < length (sv_objects sv) \<Longrightarrow> sv_objects sv' = (sv_objects sv)[cid := c] \<Longrightarrow>
   open_on sv' i fd \<longleftrightarrow> (if i = cid then is_open c \<and> cn_fd c = fd else open_on sv i fd)"
  by (auto simp: open_on_def nth_list_update)

lemma with_conn_inv:
  assumes "with_conn cid f (el, sv) = Some (el', sv')" and "\<And>w w'. f w = Some w' \<Longrightarrow> conn_changed w w'"
    and "reactor_inv (el, sv)" and "cid < length (sv_objects sv)"
  shows "reactor_inv (el', sv')"
  using assms(1,2)
proof (rule with_conn_changed)
  fix c es
  assume ch: "conn_changed \<lparr>cw_loop = el, cw_conn = sv_objects sv ! cid, cw_writes = sv_writes sv, cw_effects = []\<rparr>
       \<lparr>cw_loop = el', cw_conn = c, cw_writes = sv_writes sv', cw_effects = es\<rparr>"
    and ob: "sv_objects sv' = (sv_objects sv)[cid := c]" and mx: "sv_max_connections sv' = sv_max_connections sv"
    and lf: "sv_listen_fd sv' = sv_listen_fd sv"
    and tb: "sv_table sv' = filter (\<lambda>e. fst e \<notin> set (close_calls es)) (sv_table sv)"
    and ct: "sv_count sv' = sv_count sv - int (length (close_calls es))"
  let ?c = "sv_objects sv ! cid"
  have wk: "wakeup_fd el' = wakeup_fd el" using ch by (simp add: conn_changed_def same_queue_def)
  note upd = open_on_update[OF assms(4) ob] and inv = reactor_invD[OF assms(3)]
  have tl: "tally opened (sv_objects sv') + opened ?c = tally opened (sv_objects sv) + opened c"
    unfolding ob using assms(4) by (rule tally_update)
  have cs: "cn_close_cb d" if "is_open c \<longrightarrow> cn_close_cb c" "d \<in> set (sv_objects sv')" "is_open d" for d
    using inv(8) that unfolding ob by (auto dest!: in_set_update)
  have cb: "is_open ?c \<Longrightarrow> cn_close_cb ?c" using inv(8) assms(4) nth_mem by blast
  consider
      (kept) "is_open c \<longleftrightarrow> is_open ?c" "cn_fd c = cn_fd ?c" "is_open c \<longrightarrow> cn_close_cb c" "callbacks el' = callbacks el" "close_calls es = []"
    | (shut) "is_open ?c" "\<not> is_open c" "callbacks el' = (callbacks el)(cn_fd ?c := None)" "close_calls es = [cn_fd ?c]"
    using ch cb by (auto simp: conn_changed_def kept_open_def was_closed_def left_closed_def split: if_splits)
  then show ?thesis
  proof cases
    case kept
    then have on: "open_on sv' i fd \<longleftrightarrow> open_on sv i fd" for i fd using assms(4) upd by (auto simp: open_on_def)
    have t: "sv_table sv' = sv_table sv" "sv_count sv' = sv_count sv" using kept tb ct by simp_all
    show ?thesis
      by (rule reactor_invI) (use inv kept tl cs in \<open>simp_all add: on t mx lf wk\<close>)
  next
    case shut
    have o: "open_on sv cid (cn_fd ?c)" using shut(1) assms(4) by (simp add: open_on_def)
    have on: "open_on sv' i fd \<longleftrightarrow> open_on sv i fd \<and> fd \<noteq> cn_fd ?c" for i fd
      using upd shut(1,2) open_on_inj[OF assms(3) o] by (auto simp: open_on_def)
    have "callbacks el (cn_fd ?c) = Some (Cb_User (Sc_Conn cid))" using inv(5) o by simp
    then have ne: "wakeup_fd el \<noteq> cn_fd ?c" "sv_listen_fd sv \<noteq> cn_fd ?c" using inv(6,7) by auto
    have t: "sv_table sv' = filter (\<lambda>e. fst e \<noteq> cn_fd ?c) (sv_table sv)" "sv_count sv' = sv_count sv - 1" using shut tb ct by simp_all
    have "0 < sv_max_connections sv' \<Longrightarrow> sv_count sv' \<le> sv_max_connections sv'" using inv(2) by (simp add: t mx)
    moreover have "sv_count sv' = int (tally opened (sv_objects sv'))" using inv(1) tl shut(1,2) by (simp add: t)
    moreover have "open_on sv' i fd" if "(fd, i) \<in> set (sv_table sv')" for fd i using that inv(4) by (simp add: t on)
    ultimately show ?thesis
      by (intro reactor_invI) (use inv(3,5,6,7) shut(2,3) cs ne in \<open>simp_all add: on t lf wk distinct_map_filter\<close>)
  qed
qed

lemma inv_loop_cong:
  "reactor_inv (el, sv) \<Longrightarrow> callbacks el' = callbacks el \<Longrightarrow> wakeup_fd el' = wakeup_fd el \<Longrightarrow> reactor_inv (el', sv)"
  by (auto simp: reactor_inv_def)

lemma defer_same [simp]:
  "callbacks (loop_defer t el) = callbacks el" "wakeup_fd (loop_defer t el) = wakeup_fd el"
  by (simp_all add: loop_defer_def push_task_def wakeup_write_def)

lemma force_close_same [simp]:
  "callbacks (force_close cid c el) = callbacks el" "wakeup_fd (force_close cid c el) = wakeup_fd el"
  by (simp_all add: force_close_def)

lemma with_conn_objects:
  assumes "with_conn cid f (el, sv) = Some (el', sv')"
  shows "length (sv_objects sv') = length (sv_objects sv)"
  using assms by (auto simp: with_conn_def fold_apply split: option.splits)

lemma conn_event_inv:
  assumes "on_conn_event env cid fd events (el, sv) = Some (el', sv')" and "reactor_inv (el, sv)" and "cid < length (sv_objects sv)"
  shows "reactor_inv (el', sv')"
proof -
  obtain el1 sv1 where 1: "(if has_flag events EPOLLIN then with_conn cid (on_read (se_now env) (se_reads env fd)) (el, sv) else Some (el, sv))
      = Some (el1, sv1)"
    using assms(1) by (auto simp: on_conn_event_def split: option.splits)
  obtain el2 sv2 where 2: "(if has_flag events EPOLLOUT then with_conn cid (on_write (se_ctl_ok env) (se_now env)) (el1, sv1) else Some (el1, sv1))
      = Some (el2, sv2)" "callbacks el' = callbacks el2" "wakeup_fd el' = wakeup_fd el2" "sv' = sv2"
    using assms(1) 1 by (auto simp: on_conn_event_def split: option.splits)
  have i1: "reactor_inv (el1, sv1) \<and> cid < length (sv_objects sv1)"
  proof (cases "has_flag events EPOLLIN")
    case True
    then have w: "with_conn cid (on_read (se_now env) (se_reads env fd)) (el, sv) = Some (el1, sv1)" using 1 by simp
    have "reactor_inv (el1, sv1)" using assms(2,3) by (intro with_conn_inv[OF w]) (auto intro: changed_read)
    then show ?thesis using with_conn_objects[OF w] assms(3) by simp
  qed (use 1 assms(2,3) in simp)
  have "reactor_inv (el2, sv2)"
  proof (cases "has_flag events EPOLLOUT")
    case True
    then have w: "with_conn cid (on_write (se_ctl_ok env) (se_now env)) (el1, sv1) = Some (el2, sv2)" using 2(1) by simp
    show ?thesis using i1 by (intro with_conn_inv[OF w]) (auto intro: changed_write)
  qed (use 2(1) i1 in simp)
  then show ?thesis using 2 by (auto intro: inv_loop_cong)
qed

fun task_conn :: "conn_task \<Rightarrow> nat" where
  "task_conn (Task_Send cid data keep) = cid"
| "task_conn (Task_Close cid) = cid"

lemma conn_task_inv:
  assumes "run_conn_task env t (el, sv) = Some (el', sv')" and "reactor_inv (el, sv)"
    and "task_conn t < length (sv_objects sv)"
  shows "reactor_inv (el', sv')"
proof (cases t)
  case (Task_Send cid data keep)
  then have w: "with_conn cid (send_internal (se_ctl_ok env) (se_now env) data keep) (el, sv) = Some (el', sv')" using assms(1) by simp
  show ?thesis using assms(2,3) Task_Send by (intro with_conn_inv[OF w]) (auto intro: changed_send)
next
  case (Task_Close cid)
  then have w: "with_conn cid (\<lambda>cw. Some (close_internal cw)) (el, sv) = Some (el', sv')" using assms(1) by simp
  show ?thesis using assms(2,3) Task_Close by (intro with_conn_inv[OF w]) (auto intro: changed_close)
qed

text \<open>What the kernel promises of a descriptor that \<^verbatim>\<open>accept\<close> returns: it is not in use.\<close>

definition unused_fd :: "reactor \<Rightarrow> int \<Rightarrow> bool" where
  "unused_fd w fd \<longleftrightarrow> (\<forall>cid. \<not> open_on (snd w) cid fd) \<and> fd \<noteq> wakeup_fd (fst w) \<and> fd \<noteq> sv_listen_fd (snd w)"

lemma new_connection_inv:
  assumes "reactor_inv (el, sv)" and "unused_fd (el, sv) cfd"
  shows "reactor_inv (on_new_connection env cfd (el, sv))"
proof (cases "0 < sv_max_connections sv \<and> sv_max_connections sv \<le> sv_count sv")
  case True
  then show ?thesis using assms(1) by (simp add: on_new_connection_def reactor_inv_def open_on_def)
next
  case False
  let ?n = "length (sv_objects sv)"
  define c where "c = set_close_callback (set_message_callback (new_connection (se_now env) cfd (max_request_size (sv_config sv))))"
  have c: "is_open c" "cn_fd c = cfd" "cn_close_cb c"
    by (simp_all add: c_def is_open_def set_close_callback_def set_message_callback_def new_connection_def)
  define sv' where "sv' = sv\<lparr>sv_objects := sv_objects sv @ [c], sv_table := (cfd, ?n) # filter (\<lambda>e. fst e \<noteq> cfd) (sv_table sv),
      sv_count := sv_count sv + 1\<rparr>"
  define el' where "el' = set_callback cfd (Cb_User (Sc_Conn ?n)) (add_fd (se_ctl_ok env cfd) cfd (EPOLLIN + EPOLLET) el)"
  have eq: "on_new_connection env cfd (el, sv) = (el', sv')"
    using False by (auto simp: on_new_connection_def el'_def sv'_def c_def Let_def)
  have cb: "callbacks el' = (callbacks el)(cfd \<mapsto> Cb_User (Sc_Conn ?n))" and wk: "wakeup_fd el' = wakeup_fd el"
    by (simp_all add: el'_def set_callback_def add_fd_def Let_def)
  have on: "open_on sv' i fd \<longleftrightarrow> open_on sv i fd \<or> i = ?n \<and> fd = cfd" for i fd
    using c by (auto simp: open_on_def sv'_def nth_append)
  have o: "\<not> open_on sv i cfd" for i using assms(2) by (simp add: unused_fd_def)
  note inv = reactor_invD[OF assms(1)]
  have "callbacks el' fd = Some (Cb_User (Sc_Conn i)) \<longleftrightarrow> open_on sv' i fd" for i fd
    using inv(5)[of fd i] o[of i] by (auto simp: cb on)
  moreover have "open_on sv' i fd" if "(fd, i) \<in> set (sv_table sv')" for fd i
    using that inv(4)[of fd i] by (auto simp: sv'_def on[unfolded sv'_def])
  moreover have "distinct (map fst (sv_table sv'))" using inv(3) by (auto simp: sv'_def distinct_map_filter)
  moreover have "sv_count sv' = int (tally opened (sv_objects sv'))" using inv(1) c(1) by (simp add: sv'_def)
  moreover have "sv_count sv' \<le> sv_max_connections sv'" if "0 < sv_max_connections sv'" using False that by (simp add: sv'_def)
  moreover have "cn_close_cb d" if "d \<in> set (sv_objects sv')" "is_open d" for d using that inv(8) c(3) by (auto simp: sv'_def)
  moreover have "callbacks el' (wakeup_fd el') = Some Cb_Wakeup" "callbacks el' (sv_listen_fd sv') = Some (Cb_User Sc_Listen)"
    using assms(2) inv(6,7) by (simp_all add: cb wk unused_fd_def sv'_def)
  ultimately show ?thesis unfolding eq by (intro reactor_invI) simp_all
qed

lemma cleanup_entries_ok:
  "cleanup_entries now timeout objs es el = (es', el') \<Longrightarrow>
   (\<exists>P. es' = filter P es) \<and> callbacks el' = callbacks el \<and> wakeup_fd el' = wakeup_fd el"
proof (induction es arbitrary: el es' el')
  case (Cons e es)
  obtain fd cid where e: "e = (fd, cid)" by fastforce
  have "es' = filter (\<lambda>(fd, cid). now - cn_last_active (objs ! cid) \<le> timeout) es \<and> callbacks el' = callbacks el \<and> wakeup_fd el' = wakeup_fd el"
    if "cleanup_entries now timeout objs es el = (es', el')" for es el es' el'
    using that by (induction es arbitrary: el es' el') (auto split: if_splits prod.splits)
  from this[OF Cons.prems] show ?case by blast
qed auto

lemma cleanup_inv: "reactor_inv (el, sv) \<Longrightarrow> reactor_inv (cleanup_idle_connections now (el, sv))"
proof -
  assume inv: "reactor_inv (el, sv)"
  obtain es el' where c: "cleanup_entries now (keep_alive_timeout_sec (sv_config sv)) (sv_objects sv) (sv_table sv) el = (es, el')" by fastforce
  then obtain P where P: "es = filter P (sv_table sv)" "callbacks el' = callbacks el" "wakeup_fd el' = wakeup_fd el"
    using cleanup_entries_ok by blast
  have "open_on (sv\<lparr>sv_table := es\<rparr>) = open_on sv" by (intro ext) (simp add: open_on_def)
  then show ?thesis using inv by (auto simp: cleanup_idle_connections_def c reactor_inv_def P distinct_map_filter)
qed

section \<open>Reachable reactor states\<close>

definition new_server :: "gateway_config \<Rightarrow> server" where
  "new_server cfg =
     \<lparr>sv_config = cfg, sv_max_connections = max_connections cfg, sv_objects = [], sv_table = [], sv_count = 0,
      sv_submitted = [], sv_writes = [], sv_sent = [], sv_closed = [], sv_listen_fd = -1\<rparr>"

text \<open>The part of \<^verbatim>\<open>Gateway::run\<close> that sets up the loop and the listening socket; the numbers are what
  \<^verbatim>\<open>epoll_create1\<close>, \<^verbatim>\<open>eventfd\<close> and \<^verbatim>\<open>create_listen_socket\<close> return.\<close>

definition gateway_start :: "server_env \<Rightarrow> int \<Rightarrow> int \<Rightarrow> int \<Rightarrow> gateway_config \<Rightarrow> loop_error + reactor" where
  "gateway_start env epfd efd lfd cfg =
     (case new_event_loop epfd efd (se_ctl_ok env efd) of
        Inl e \<Rightarrow> Inl e
      | Inr el \<Rightarrow>
          let el1 = set_max_deferred_per_round (gateway_config.max_deferred_per_round cfg) (set_timer el);
              (el2, sv) = tcp_server_start lfd env (el1, new_server cfg)
          in Inr (set_idle_callback el2, sv))"

text \<open>What can happen on the loop thread, and a worker sending a response. A task or a callback belongs to
  a connection that exists, and the kernel returns an unused descriptor from \<^verbatim>\<open>accept\<close>.\<close>

inductive reactor_step :: "reactor \<Rightarrow> reactor \<Rightarrow> bool" where
  task: "run_conn_task env t w = Some w' \<Longrightarrow> task_conn t < length (sv_objects (snd w)) \<Longrightarrow> reactor_step w w'"
| event: "callbacks (fst w) fd = Some (Cb_User (Sc_Conn cid)) \<Longrightarrow> on_conn_event env cid fd events w = Some w' \<Longrightarrow> reactor_step w w'"
| accept: "unused_fd w cfd \<Longrightarrow> reactor_step w (on_new_connection env cfd w)"
| cleanup: "reactor_step w (cleanup_idle_connections now w)"
| send: "reactor_step (el, sv) (conn_send cid data keep el, sv)"

lemma reactor_step_inv: "reactor_step w w' \<Longrightarrow> reactor_inv w \<Longrightarrow> reactor_inv w'"
proof (induction rule: reactor_step.induct)
  case (task env t w w')
  then show ?case using conn_task_inv[of env t "fst w" "snd w" "fst w'" "snd w'"] by auto
next
  case (event w fd cid env events w')
  obtain el sv el' sv' where w: "w = (el, sv)" "w' = (el', sv')" by fastforce
  have "cid < length (sv_objects sv)" using event reactor_invD(5)[of el sv fd cid] by (simp add: w open_on_def)
  then show ?case using conn_event_inv[of env cid fd events el sv el' sv'] event by (simp add: w)
next
  case (accept w cfd env) then show ?case using new_connection_inv by (cases w) simp
next
  case (cleanup w now) then show ?case using cleanup_inv by (cases w) simp
next
  case (send el sv cid data keep) then show ?case by (auto simp: conn_send_def intro: inv_loop_cong)
qed

lemma gateway_start_inv:
  assumes "gateway_start env epfd efd lfd cfg = Inr w" and "0 \<le> lfd" and "lfd \<noteq> efd"
  shows "reactor_inv w"
proof -
  define el where "el = set_callback efd Cb_Wakeup (add_fd (se_ctl_ok env efd) efd (EPOLLIN + EPOLLET)
             \<lparr>deferred_tasks = [], pending_tasks = [], max_deferred_per_round = 256, wakeup_count = 0,
              callbacks = Map.empty, registrations = Map.empty, loop_running = False, wakeup_fd = efd,
              idle_cb_set = False, timer_set = False\<rparr> :: (server_cb, conn_task) event_loop)"
  obtain el' where w: "w = (el', (new_server cfg)\<lparr>sv_listen_fd := lfd\<rparr>)"
      "callbacks el' = (callbacks el)(lfd \<mapsto> Cb_User Sc_Listen)" "wakeup_fd el' = efd"
    using assms(1,2)
    by (auto simp: gateway_start_def new_event_loop_def tcp_server_start_def set_idle_callback_def set_timer_def
        set_max_deferred_per_round_def set_callback_def add_fd_def el_def Let_def split: if_splits)
  show ?thesis unfolding w(1)
    by (rule reactor_invI)
      (use assms(3) in \<open>auto simp: w(2,3) new_server_def open_on_def el_def set_callback_def add_fd_def Let_def split: if_splits\<close>)
qed

lemma reactor_reachable_inv:
  assumes "reactor_step\<^sup>*\<^sup>* w0 w" and "gateway_start env epfd efd lfd cfg = Inr w0" and "0 \<le> lfd" and "lfd \<noteq> efd"
  shows "reactor_inv w"
  using assms(1)
proof (induction rule: rtranclp_induct)
  case base then show ?case using gateway_start_inv[OF assms(2-4)] .
next
  case (step w1 w2) then show ?case using reactor_step_inv by blast
qed

lemma tally_opened: "tally opened cs = length (filter is_open cs)"
  by (induction cs) auto

section \<open>Properties\<close>

text \<open>C8: the connection count is exact and bounded. In every state the reactor can reach, however
  accepts, events, responses, forced closes and idle cleanups are interleaved, \<^verbatim>\<open>connection_count_\<close> is
  the number of connections that are open, at most \<^verbatim>\<open>max_connections\<close> when that is positive; an entry of
  the table and a registered callback belong to a connection that is open on that descriptor, and
  every open connection has its callback.\<close>
theorem connection_table_exact:
  assumes "gateway_start env epfd efd lfd cfg = Inr w0" and "0 \<le> lfd" and "lfd \<noteq> efd" and "reactor_step\<^sup>*\<^sup>* w0 (el, sv)"
  shows "sv_count sv = int (length (filter is_open (sv_objects sv)))
    \<and> (0 < sv_max_connections sv \<longrightarrow> sv_count sv \<le> sv_max_connections sv)
    \<and> (\<forall>fd cid. (fd, cid) \<in> set (sv_table sv) \<longrightarrow> open_on sv cid fd)
    \<and> (\<forall>fd cid. callbacks el fd = Some (Cb_User (Sc_Conn cid)) \<longleftrightarrow> open_on sv cid fd)"
proof -
  note inv = reactor_invD[OF reactor_reachable_inv[OF assms(4,1-3)]]
  show ?thesis using inv(1,2,4,5) by (simp add: tally_opened)
qed

definition wkernel :: server_env where
  "wkernel = \<lparr>se_now = 100, se_ctl_ok = (\<lambda>_. True), se_nonblock_ok = (\<lambda>_. True), se_reads = (\<lambda>_. []),
     se_accept = (\<lambda>n. if n = 0 then Ac_Conn 7 else Ac_Again)\<rparr>"

definition wstart :: reactor where
  "wstart = (case gateway_start wkernel 3 4 5 load_default_config of Inr w \<Rightarrow> w)"

lemma wstart: "gateway_start wkernel 3 4 5 load_default_config = Inr wstart"
  by (simp add: wstart_def gateway_start_def new_event_loop_def tcp_server_start_def split: prod.splits)

definition waccepted :: reactor where
  "waccepted = on_new_connection wkernel 7 wstart"

lemma wstart_simps: "sv_objects (snd wstart) = []" "sv_listen_fd (snd wstart) = 5" "wakeup_fd (fst wstart) = 4"
    "sv_max_connections (snd wstart) = 10000" "sv_count (snd wstart) = 0"
  by (simp_all add: wstart_def gateway_start_def new_event_loop_def tcp_server_start_def new_server_def load_default_config_def
      set_idle_callback_def set_callback_def add_fd_def set_max_deferred_per_round_def set_timer_def wkernel_def)

lemma waccepted_reachable: "reactor_step\<^sup>*\<^sup>* wstart waccepted"
  unfolding waccepted_def
  by (intro r_into_rtranclp reactor_step.accept) (simp add: unused_fd_def wstart_simps open_on_def)

theorem connection_table_exact_witness:
  "sv_count (snd waccepted) = int (length (filter is_open (sv_objects (snd waccepted)))) \<and> sv_count (snd waccepted) = 1"
proof -
  have "sv_count (snd waccepted) = 1"
    using wstart_simps by (simp add: waccepted_def on_new_connection_def Let_def case_prod_beta)
  moreover have "reactor_step\<^sup>*\<^sup>* wstart (fst waccepted, snd waccepted)" using waccepted_reachable by simp
  ultimately show ?thesis using connection_table_exact[OF wstart, of "fst waccepted" "snd waccepted"] by simp
qed

lemma accept_loop_one:
  assumes "se_accept env n = Ac_Conn cfd" and "se_nonblock_ok env cfd" and "se_accept env (Suc n) = Ac_Again"
  shows "accept_loop env n w = Some (on_new_connection env cfd w)"
  using assms by (subst accept_loop.simps) (simp add: accept_loop.simps[of env "Suc n"])

lemma run_deferred_single:
  assumes "pending_tasks el = []" and "deferred_tasks el = [t]"
  shows "run_deferred_tasks exec (el, s) = exec t (el\<lparr>deferred_tasks := [], pending_tasks := []\<rparr>, s)"
proof -
  have "\<not> over_limit lim 1" for lim by (simp add: over_limit_def narrow_int_def)
  then show ?thesis using assms by (simp add: run_deferred_tasks_def take_tasks_def split: option.splits)
qed

text \<open>C37: an event can be delivered to the wrong connection. If one answer of \<^verbatim>\<open>epoll_wait\<close> holds the wake-up
  that closes a connection, the listening socket and a hang-up of the closed connection, in this
  order, and \<^verbatim>\<open>accept\<close> reuses the descriptor, then the hang-up is dispatched to the new connection: it is
  open, nothing has happened to it, and its close is queued.\<close>
theorem stale_event_closes_new_connection:
  assumes "reactor_inv (el, sv)" and "open_on sv old fd" and "pending_tasks el = []" and "deferred_tasks el = [Task_Close old]"
    and "se_accept env 0 = Ac_Conn fd" and "se_accept env (Suc 0) = Ac_Again" and "se_nonblock_ok env fd"
  shows "\<exists>el' sv'. dispatch (reactor_call env) (run_conn_task env)
        [(wakeup_fd el, EPOLLIN), (sv_listen_fd sv, EPOLLIN), (fd, EPOLLHUP)] (el, sv) = Some (el', sv')
    \<and> open_on sv' (length (sv_objects sv)) fd \<and> cn_state (sv_objects sv' ! length (sv_objects sv)) = Cs_Reading
    \<and> deferred_tasks el' = [Task_Close (length (sv_objects sv))]"
proof -
  note inv = reactor_invD[OF assms(1)]
  let ?n = "length (sv_objects sv)"
  define el0 where "el0 = (wakeup_drain el)\<lparr>deferred_tasks := [], pending_tasks := []\<rparr>"
  have wk: "on_wakeup (run_conn_task env) (el, sv) = run_conn_task env (Task_Close old) (el0, sv)"
    using assms(3,4) by (simp add: on_wakeup_def run_deferred_single wakeup_drain_def el0_def del: run_conn_task.simps)
  obtain el1 sv1 where 1: "run_conn_task env (Task_Close old) (el0, sv) = Some (el1, sv1)"
    by (auto simp: with_conn_def)
  have inv0: "reactor_inv (el0, sv)"
    by (rule inv_loop_cong[OF assms(1)]) (simp_all add: el0_def wakeup_drain_def)
  have o: "old < ?n" "is_open (sv_objects sv ! old)" "cn_fd (sv_objects sv ! old) = fd" using assms(2) by (auto simp: open_on_def)
  note inv1 = conn_task_inv[OF 1 inv0]
  have el1: "el1 = remove_callback fd (del_fd fd el0)"
    and sv1: "sv_objects sv1 = (sv_objects sv)[old := (sv_objects sv ! old)\<lparr>cn_fd := -1, cn_state := Cs_Closed, cn_close_cb := False\<rparr>]"
        "sv_count sv1 = sv_count sv - 1" "sv_max_connections sv1 = sv_max_connections sv" "sv_listen_fd sv1 = sv_listen_fd sv"
    using 1 o inv(8)[OF nth_mem[OF o(1)] o(2)]
    by (auto simp: with_conn_def close_internal_def is_open_def Let_def emit_def on_close_callback_def)
  have ne: "sv_listen_fd sv \<noteq> fd" using inv(5)[of fd old] inv(7) assms(2) by auto
  have lst: "callbacks el1 (sv_listen_fd sv) = Some (Cb_User Sc_Listen)"
    using inv(7) ne by (simp add: el1 remove_callback_def del_fd_def el0_def wakeup_drain_def)
  define el2 sv2 where "el2 = fst (on_new_connection env fd (el1, sv1))" and "sv2 = snd (on_new_connection env fd (el1, sv1))"
  have acc: "reactor_call env Sc_Listen fd' ev (el1, sv1) = Some (el2, sv2)" for fd' ev
    using accept_loop_one[OF assms(5,7,6)] by (simp add: on_accept_def el2_def sv2_def)
  have room: "\<not> (0 < sv_max_connections sv1 \<and> sv_max_connections sv1 \<le> sv_count sv1)" using inv(2) by (auto simp: sv1)
  have two: "callbacks el2 fd = Some (Cb_User (Sc_Conn ?n))" "deferred_tasks el2 = []" "length (sv_objects sv2) = Suc ?n"
      "cn_state (sv_objects sv2 ! ?n) = Cs_Reading" "cn_fd (sv_objects sv2 ! ?n) = fd"
    using room
    by (auto simp: el2_def sv2_def on_new_connection_def Let_def sv1 set_callback_def add_fd_def nth_append el1 el0_def
        remove_callback_def del_fd_def set_close_callback_def set_message_callback_def new_connection_def)
  have ev: "on_conn_event env ?n fd EPOLLHUP (el2, sv2) = Some (force_close ?n (sv_objects sv2 ! ?n) el2, sv2)"
    by (simp add: on_conn_event_def has_flag_def EPOLLHUP_def EPOLLIN_def EPOLLOUT_def)
  show ?thesis
    using two inv(6) lst
    by (intro exI[of _ "force_close ?n (sv_objects sv2 ! ?n) el2"] exI[of _ sv2])
      (simp add: wk 1 acc ev open_on_def is_open_def force_close_def loop_defer_def push_task_def del: run_conn_task.simps reactor_call.simps(1))
qed

definition wclosing :: reactor where
  "wclosing = (force_close 0 (sv_objects (snd waccepted) ! 0) (fst waccepted), snd waccepted)"

lemma waccepted_simps: "open_on (snd waccepted) 0 7" "length (sv_objects (snd waccepted)) = 1" "cn_state (sv_objects (snd waccepted) ! 0) = Cs_Reading"
    "sv_listen_fd (snd waccepted) = 5" "wakeup_fd (fst waccepted) = 4"
  using wstart_simps
  by (simp_all add: waccepted_def on_new_connection_def Let_def case_prod_beta open_on_def is_open_def set_close_callback_def
      set_message_callback_def new_connection_def set_callback_def add_fd_def)

lemma waccepted_loop: "reactor_inv (fst waccepted, snd waccepted)" "pending_tasks (fst waccepted) = []"
    "deferred_tasks (fst waccepted) = []" "defer_queue.max_deferred_per_round (fst waccepted) = 256"
  using reactor_reachable_inv[OF waccepted_reachable wstart]
  by (simp_all add: waccepted_def on_new_connection_def Let_def case_prod_beta set_callback_def add_fd_def wstart_def gateway_start_def
      new_event_loop_def tcp_server_start_def set_idle_callback_def set_timer_def set_max_deferred_per_round_def load_default_config_def)

lemma wclosing_loop: "wakeup_fd (fst wclosing) = 4" "pending_tasks (fst wclosing) = []"
    "deferred_tasks (fst wclosing) = [Task_Close 0]" "0 < wakeup_count (fst wclosing)"
    "defer_queue.max_deferred_per_round (fst wclosing) = 256" "reactor_inv (fst wclosing, snd wclosing)"
proof -
  note q = waccepted_loop(2-4)
  have f: "fst wclosing = loop_defer (Task_Close 0) (fst waccepted)" and s: "snd wclosing = snd waccepted"
    using waccepted_simps(3) by (simp_all add: wclosing_def force_close_def)
  show "wakeup_fd (fst wclosing) = 4" "pending_tasks (fst wclosing) = []" "deferred_tasks (fst wclosing) = [Task_Close 0]"
      "0 < wakeup_count (fst wclosing)" "defer_queue.max_deferred_per_round (fst wclosing) = 256"
    using q waccepted_simps(5) by (simp_all add: f) (simp_all add: loop_defer_def push_task_def)
  show "reactor_inv (fst wclosing, snd wclosing)" using waccepted_loop(1) unfolding f s by (rule inv_loop_cong) simp_all
qed

lemma wclosing_server: "open_on (snd wclosing) 0 7" "length (sv_objects (snd wclosing)) = 1" "sv_listen_fd (snd wclosing) = 5"
  using waccepted_simps by (simp_all add: wclosing_def)

lemma wkernel_accepts: "se_accept wkernel 0 = Ac_Conn 7" "se_accept wkernel (Suc 0) = Ac_Again" "se_nonblock_ok wkernel 7"
  by (simp_all add: wkernel_def)

theorem stale_event_closes_new_connection_witness:
  "\<exists>el' sv'. dispatch (reactor_call wkernel) (run_conn_task wkernel) [(4, EPOLLIN), (5, EPOLLIN), (7, EPOLLHUP)] wclosing = Some (el', sv')
    \<and> open_on sv' 1 7 \<and> deferred_tasks el' = [Task_Close 1]"
  using stale_event_closes_new_connection[OF wclosing_loop(6) wclosing_server(1) wclosing_loop(2,3) wkernel_accepts]
  unfolding wclosing_loop(1) wclosing_server(2,3) prod.collapse by blast



section \<open>Blocking the reactor\<close>

lemma read_loop_fits:
  "buffer_inv b \<Longrightarrow> length (buf b) + length d < size_mod \<Longrightarrow> length (readable b) + length d \<le> size_of_int mx \<Longrightarrow>
   fst (read_loop mx [Rd_Data d] b) \<noteq> Io_Fail"
proof (induction "length d" arbitrary: d b rule: less_induct)
  case less
  show ?case
  proof (cases "d = []")
    case False
    define d0 where "d0 = take (read_capacity b) d"
    define d1 where "d1 = drop (read_capacity b) d"
    define b1 where "b1 = snd (read_from_fd (Some d0) b)"
    have d: "length d = length d0 + length d1" "d0 \<noteq> []" "length d1 < length d"
      using False by (simp_all add: d0_def d1_def neq_Nil_conv)
    have room: "buffer_room b d0" using less.prems(2) d(1) by (simp add: buffer_room_def)
    have b1: "buffer_inv b1" "readable b1 = readable b @ d0" "length (buf b1) \<le> length (buf b) + length d0"
      using read_from_fd_ok[OF less.prems(1) room d(2)] length_buf_read[OF less.prems(1) room] by (simp_all add: b1_def)
    have eq: "read_loop mx [Rd_Data d] b = (if size_of_int mx < readable_size b1 then (Io_Fail, b1)
        else if d1 = [] then read_loop mx [] b1 else read_loop mx [Rd_Data d1] b1)"
      unfolding b1_def d1_def d0_def using False by (simp add: Let_def)
    have "\<not> size_of_int mx < readable_size b1" using length_readable[OF b1(1)] less.prems(3) d(1) b1 by simp
    moreover have "fst (read_loop mx [Rd_Data d1] b1) \<noteq> Io_Fail"
      by (rule less.hyps) (use less.prems d b1 in auto)
    ultimately show ?thesis unfolding eq by (simp del: read_loop.simps(5))
  qed simp
qed

text \<open>A connection on which nothing has happened yet.\<close>

definition fresh_conn :: "connection \<Rightarrow> int \<Rightarrow> bool" where
  "fresh_conn c mx \<longleftrightarrow> cn_state c = Cs_Reading \<and> cn_parser c = new_parser mx \<and> cn_max_request_size c = mx \<and> cn_read_buf c = new_buffer"

lemma read_hangs:
  assumes "fresh_conn (cw_conn w) mx" and "parse d (new_parser mx) = None" and "d \<noteq> []" and "length d \<le> size_of_int mx"
    and "kInitialSize + kPrependableSize + length d < size_mod"
  shows "on_read now [Rd_Data d] w = None"
proof -
  have len: "length (buf new_buffer) = kInitialSize + kPrependableSize" by (simp add: new_buffer_def)
  obtain stop b where rl: "read_loop mx [Rd_Data d] new_buffer = (stop, b)" by fastforce
  have stop: "stop \<noteq> Io_Fail" using read_loop_fits[OF new_buffer_ok(1), of d mx] assms(4,5) rl by (simp add: len new_buffer_ok(2))
  have b: "buffer_inv b" "readable b = d"
    using read_loop_ok[OF new_buffer_ok(1) _ rl] assms(5) stop by (simp_all add: len new_buffer_ok(2))
  have "readable_size b \<noteq> 0" using b(2) assms(3) by (auto simp: readable_def)
  then have "try_parse_message (w\<lparr>cw_conn := (cw_conn w)\<lparr>cn_last_active := now, cn_read_buf := b\<rparr>\<rparr>) = None"
    using assms(1,2) b(2) by (subst try_parse_message.simps) (simp add: fresh_conn_def)
  then show ?thesis using assms(1) rl stop by (simp add: on_read_def Let_def fresh_conn_def del: read_loop.simps)
qed

text \<open>C36: one client can stop the whole gateway. If the first bytes a client sends are the header of a
  chunked request and a part of the first chunk-size line, the callback of its connection never
  returns: the loop serves no event of any connection any more, whatever the kernel reports later.\<close>
theorem one_client_stops_gateway:
  assumes "callbacks el fd = Some (Cb_User (Sc_Conn cid))" and "loop_running el" and "fresh_conn (sv_objects sv ! cid) mx"
    and "wf_start_line m u v" and "\<forall>h \<in> set hs. wf_header h" and "chunked_coding hs" and "s \<noteq> []" and "CR \<notin> set s"
    and "se_reads env fd = [Rd_Data (render_request m u v hs s)]" and "length (render_request m u v hs s) \<le> size_of_int mx"
    and "kInitialSize + kPrependableSize + length (render_request m u v hs s) < size_mod"
  shows "run_loop (reactor_call env) (run_conn_task env) idle (Ep_Ready [(fd, EPOLLIN)] # later) (el, sv) = Loop_Stuck"
proof -
  let ?d = "render_request m u v hs s"
  have "?d \<noteq> []" using assms(7) by (simp add: render_request_def)
  then have "on_read (se_now env) [Rd_Data ?d] \<lparr>cw_loop = el, cw_conn = sv_objects sv ! cid, cw_writes = sv_writes sv, cw_effects = []\<rparr> = None"
    using assms(3,10,11) split_size_line_hangs[OF assms(4-8)] by (intro read_hangs[where mx = mx]) simp_all
  then have "on_conn_event env cid fd EPOLLIN (el, sv) = None"
    by (simp add: on_conn_event_def has_flag_def EPOLLIN_def with_conn_def assms(9))
  then show ?thesis using assms(1,2) by (subst run_loop.simps) simp
qed

definition wchunked :: server_env where
  "wchunked = wkernel\<lparr>se_reads := (\<lambda>_. [Rd_Data (render_request ''POST'' ''/a'' ''HTTP/1.1'' [(''Transfer-Encoding'', ''chunked'')] ''5'')])\<rparr>"

theorem one_client_stops_gateway_witness:
  "event_loop_run (reactor_call wchunked) (run_conn_task wchunked) Some [Ep_Ready [(7, EPOLLIN)]] waccepted = Loop_Stuck"
proof -
  have c: "callbacks (fst waccepted) 7 = Some (Cb_User (Sc_Conn 0))" "fresh_conn (sv_objects (snd waccepted) ! 0) 65536"
    using wstart_simps
    by (simp_all add: waccepted_def on_new_connection_def Let_def case_prod_beta set_callback_def add_fd_def fresh_conn_def
        set_close_callback_def set_message_callback_def new_connection_def) (simp_all add: wstart_def gateway_start_def
        new_event_loop_def tcp_server_start_def new_server_def load_default_config_def gateway_config_init_def)
  let ?hs = "[(''Transfer-Encoding'', ''chunked'')]"
  have wf: "wf_start_line ''POST'' ''/a'' ''HTTP/1.1''" "\<forall>h \<in> set ?hs. wf_header h" "chunked_coding ?hs" "CR \<notin> set ''5''"
    by code_simp+
  have len: "length (render_request ''POST'' ''/a'' ''HTTP/1.1'' ?hs ''5'') = 49" by (simp add: render_request_def crlf_def)
  have fits: "49 \<le> size_of_int 65536" "kInitialSize + kPrependableSize + 49 < size_mod"
    by (simp_all add: size_of_int_def kInitialSize_def kPrependableSize_def size_mod_def)
  have rd: "se_reads wchunked 7 = [Rd_Data (render_request ''POST'' ''/a'' ''HTTP/1.1'' ?hs ''5'')]" by (simp add: wchunked_def)
  have cb: "callbacks ((fst waccepted)\<lparr>loop_running := True\<rparr>) 7 = Some (Cb_User (Sc_Conn 0))" using c(1) by simp
  show ?thesis unfolding event_loop_run_def
    by (rule one_client_stops_gateway[OF cb _ c(2) wf(1-3) _ wf(4) rd]) (simp_all add: len fits)
qed

text \<open>the accept loop does not stop when the process is out of descriptors. As long as \<^verbatim>\<open>accept\<close> fails
  with \<^verbatim>\<open>EMFILE\<close> the loop tries again without returning, so the reactor cannot close the connections that
  would free a descriptor.\<close>
theorem accept_spins_without_descriptors:
  assumes "\<And>n. se_accept env n = Ac_Fd_Limit"
  shows "on_accept env w = None"
proof -
  have "(\<forall>k. se_accept e k = Ac_Fd_Limit) \<longrightarrow> False" if "accept_loop e n w = Some w'" for e n w'
  proof (induction rule: accept_loop.raw_induct)
    case (1 loop e n w w')
    show ?case
    proof
      assume limit: "\<forall>k. se_accept e k = Ac_Fd_Limit"
      then have "loop e (Suc n) w = Some w'" using 1(2) by simp
      from 1(1)[OF this] limit show False by blast
    qed
  qed (rule that)
  then have "accept_loop env n w \<noteq> Some w'" for n w' using assms by blast
  then show ?thesis by (cases "accept_loop env 0 w") (auto simp: on_accept_def)
qed

theorem accept_spins_without_descriptors_witness: "on_accept (wkernel\<lparr>se_accept := (\<lambda>_. Ac_Fd_Limit)\<rparr>) waccepted = None"
  by (rule accept_spins_without_descriptors) simp

end
