(* ===== verification/Gw_Logger.thy ===== *)
theory Gw_Logger
  imports Gw_Prelude
begin

text \<open>
  The logger front end and its asynchronous back end, \<^verbatim>\<open>src/src/logger/logger.cpp\<close> and
  \<^verbatim>\<open>src/src/logger/async_logger.cpp\<close>. The files are a map from names to contents; the stream handle remembers
  that it has been closed, because closing a closed stream is undefined behaviour, which is the error
  \<open>Stream_Closed_Twice\<close>. The clock and the success of \<^verbatim>\<open>fopen\<close> are parameters: the time stamps of the
  successive rolls and the answers of the successive opens.
\<close>

section \<open>Asynchronous back end\<close>

datatype log_stream = Ls_Null | Ls_Stderr | Ls_File | Ls_Closed

datatype log_error = Stream_Closed_Twice | Write_To_Closed

record log_env =
  le_stamp :: "nat \<Rightarrow> string"
  le_open_ok :: "nat \<Rightarrow> bool"

record async_logger =
  al_filepath :: string
  al_roll_size :: nat
  al_cur_buf :: "string list"
  al_next_buf :: "string list"
  al_running :: bool
  al_fp :: log_stream
  al_written_bytes :: nat
  al_files :: "string \<Rightarrow> bytes option"
  al_stderr :: bytes
  al_opens :: nat
  al_rolls :: nat

definition new_async_logger :: "string \<Rightarrow> nat \<Rightarrow> (string \<Rightarrow> bytes option) \<Rightarrow> async_logger" where
  "new_async_logger filepath roll_size files =
     \<lparr>al_filepath = filepath, al_roll_size = roll_size, al_cur_buf = [], al_next_buf = [], al_running = False,
      al_fp = Ls_Null, al_written_bytes = 0, al_files = files, al_stderr = [], al_opens = 0, al_rolls = 0\<rparr>"

definition log_append :: "string \<Rightarrow> async_logger \<Rightarrow> async_logger" where
  "log_append line l = l\<lparr>al_cur_buf := al_cur_buf l @ [line]\<rparr>"

text \<open>\<^verbatim>\<open>fopen\<close> with mode \<open>a\<close> creates the file or keeps its contents.\<close>

definition open_file :: "log_env \<Rightarrow> async_logger \<Rightarrow> log_error + async_logger" where
  "open_file env l =
     (if al_fp l = Ls_Closed then Inl Stream_Closed_Twice
      else
        let l1 = l\<lparr>al_opens := al_opens l + 1\<rparr>
        in if \<not> le_open_ok env (al_opens l) then Inr (l1\<lparr>al_fp := Ls_Stderr, al_stderr := al_stderr l @ ''AsyncLogger: failed to open '' @ al_filepath l @ [LF]\<rparr>)
           else Inr (l1\<lparr>al_fp := Ls_File, al_written_bytes := 0,
                   al_files := (al_files l)(al_filepath l \<mapsto> (case al_files l (al_filepath l) of None \<Rightarrow> [] | Some c \<Rightarrow> c))\<rparr>))"

definition rename_file :: "string \<Rightarrow> string \<Rightarrow> (string \<Rightarrow> bytes option) \<Rightarrow> string \<Rightarrow> bytes option" where
  "rename_file old new files = (case files old of None \<Rightarrow> files | Some c \<Rightarrow> (files(old := None))(new \<mapsto> c))"

definition roll_file :: "log_env \<Rightarrow> async_logger \<Rightarrow> log_error + async_logger" where
  "roll_file env l =
     (if al_fp l = Ls_Null \<or> al_fp l = Ls_Stderr then Inr l
      else if al_fp l = Ls_Closed then Inl Stream_Closed_Twice
      else
        let new_name = al_filepath l @ ''.'' @ le_stamp env (al_rolls l)
        in open_file env (l\<lparr>al_fp := Ls_Closed, al_rolls := al_rolls l + 1,
             al_files := rename_file (al_filepath l) new_name (al_files l)\<rparr>))"

definition log_write :: "bytes \<Rightarrow> async_logger \<Rightarrow> log_error + async_logger" where
  "log_write d l =
     (case al_fp l of
        Ls_File \<Rightarrow> Inr (l\<lparr>al_files := (al_files l)(al_filepath l \<mapsto>
                     (case al_files l (al_filepath l) of None \<Rightarrow> [] | Some c \<Rightarrow> c) @ d)\<rparr>)
      | Ls_Stderr \<Rightarrow> Inr (l\<lparr>al_stderr := al_stderr l @ d\<rparr>)
      | _ \<Rightarrow> Inl Write_To_Closed)"

fun flush_buf :: "log_env \<Rightarrow> string list \<Rightarrow> async_logger \<Rightarrow> log_error + async_logger" where
  "flush_buf env [] l = Inr l"
| "flush_buf env (line # lines) l =
     (case (if 0 < al_roll_size l \<and> al_roll_size l < al_written_bytes l + length line then roll_file env l else Inr l) of
        Inl e \<Rightarrow> Inl e
      | Inr l1 \<Rightarrow>
          (case log_write (line @ [LF]) l1 of
             Inl e \<Rightarrow> Inl e
           | Inr l2 \<Rightarrow> flush_buf env lines (l2\<lparr>al_written_bytes := al_written_bytes l2 + length line + 1\<rparr>)))"

definition flush_next :: "log_env \<Rightarrow> async_logger \<Rightarrow> log_error + async_logger" where
  "flush_next env l =
     (if al_next_buf l = [] then Inr l
      else case flush_buf env (al_next_buf l) l of Inl e \<Rightarrow> Inl e | Inr l1 \<Rightarrow> Inr (l1\<lparr>al_next_buf := []\<rparr>))"

text \<open>One round of \<^verbatim>\<open>backend_loop\<close> and what it does after the loop.\<close>

definition backend_round :: "log_env \<Rightarrow> async_logger \<Rightarrow> log_error + async_logger" where
  "backend_round env l = flush_next env (l\<lparr>al_cur_buf := al_next_buf l, al_next_buf := al_cur_buf l\<rparr>)"

definition backend_exit :: "log_env \<Rightarrow> async_logger \<Rightarrow> log_error + async_logger" where
  "backend_exit env l =
     flush_next env (if al_cur_buf l \<noteq> [] then l\<lparr>al_cur_buf := al_next_buf l, al_next_buf := al_cur_buf l\<rparr> else l)"

definition log_start :: "log_env \<Rightarrow> async_logger \<Rightarrow> log_error + async_logger" where
  "log_start env l = open_file env (l\<lparr>al_running := True\<rparr>)"

text \<open>\<^verbatim>\<open>stop\<close> lets the back end finish and closes the stream.\<close>

definition log_stop :: "log_env \<Rightarrow> async_logger \<Rightarrow> log_error + async_logger" where
  "log_stop env l =
     (if \<not> al_running l then Inr l
      else case backend_exit env (l\<lparr>al_running := False\<rparr>) of
        Inl e \<Rightarrow> Inl e
      | Inr l1 \<Rightarrow>
          (if al_fp l1 = Ls_Closed then Inl Stream_Closed_Twice
           else Inr (l1\<lparr>al_fp := Ls_Null\<rparr>)))"

section \<open>Front end\<close>

datatype log_level = Ll_Trace | Ll_Debug | Ll_Info | Ll_Warn | Ll_Error | Ll_Fatal

fun level_rank :: "log_level \<Rightarrow> nat" where
  "level_rank Ll_Trace = 0" | "level_rank Ll_Debug = 1" | "level_rank Ll_Info = 2"
| "level_rank Ll_Warn = 3" | "level_rank Ll_Error = 4" | "level_rank Ll_Fatal = 5"

instantiation log_level :: linorder
begin

definition less_eq_log_level :: "log_level \<Rightarrow> log_level \<Rightarrow> bool" where
  "less_eq_log_level a b \<longleftrightarrow> level_rank a \<le> level_rank b"

definition less_log_level :: "log_level \<Rightarrow> log_level \<Rightarrow> bool" where
  "less_log_level a b \<longleftrightarrow> level_rank a < level_rank b"

instance
proof
  fix a b :: log_level
  show "a \<le> b \<Longrightarrow> b \<le> a \<Longrightarrow> a = b" by (cases a; cases b) (simp_all add: less_eq_log_level_def)
qed (auto simp: less_eq_log_level_def less_log_level_def)

end

fun level_str :: "log_level \<Rightarrow> string" where
  "level_str Ll_Trace = ''TRACE''" | "level_str Ll_Debug = ''DEBUG''" | "level_str Ll_Info = ''INFO ''"
| "level_str Ll_Warn = ''WARN ''" | "level_str Ll_Error = ''ERROR''" | "level_str Ll_Fatal = ''FATAL''"

record logger =
  lg_level :: log_level
  lg_async :: "async_logger option"
  lg_stderr :: bytes
  lg_files :: "string \<Rightarrow> bytes option"

definition new_logger :: "(string \<Rightarrow> bytes option) \<Rightarrow> logger" where
  "new_logger files = \<lparr>lg_level = Ll_Info, lg_async = None, lg_stderr = [], lg_files = files\<rparr>"

definition set_level :: "log_level \<Rightarrow> logger \<Rightarrow> logger" where
  "set_level lv g = g\<lparr>lg_level := lv\<rparr>"

text \<open>Replacing the back end destroys the old one, whose destructor stops it; its files stay.\<close>

definition retire_async :: "log_env \<Rightarrow> logger \<Rightarrow> log_error + logger" where
  "retire_async env g =
     (case lg_async g of
        None \<Rightarrow> Inr g
      | Some old \<Rightarrow>
          (case log_stop env old of
             Inl e \<Rightarrow> Inl e
           | Inr old1 \<Rightarrow> Inr (g\<lparr>lg_async := None, lg_files := al_files old1\<rparr>)))"

definition set_async_logger :: "log_env \<Rightarrow> async_logger option \<Rightarrow> logger \<Rightarrow> log_error + logger" where
  "set_async_logger env al g =
     (case retire_async env g of
        Inl e \<Rightarrow> Inl e
      | Inr g1 \<Rightarrow>
          (case al of
             None \<Rightarrow> Inr g1
           | Some l \<Rightarrow>
               (case log_start env (l\<lparr>al_files := lg_files g1\<rparr>) of
                  Inl e \<Rightarrow> Inl e
                | Inr l1 \<Rightarrow> Inr (g1\<lparr>lg_async := Some l1\<rparr>))))"

text \<open>The name after the last slash.\<close>

fun basename_loop :: "string \<Rightarrow> string \<Rightarrow> string" where
  "basename_loop filename [] = filename"
| "basename_loop filename (c # p) = basename_loop (if c = CHR ''/'' then p else filename) p"

text \<open>The formatted message is cut to what fits into the buffer of 4096 bytes with its terminator.\<close>

definition log_line :: "string \<Rightarrow> log_level \<Rightarrow> string \<Rightarrow> int \<Rightarrow> string \<Rightarrow> string" where
  "log_line timestamp level file line msg =
     timestamp @ '' ['' @ level_str level @ ''] '' @ basename_loop file file @ '':'' @ show_int line @ '' '' @ take 4095 msg"

definition logger_log :: "string \<Rightarrow> log_level \<Rightarrow> string \<Rightarrow> int \<Rightarrow> string \<Rightarrow> logger \<Rightarrow> logger" where
  "logger_log timestamp level file line msg g =
     (if level < lg_level g then g
      else case lg_async g of
        Some l \<Rightarrow> g\<lparr>lg_async := Some (log_append (log_line timestamp level file line msg) l)\<rparr>
      | None \<Rightarrow> g\<lparr>lg_stderr := lg_stderr g @ log_line timestamp level file line msg @ [LF]\<rparr>)"

section \<open>What reaches the file\<close>

definition as_lines :: "string list \<Rightarrow> bytes" where
  "as_lines ls = concat (map (\<lambda>l. l @ [LF]) ls)"

lemma as_lines_simps [simp]:
  "as_lines [] = []" "as_lines (l # ls) = l @ LF # as_lines ls" "as_lines (xs @ ys) = as_lines xs @ as_lines ys"
  by (simp_all add: as_lines_def)

definition file_of :: "async_logger \<Rightarrow> bytes" where
  "file_of l = (case al_files l (al_filepath l) of None \<Rightarrow> [] | Some c \<Rightarrow> c)"

text \<open>The file is open and the given lines still fit under the roll size.\<close>

definition log_fits :: "string list \<Rightarrow> async_logger \<Rightarrow> bool" where
  "log_fits ls l \<longleftrightarrow> al_fp l = Ls_File \<and> (al_roll_size l = 0 \<or> al_written_bytes l + length (as_lines ls) \<le> al_roll_size l)"

lemma flush_buf_ok:
  "log_fits ls l \<Longrightarrow> \<exists>l'. flush_buf env ls l = Inr l' \<and> file_of l' = file_of l @ as_lines ls \<and> al_fp l' = Ls_File
     \<and> al_written_bytes l' = al_written_bytes l + length (as_lines ls) \<and> al_roll_size l' = al_roll_size l
     \<and> al_filepath l' = al_filepath l \<and> al_cur_buf l' = al_cur_buf l \<and> al_next_buf l' = al_next_buf l \<and> al_running l' = al_running l"
proof (induction ls arbitrary: l)
  case (Cons line ls)
  define l2 where "l2 = l\<lparr>al_files := (al_files l)(al_filepath l \<mapsto> file_of l @ line @ [LF]),
      al_written_bytes := al_written_bytes l + length line + 1\<rparr>"
  have "flush_buf env (line # ls) l = flush_buf env ls l2"
    using Cons.prems by (auto simp: log_fits_def log_write_def l2_def file_of_def)
  moreover have "log_fits ls l2" using Cons.prems by (auto simp: log_fits_def l2_def)
  moreover have "file_of l2 = file_of l @ line @ [LF]" by (simp add: file_of_def l2_def)
  ultimately show ?case using Cons.IH[of l2] by (auto simp: l2_def)
qed (auto simp: log_fits_def)

datatype log_op = Log_Append string | Log_Round

fun log_run :: "log_env \<Rightarrow> log_op list \<Rightarrow> async_logger \<Rightarrow> log_error + async_logger" where
  "log_run env [] l = Inr l"
| "log_run env (Log_Append s # ops) l = log_run env ops (log_append s l)"
| "log_run env (Log_Round # ops) l =
     (case backend_round env l of Inl e \<Rightarrow> Inl e | Inr l1 \<Rightarrow> log_run env ops l1)"

fun appended :: "log_op list \<Rightarrow> string list" where
  "appended [] = []"
| "appended (Log_Append s # ops) = s # appended ops"
| "appended (Log_Round # ops) = appended ops"

lemma backend_round_ok:
  assumes "al_next_buf l = []" and "log_fits (al_cur_buf l) l"
  shows "\<exists>l'. backend_round env l = Inr l' \<and> al_next_buf l' = [] \<and> al_cur_buf l' = [] \<and> file_of l' = file_of l @ as_lines (al_cur_buf l)
    \<and> al_fp l' = Ls_File \<and> al_written_bytes l' = al_written_bytes l + length (as_lines (al_cur_buf l))
    \<and> al_roll_size l' = al_roll_size l \<and> al_running l' = al_running l"
proof (cases "al_cur_buf l = []")
  case True
  then show ?thesis using assms by (simp add: backend_round_def flush_next_def log_fits_def file_of_def)
next
  case False
  let ?l = "l\<lparr>al_cur_buf := [], al_next_buf := al_cur_buf l\<rparr>"
  have "log_fits (al_cur_buf l) ?l" using assms(2) by (simp add: log_fits_def)
  from flush_buf_ok[OF this, of env] obtain l' where "flush_buf env (al_cur_buf l) ?l = Inr l'" "file_of l' = file_of l @ as_lines (al_cur_buf l)"
      "al_fp l' = Ls_File" "al_written_bytes l' = al_written_bytes l + length (as_lines (al_cur_buf l))" "al_roll_size l' = al_roll_size l"
      "al_cur_buf l' = []" "al_running l' = al_running l"
    by (auto simp: file_of_def)
  then show ?thesis using False assms(1)
    by (intro exI[of _ "l'\<lparr>al_next_buf := []\<rparr>"]) (simp add: backend_round_def flush_next_def file_of_def)
qed

lemma log_run_ok:
  "al_next_buf l = [] \<Longrightarrow> log_fits (al_cur_buf l @ appended ops) l \<Longrightarrow>
   \<exists>l'. log_run env ops l = Inr l' \<and> al_next_buf l' = [] \<and> log_fits (al_cur_buf l') l' \<and> al_running l' = al_running l \<and>
     file_of l' @ as_lines (al_cur_buf l') = file_of l @ as_lines (al_cur_buf l @ appended ops)"
proof (induction env ops l rule: log_run.induct)
  case (2 env s ops l)
  then show ?case by (simp add: log_append_def log_fits_def file_of_def)
next
  case (3 env ops l)
  have "log_fits (al_cur_buf l) l" using 3(3) by (auto simp: log_fits_def)
  from backend_round_ok[OF 3(2) this, of env] obtain l' where l': "backend_round env l = Inr l'" "al_next_buf l' = []" "al_cur_buf l' = []"
      "file_of l' = file_of l @ as_lines (al_cur_buf l)" "al_running l' = al_running l" "al_fp l' = Ls_File"
      "al_written_bytes l' = al_written_bytes l + length (as_lines (al_cur_buf l))" "al_roll_size l' = al_roll_size l"
    by auto
  moreover have "log_fits (appended ops) l'" using 3(3) l' by (auto simp: log_fits_def)
  ultimately show ?case using 3(1)[OF l'(1)] by simp
qed auto

lemma backend_exit_round: "al_next_buf l = [] \<Longrightarrow> backend_exit env l = backend_round env l"
  by (simp add: backend_exit_def backend_round_def flush_next_def)

section \<open>Properties\<close>

text \<open>C33: no log line is lost. However appends from other threads and rounds of the back end alternate
  between \<^verbatim>\<open>start\<close> and \<^verbatim>\<open>stop\<close>, the file then holds its earlier contents followed by every appended line,
  once and in order, provided the file can be opened and the lines do not exceed the roll size.\<close>
theorem log_lines_delivered:
  assumes "le_open_ok env 0" and "roll_size = 0 \<or> length (as_lines (appended ops)) \<le> roll_size"
    and l0_def: "l0 = new_async_logger path roll_size files"
  shows "\<exists>l1 l2 l3. log_start env l0 = Inr l1 \<and> log_run env ops l1 = Inr l2 \<and> log_stop env l2 = Inr l3
    \<and> file_of l3 = file_of l0 @ as_lines (appended ops) \<and> al_cur_buf l3 = [] \<and> al_next_buf l3 = []"
proof -
  obtain l1 where l1: "log_start env l0 = Inr l1" "file_of l1 = file_of l0" "al_cur_buf l1 = []" "al_next_buf l1 = []"
      "log_fits (appended ops) l1" "al_running l1"
    using assms(1,2) by (auto simp: log_start_def open_file_def l0_def new_async_logger_def log_fits_def file_of_def Let_def)
  obtain l2 where l2: "log_run env ops l1 = Inr l2" "al_next_buf l2 = []" "log_fits (al_cur_buf l2) l2" "al_running l2"
      "file_of l2 @ as_lines (al_cur_buf l2) = file_of l0 @ as_lines (appended ops)"
    using log_run_ok[of l1 ops env] l1 by auto
  let ?l = "l2\<lparr>al_running := False\<rparr>"
  have f: "log_fits (al_cur_buf ?l) ?l" using l2(3) by (simp add: log_fits_def)
  obtain l where l: "backend_round env ?l = Inr l" "file_of l = file_of ?l @ as_lines (al_cur_buf ?l)" "al_fp l = Ls_File"
      "al_cur_buf l = []" "al_next_buf l = []"
    using backend_round_ok[of ?l env] l2(2) f by auto
  then have "log_stop env l2 = Inr (l\<lparr>al_fp := Ls_Null\<rparr>)" using l2(2,4) by (simp add: log_stop_def backend_exit_round)
  then show ?thesis using l1(1) l2(1,5) l by (auto simp: file_of_def)
qed

definition wlog_env :: log_env where
  "wlog_env = \<lparr>le_stamp = (\<lambda>_. ''20260101_000000''), le_open_ok = (\<lambda>_. True)\<rparr>"

theorem log_lines_delivered_witness:
  "\<exists>l1 l2 l3. log_start wlog_env (new_async_logger ''g.log'' 100 Map.empty) = Inr l1
    \<and> log_run wlog_env [Log_Append ''a'', Log_Round, Log_Append ''b''] l1 = Inr l2 \<and> log_stop wlog_env l2 = Inr l3
    \<and> file_of l3 = [CHR ''a'', LF, CHR ''b'', LF]"
  using log_lines_delivered[of wlog_env 100 "[Log_Append ''a'', Log_Round, Log_Append ''b'']"
      "new_async_logger ''g.log'' 100 Map.empty" "''g.log''" Map.empty]
  by (auto simp: wlog_env_def file_of_def new_async_logger_def)

text \<open>C39: rolling the log file is undefined behaviour. When the next line exceeds the roll size,
  \<^verbatim>\<open>roll_file\<close> closes the stream and \<^verbatim>\<open>open_file\<close> closes the same stream a second time before it opens the
  new file, so the back end never completes a roll.\<close>
theorem log_roll_closes_twice:
  assumes "log_fits ls l" and "0 < al_roll_size l" and "al_roll_size l < al_written_bytes l + length (as_lines ls) + length line"
  shows "flush_buf env (ls @ line # rest) l = Inl Stream_Closed_Twice"
  using assms
proof (induction ls arbitrary: l)
  case Nil
  then show ?case by (simp add: log_fits_def roll_file_def open_file_def Let_def)
next
  case (Cons s ls)
  define l2 where "l2 = l\<lparr>al_files := (al_files l)(al_filepath l \<mapsto> file_of l @ s @ [LF]),
      al_written_bytes := al_written_bytes l + length s + 1\<rparr>"
  have "flush_buf env ((s # ls) @ line # rest) l = flush_buf env (ls @ line # rest) l2"
    using Cons.prems(1) by (auto simp: log_fits_def log_write_def l2_def file_of_def)
  also have "\<dots> = Inl Stream_Closed_Twice" using Cons.prems by (intro Cons.IH) (auto simp: log_fits_def l2_def)
  finally show ?case .
qed

theorem log_roll_closes_twice_witness:
  "flush_buf wlog_env [''abc'', ''def''] ((new_async_logger ''g.log'' 5 Map.empty)\<lparr>al_fp := Ls_File\<rparr>) = Inl Stream_Closed_Twice"
  using log_roll_closes_twice[of "[''abc'']" "(new_async_logger ''g.log'' 5 Map.empty)\<lparr>al_fp := Ls_File\<rparr>" "''def''" wlog_env "[]"]
  by (simp add: log_fits_def new_async_logger_def del: flush_buf.simps)

lemma basename_loop_eq:
  "CHR ''/'' \<notin> set n \<Longrightarrow> basename_loop f (d @ CHR ''/'' # n) = n" and
  basename_no_slash: "CHR ''/'' \<notin> set n \<Longrightarrow> basename_loop f n = f"
proof -
  have *: "CHR ''/'' \<notin> set n \<Longrightarrow> basename_loop f n = f" for f n by (induction n) auto
  then show "CHR ''/'' \<notin> set n \<Longrightarrow> basename_loop f n = f" .
  show "CHR ''/'' \<notin> set n \<Longrightarrow> basename_loop f (d @ CHR ''/'' # n) = n" by (induction d arbitrary: f) (auto simp: *)
qed

end
