(* ===== verification/Gw_Socket.thy ===== *)
theory Gw_Socket
  imports Gw_Utils Gw_Load_Balancer
begin

text \<open>
  The socket helpers of \<^verbatim>\<open>src/src/net/socket.cpp\<close> and the blocking request reader
  \<^verbatim>\<open>recv_all_request\<close> of \<^verbatim>\<open>src/src/utils/utils.cpp\<close>. The results of the system calls are the environment;
  the calls made are a trace.
\<close>

section \<open>Listening socket\<close>

record socket_env =
  so_socket :: int
  so_bind :: int
  so_listen :: int
  so_getfl :: int
  so_setfl :: "int \<Rightarrow> int"

datatype sock_call = Sk_Reuse int | Sk_Nodelay int | Sk_Bind int nat | Sk_Listen int | Sk_Setfl int int | Sk_Close int

definition O_NONBLOCK :: int where "O_NONBLOCK = 2048"

definition set_nonblocking :: "socket_env \<Rightarrow> int \<Rightarrow> int \<times> sock_call list" where
  "set_nonblocking env fd =
     (let flags = so_getfl env
      in if flags = -1 then (-1, []) else (so_setfl env (or flags O_NONBLOCK), [Sk_Setfl fd (or flags O_NONBLOCK)]))"

definition set_tcp_nodelay :: "int \<Rightarrow> int \<Rightarrow> int \<times> sock_call list" where
  "set_tcp_nodelay res fd = (res, [Sk_Nodelay fd])"

text \<open>\<^verbatim>\<open>htons\<close> takes a 16-bit number.\<close>

definition port16 :: "int \<Rightarrow> nat" where
  "port16 port = nat (port mod 2 ^ 16)"

definition create_listen_socket :: "socket_env \<Rightarrow> int \<Rightarrow> int \<times> sock_call list" where
  "create_listen_socket env port =
     (let fd = so_socket env
      in if fd < 0 then (-1, [])
         else
           let t1 = [Sk_Reuse fd, Sk_Bind fd (port16 port)]
           in if so_bind env < 0 then (-1, t1 @ [Sk_Close fd])
              else if so_listen env < 0 then (-1, t1 @ [Sk_Listen fd, Sk_Close fd])
              else
                (case set_nonblocking env fd of (res, t2) \<Rightarrow>
                   if res < 0 then (-1, t1 @ [Sk_Listen fd] @ t2 @ [Sk_Close fd])
                   else (fd, t1 @ [Sk_Listen fd] @ t2)))"

lemma port16_id: "0 \<le> port \<Longrightarrow> port < 2 ^ 16 \<Longrightarrow> port16 port = nat port"
  by (simp add: port16_def)

text \<open>A failure leaves no descriptor open; a success returns the descriptor bound to the port, listening
  and non-blocking.\<close>

lemma listen_socket_result:
  assumes "create_listen_socket env port = (r, t)"
  shows "r = -1 \<and> (0 \<le> so_socket env \<longrightarrow> last t = Sk_Close (so_socket env) \<and> t \<noteq> [])
    \<or> r = so_socket env \<and> 0 \<le> r \<and> Sk_Close r \<notin> set t
      \<and> t = [Sk_Reuse r, Sk_Bind r (port16 port), Sk_Listen r, Sk_Setfl r (or (so_getfl env) O_NONBLOCK)]"
  using assms by (auto simp: create_listen_socket_def set_nonblocking_def Let_def split: if_splits)

section \<open>Reading a whole request\<close>

datatype request_recv = Qr_Data bytes | Qr_Eof | Qr_Error

datatype request_outcome = Rr_Blocked | Rr_Undefined | Rr_Returned bytes

text \<open>\<^verbatim>\<open>data.find("Content-Length:", 0, header_end)\<close>: the third argument is the number of bytes of the
  literal to search for, of which there are 16 with the terminator. Reading more is undefined.\<close>

definition find_literal :: "nat \<Rightarrow> bytes \<Rightarrow> nat option option" where
  "find_literal n s =
     (if n \<le> 16 then Some (find_sub (take n (''Content-Length:'' @ [CHR 0x00])) s) else None)"

definition effective_max :: "int \<Rightarrow> int" where
  "effective_max max_size = (if 0 < max_size then max_size else 2147483647)"

text \<open>From the position behind the colon to the value; the content length stays when it does not parse.\<close>

definition request_length :: "nat \<Rightarrow> nat \<Rightarrow> bytes \<Rightarrow> int \<Rightarrow> int" where
  "request_length header_end cl_pos s content_length =
     (let blanks = length (takeWhile (\<lambda>c. c = CHR '' '' \<or> c = TAB) (take (header_end - cl_pos) (drop cl_pos s)));
          pos = cl_pos + blanks;
          cl_end = (case find_sub_from crlf pos s of None \<Rightarrow> header_end | Some e \<Rightarrow> if header_end < e then header_end else e)
      in case parse_int_safe (drop pos s) (int cl_end - int pos) of
           None \<Rightarrow> content_length
         | Some v \<Rightarrow> if 0 \<le> v then v else content_length)"

text \<open>The part of the loop that looks for the header: \<open>None\<close> is undefined behaviour, \<open>Some None\<close> the rejected
  request, otherwise \<^verbatim>\<open>headers_complete\<close> and \<^verbatim>\<open>content_length\<close>.\<close>

definition header_scan :: "int \<Rightarrow> bytes \<Rightarrow> bool \<Rightarrow> int \<Rightarrow> (bool \<times> int) option option" where
  "header_scan mx s headers_complete content_length =
     (if headers_complete then Some (Some (True, content_length))
      else case find_sub crlf2 s of
        None \<Rightarrow> Some (Some (False, content_length))
      | Some header_end \<Rightarrow>
          (case find_literal header_end s of
             None \<Rightarrow> None
           | Some None \<Rightarrow> Some (Some (True, content_length))
           | Some (Some cl_pos) \<Rightarrow>
               let cl = request_length header_end (cl_pos + 15) s content_length
               in if mx < cl then Some None else Some (Some (True, cl))))"

fun recv_request_loop :: "int \<Rightarrow> request_recv list \<Rightarrow> bytes \<Rightarrow> bool \<Rightarrow> int \<Rightarrow> request_outcome" where
  "recv_request_loop mx [] s hc cl = Rr_Blocked"
| "recv_request_loop mx (Qr_Eof # rs) s hc cl = Rr_Returned s"
| "recv_request_loop mx (Qr_Error # rs) s hc cl = Rr_Returned s"
| "recv_request_loop mx (Qr_Data d # rs) s hc cl =
     (let s' = s @ d
      in if mx < narrow_int (length s') then Rr_Returned []
         else case header_scan mx s' hc cl of
           None \<Rightarrow> Rr_Undefined
         | Some None \<Rightarrow> Rr_Returned []
         | Some (Some (hc', cl')) \<Rightarrow>
             if hc' then
               (if 0 \<le> cl' then
                  let body_start = (case find_sub crlf2 s' of None \<Rightarrow> 3 | Some i \<Rightarrow> i + 4)
                  in if nat cl' \<le> sub64 (length s') body_start then Rr_Returned (take (body_start + nat cl') s')
                     else recv_request_loop mx rs s' hc' cl'
                else Rr_Returned s')
             else if length d < 4096 then Rr_Returned s'
             else recv_request_loop mx rs s' hc' cl')"

definition recv_all_request :: "int \<Rightarrow> request_recv list \<Rightarrow> request_outcome" where
  "recv_all_request max_size rs = recv_request_loop (effective_max max_size) rs [] False (-1)"

text \<open>The reader searches past the end of its literal as soon as the header is longer than that.\<close>

lemma recv_all_request_undefined:
  assumes "find_sub crlf2 d = Some he" and "16 < he" and "narrow_int (length d) \<le> effective_max max_size"
  shows "recv_all_request max_size (Qr_Data d # rs) = Rr_Undefined"
  using assms by (simp add: recv_all_request_def header_scan_def find_literal_def Let_def)

lemma recv_request_step:
  assumes "recv_request_loop mx (Qr_Data d # rs) s hc cl = Rr_Returned r"
  obtains "r = []" | "length r \<le> length (s @ d)" "narrow_int (length (s @ d)) \<le> mx"
    | hc' cl' where "recv_request_loop mx rs (s @ d) hc' cl' = Rr_Returned r" "narrow_int (length (s @ d)) \<le> mx"
proof (cases "mx < narrow_int (length (s @ d))")
  case True
  then show ?thesis using assms that(1) by simp
next
  case False
  then have fits: "narrow_int (length (s @ d)) \<le> mx" by simp
  show ?thesis
  proof (cases "header_scan mx (s @ d) hc cl")
    case None
    then show ?thesis using assms False by simp
  next
    case (Some scan)
    show ?thesis
    proof (cases scan)
      case None
      then show ?thesis using assms False Some that(1) by simp
    next
      case scanned: (Some hcl)
      obtain hc' cl' where "hcl = (hc', cl')" by fastforce
      note scan = Some scanned this
      define start where "start = (case find_sub crlf2 (s @ d) of None \<Rightarrow> 3 | Some i \<Rightarrow> i + 4)"
      consider "r = take (start + nat cl') (s @ d)" | "r = s @ d" | "recv_request_loop mx rs (s @ d) hc' cl' = Rr_Returned r"
        using assms False
        by (cases "hc' \<and> 0 \<le> cl' \<and> nat cl' \<le> sub64 (length s + length d) start"; cases hc'; cases "0 \<le> cl'"; cases "length d < 4096")
          (simp_all add: scan start_def[symmetric])
      then show ?thesis using that fits by cases simp_all
    qed
  qed
qed

text \<open>It never returns more than the limit.\<close>

lemma recv_request_bounded:
  "recv_request_loop mx rs s hc cl = Rr_Returned r \<Longrightarrow> 0 \<le> mx \<Longrightarrow> narrow_int (length s) \<le> mx \<Longrightarrow>
   length s + length (concat (map (\<lambda>x. case x of Qr_Data d \<Rightarrow> d | _ \<Rightarrow> []) rs)) < 2 ^ 31 \<Longrightarrow> int (length r) \<le> mx"
proof (induction rs arbitrary: s hc cl)
  case (Cons x rs)
  show ?case
  proof (cases x)
    case (Qr_Data d)
    then have n: "narrow_int (length (s @ d)) = int (length (s @ d))" using Cons.prems(4) by (simp add: narrow_int_def)
    from Cons.prems(1) show ?thesis unfolding Qr_Data
    proof (cases rule: recv_request_step)
      case (3 hc' cl')
      then show ?thesis using Cons.IH[OF 3(1)] Cons.prems Qr_Data by simp
    qed (use Cons.prems n in simp_all)
  qed (use Cons.prems in \<open>simp_all add: narrow_int_def\<close>)
qed simp

end
