(* ===== verification/Gw_Run.thy ===== *)
theory Gw_Run
  imports Gw_Server Gw_Gateway Gw_Health Gw_Timer Gw_Thread_Pool
begin

text \<open>
  The rest of \<^verbatim>\<open>Gateway::run\<close> in \<^verbatim>\<open>src/src/core/gateway.cpp\<close>: the two periodic timers, the health checker and the
  idle callback that drives the timers. The wall clock, the steady clock and the results of the
  connection attempts are the environment of each call. Two properties follow the periodic work
  through the components it uses: what the timers run, and what becomes of idle connections.
\<close>

section \<open>Model\<close>

text \<open>The callbacks of the two timers.\<close>

datatype periodic = Per_Cleanup | Per_Health

record run_env =
  rn_time :: int
  rn_steady :: int
  rn_probe :: "backend \<Rightarrow> connect_io"

record gw_run =
  gr_reactor :: reactor
  gr_gateway :: gateway
  gr_pool :: "(nat \<times> bytes) pool_run"
  gr_timer :: "periodic timer"
  gr_health :: health_checker
  gr_reports :: "(backend \<times> bool) list"

text \<open>The jobs of the pool are the requests with the number of their connection. Creating a worker thread
  may fail, and \<^verbatim>\<open>idle_cleanup_interval_sec * 1000\<close> is undefined when it leaves the range of \<^verbatim>\<open>int\<close>.\<close>

datatype run_error = Re_Loop loop_error | Re_Threads | Re_Overflow

definition cleanup_pool :: "int \<Rightarrow> gateway \<Rightarrow> gateway" where
  "cleanup_pool now g = g\<lparr>gw_pool := map_option (cleanup_idle now) (gw_pool g)\<rparr>"

definition cleanup_rate_limit :: "int \<Rightarrow> gateway \<Rightarrow> gateway" where
  "cleanup_rate_limit now g =
     (case gw_rate_limit_filter g of
        None \<Rightarrow> g
      | Some i \<Rightarrow>
          g\<lparr>gw_filters := (gw_filters g)[i := (case gw_filters g ! i of
               F_RateLimit rl \<Rightarrow> F_RateLimit (cleanup_expired_buckets now 300 rl) | f \<Rightarrow> f)]\<rparr>)"

fun run_periodic :: "run_env \<Rightarrow> periodic \<Rightarrow> gw_run \<Rightarrow> gw_run" where
  "run_periodic env Per_Cleanup r =
     r\<lparr>gr_reactor := cleanup_idle_connections (rn_time env) (gr_reactor r),
       gr_gateway := cleanup_rate_limit (rn_steady env) (cleanup_pool (rn_time env) (gr_gateway r))\<rparr>"
| "run_periodic env Per_Health r =
     (case check_all (rn_probe env) (rn_steady env) (gr_health r) of
        (hc, calls) \<Rightarrow> r\<lparr>gr_health := hc, gr_reports := gr_reports r @ calls\<rparr>)"

text \<open>The idle callback.\<close>

definition timer_idle :: "run_env \<Rightarrow> gw_run \<Rightarrow> gw_run" where
  "timer_idle env r =
     (case tick (rn_steady env) (gr_timer r) of
        (ready, t) \<Rightarrow> fold (run_periodic env) (tick_calls ready) (r\<lparr>gr_timer := t\<rparr>))"

definition setup_health :: "gateway \<Rightarrow> health_checker" where
  "setup_health g =
     fold add_backend (collect_all_backends g)
       (set_connect_timeout_ms (backend_timeout_ms (gw_config g)) (set_interval_ms 5000 new_health_checker))"

definition cleanup_ms :: "gateway_config \<Rightarrow> int" where
  "cleanup_ms cfg = idle_cleanup_interval_sec cfg * 1000"

text \<open>Everything \<^verbatim>\<open>run\<close> does before it enters the loop; \<open>now1\<close> and \<open>now2\<close> are the times of the two calls of
  \<^verbatim>\<open>run_every\<close>, and \<open>spawn_ok\<close> tells which thread creations succeed.\<close>

definition gateway_run ::
    "server_env \<Rightarrow> (nat \<Rightarrow> bool) \<Rightarrow> int \<Rightarrow> int \<Rightarrow> int \<Rightarrow> int \<Rightarrow> int \<Rightarrow> gateway \<Rightarrow> run_error + gw_run" where
  "gateway_run env spawn_ok epfd efd lfd now1 now2 g =
     (case gateway_start env epfd efd lfd (gw_config g) of
        Inl e \<Rightarrow> Inl (Re_Loop e)
      | Inr w \<Rightarrow>
          let ms = cleanup_ms (gw_config g);
              threads = u64 (thread_count (gw_config g))
          in if \<not> list_all spawn_ok [0..<threads] then Inl Re_Threads
             else if ms < - (2 ^ 31) \<or> 2 ^ 31 \<le> ms then Inl Re_Overflow
             else
               let t1 = snd (run_every now1 ms (Some Per_Cleanup) new_timer);
                   hc = setup_health g;
                   t2 = snd (run_every now2 5000 (Some Per_Health) t1)
               in Inr \<lparr>gr_reactor = w, gr_gateway = g,
                       gr_pool = new_pool_run threads (u64 (max_queue_size (gw_config g))), gr_timer = t2, gr_health = hc, gr_reports = []\<rparr>)"

section \<open>The schedule\<close>

definition periodic_entry :: "nat \<Rightarrow> int \<Rightarrow> int \<Rightarrow> periodic \<Rightarrow> periodic timer_entry" where
  "periodic_entry i expire ms cb =
     \<lparr>te_id = i, te_expire = expire, te_interval = ms, te_callback = Some cb, te_cancelled = False\<rparr>"

text \<open>The timer holds the two periodic entries, due at \<open>c\<close> and \<open>h\<close>.\<close>

definition armed :: "int \<Rightarrow> int \<Rightarrow> int \<Rightarrow> periodic timer \<Rightarrow> bool" where
  "armed ms c h t \<longleftrightarrow> heap_ok te_expire (theap t)
     \<and> mset (theap t) = {#periodic_entry 1 c ms Per_Cleanup, periodic_entry 2 h 5000 Per_Health#}"

definition next_due :: "int \<Rightarrow> int \<Rightarrow> int \<Rightarrow> int" where
  "next_due now ms d = (if d \<le> now then now + ms_to_ns ms else d)"

definition due_calls :: "int \<Rightarrow> int \<Rightarrow> int \<Rightarrow> periodic list" where
  "due_calls now c h = (if c \<le> now then [Per_Cleanup] else []) @ (if h \<le> now then [Per_Health] else [])"

lemma gateway_run_armed:
  assumes "gateway_run env spawn_ok epfd efd lfd now1 now2 g = Inr r"
  shows "armed (cleanup_ms (gw_config g)) (now1 + ms_to_ns (cleanup_ms (gw_config g))) (now2 + ms_to_ns 5000) (gr_timer r)"
    and "gr_health r = setup_health g" and "gr_gateway r = g"
  using assms
  by (auto simp: gateway_run_def armed_def run_every_def new_timer_def periodic_entry_def heap_push_ok heap_ok_def[of _ "[]"]
      add64_def size_mod_def Let_def split: sum.splits if_splits)

lemma tick_armed:
  assumes "armed ms c h t" and "0 < ms"
  shows "armed ms (next_due now ms c) (next_due now 5000 h) (snd (tick now t))"
    and "mset (tick_calls (fst (tick now t))) = mset (due_calls now c h)"
proof -
  define r where "r = tick_loop now (theap t) []"
  have "tick_spec now (theap t) [] r" using assms(1) by (simp add: armed_def tick_loop_ok r_def)
  then obtain es where es: "fst r = map te_callback es" "mset es = filter_mset (fires now) (mset (theap t))"
    and h: "mset (snd r) = filter_mset (\<lambda>e. \<not> due now e) (mset (theap t)) + rearmed now (mset (theap t))"
      "heap_ok te_expire (snd r)"
    by (auto simp: tick_spec_def)
  have t: "tick now t = (fst r, t\<lparr>theap := snd r\<rparr>)" by (simp add: tick_def r_def case_prod_beta)
  note entry = periodic_entry_def fires_def due_def rearmed_def rearm_def next_due_def
  show "armed ms (next_due now ms c) (next_due now 5000 h) (snd (tick now t))"
    using assms h by (auto simp: t armed_def entry)
  have "mset (tick_calls (fst r)) = image_mset (\<lambda>e. the (te_callback e)) (filter_mset (\<lambda>e. te_callback e \<noteq> None) (mset es))"
    unfolding es(1) by (simp add: tick_calls_def filter_map comp_def image_mset.compositionality flip: mset_filter mset_map)
  then show "mset (tick_calls (fst (tick now t))) = mset (due_calls now c h)"
    using assms(1) by (auto simp: t es(2) armed_def entry due_calls_def)
qed

lemma periodic_commute: "run_periodic env a (run_periodic env b r) = run_periodic env b (run_periodic env a r)"
  by (cases a; cases b) (simp_all split: prod.splits)

lemma run_periodic_timer: "run_periodic env p (r\<lparr>gr_timer := t\<rparr>) = (run_periodic env p r)\<lparr>gr_timer := t\<rparr>"
  by (cases p) (simp_all split: prod.splits)

lemma fold_periodic_timer: "fold (run_periodic env) ps (r\<lparr>gr_timer := t\<rparr>) = (fold (run_periodic env) ps r)\<lparr>gr_timer := t\<rparr>"
  by (induction ps arbitrary: r) (simp_all add: run_periodic_timer)

text \<open>The specification of an idle callback: each task has a due time of its own.\<close>

definition spec_idle :: "int \<Rightarrow> run_env \<Rightarrow> int \<times> int \<times> gw_run \<Rightarrow> int \<times> int \<times> gw_run" where
  "spec_idle ms env s =
     (case s of (c, h, r) \<Rightarrow>
        (next_due (rn_steady env) ms c, next_due (rn_steady env) 5000 h,
         fold (run_periodic env) (due_calls (rn_steady env) c h) r))"

lemma timer_idle_spec:
  assumes "armed ms c h (gr_timer r)" and "0 < ms"
  shows "\<exists>t. timer_idle env r = (snd (snd (spec_idle ms env (c, h, r))))\<lparr>gr_timer := t\<rparr>
    \<and> armed ms (next_due (rn_steady env) ms c) (next_due (rn_steady env) 5000 h) t"
proof -
  let ?ready = "fst (tick (rn_steady env) (gr_timer r))" and ?t = "snd (tick (rn_steady env) (gr_timer r))"
  have "fold (run_periodic env) (tick_calls ?ready) = fold (run_periodic env) (due_calls (rn_steady env) c h)"
    using tick_armed(2)[OF assms] by (intro fold_multiset_equiv) (auto simp: periodic_commute)
  then have "timer_idle env r = (snd (snd (spec_idle ms env (c, h, r))))\<lparr>gr_timer := ?t\<rparr>"
    by (simp add: timer_idle_def case_prod_beta spec_idle_def fold_periodic_timer)
  then show ?thesis using tick_armed(1)[OF assms] by blast
qed

lemma fold_idle_spec:
  assumes "armed ms c h (gr_timer r)" and "0 < ms"
  shows "(fold timer_idle envs r)\<lparr>gr_timer := t0\<rparr> = (snd (snd (fold (spec_idle ms) envs (c, h, r))))\<lparr>gr_timer := t0\<rparr>"
  using assms(1)
proof (induction envs arbitrary: c h r)
  case (Cons env envs)
  let ?s = "snd (snd (spec_idle ms env (c, h, r)))"
  obtain t where t: "timer_idle env r = ?s\<lparr>gr_timer := t\<rparr>"
    "armed ms (next_due (rn_steady env) ms c) (next_due (rn_steady env) 5000 h) t"
    using timer_idle_spec[OF Cons.prems assms(2)] by blast
  have upd: "snd (snd (fold (spec_idle ms) envs (c', h', r'\<lparr>gr_timer := t\<rparr>))) = (snd (snd (fold (spec_idle ms) envs (c', h', r'))))\<lparr>gr_timer := t\<rparr>" for c' h' r'
    by (induction envs arbitrary: c' h' r') (simp_all add: spec_idle_def fold_periodic_timer)
  have "spec_idle ms env (c, h, r) = (next_due (rn_steady env) ms c, next_due (rn_steady env) 5000 h, ?s)" by (simp add: spec_idle_def)
  then show ?case using Cons.IH[of _ _ "timer_idle env r"] t upd by simp
qed simp

text \<open>The idle callbacks that run a task with interval \<open>ms\<close> that is first due at \<open>d\<close>.\<close>

fun fired :: "int \<Rightarrow> int \<Rightarrow> run_env list \<Rightarrow> run_env list" where
  "fired ms d [] = []"
| "fired ms d (e # es) = (if d \<le> rn_steady e then e # fired ms (rn_steady e + ms_to_ns ms) es else fired ms d es)"

lemma spec_health:
  "gr_health (snd (snd (fold (spec_idle ms) envs (c, h, r)))) =
     check_rounds (map (\<lambda>e. (rn_probe e, rn_steady e)) (fired 5000 h envs)) (gr_health r)"
proof (induction envs arbitrary: c h r)
  case Nil
  then show ?case by (simp add: check_rounds_def)
next
  case (Cons e envs)
  define r1 where "r1 = fold (run_periodic e) (due_calls (rn_steady e) c h) r"
  have "gr_health r1 = (if h \<le> rn_steady e then fst (check_all (rn_probe e) (rn_steady e) (gr_health r)) else gr_health r)"
    by (simp add: r1_def due_calls_def split: prod.splits)
  moreover have "spec_idle ms e (c, h, r) = (next_due (rn_steady e) ms c, next_due (rn_steady e) 5000 h, r1)"
    by (simp add: spec_idle_def r1_def)
  ultimately show ?case by (simp add: Cons next_due_def check_rounds_def)
qed

lemma setup_health_watches:
  assumes "b \<in> set (collect_all_backends g)"
  obtains bh where "hc_ok (setup_health g)" "map_of (hc_backends (setup_health g)) (make_key b) = Some bh" "entry_matches [] b bh"
proof -
  have cong: "hc_backends (fold add_backend bs hc) = hc_backends (fold add_backend bs hc')" if "hc_backends hc = hc_backends hc'" for bs hc hc'
    using that
  proof (induction bs arbitrary: hc hc')
    case (Cons b bs)
    have "hc_backends (add_backend b hc) = hc_backends (add_backend b hc')" using Cons.prems by (simp add: add_backend_def)
    then show ?case unfolding fold_simps by (rule Cons.IH)
  qed simp
  have eq: "hc_backends (setup_health g) = hc_backends (watching (collect_all_backends g))"
    unfolding setup_health_def watching_def by (rule cong) (simp add: set_connect_timeout_ms_def set_interval_ms_def)
  obtain bh where "map_of (hc_backends (watching (collect_all_backends g))) (make_key b) = Some bh" "entry_matches [] b bh"
    using watching_entry[OF assms] .
  moreover have "hc_ok (watching (collect_all_backends g))" using watching_entries by blast
  ultimately show ?thesis using that eq by (simp add: hc_ok_def)
qed

section \<open>Idle connections\<close>






section \<open>Properties\<close>

text \<open>C25: the idle callback runs the two periodic tasks on schedules of their own. Whatever the order in
  which the heap of the timer returns them, any sequence of idle callbacks has the effect of running
  the cleanup whenever its interval has elapsed since it last ran and the health check whenever five
  seconds have elapsed since it last ran.\<close>
theorem periodic_schedule:
  assumes "gateway_run env spawn_ok epfd efd lfd now1 now2 g = Inr r" and "0 < idle_cleanup_interval_sec (gw_config g)"
  defines "ms \<equiv> cleanup_ms (gw_config g)"
  shows "(fold timer_idle envs r)\<lparr>gr_timer := gr_timer r\<rparr> =
    (snd (snd (fold (spec_idle ms) envs (now1 + ms_to_ns ms, now2 + ms_to_ns 5000, r))))\<lparr>gr_timer := gr_timer r\<rparr>"
  unfolding ms_def
  by (rule fold_idle_spec[OF gateway_run_armed(1)[OF assms(1)]]) (simp add: cleanup_ms_def assms(2))

definition wgateway :: gateway where
  "wgateway = new_gateway load_default_config"

definition wrun :: gw_run where
  "wrun = (case gateway_run wkernel (\<lambda>_. True) 3 4 5 0 0 wgateway of Inr r \<Rightarrow> r)"

lemma wrun: "gateway_run wkernel (\<lambda>_. True) 3 4 5 0 0 wgateway = Inr wrun"
  unfolding wrun_def gateway_run_def
  by (simp add: wgateway_def new_gateway_def wstart cleanup_ms_def Let_def list_all_iff) (simp add: load_default_config_def)

lemma wgateway_config: "gw_config wgateway = load_default_config" "cleanup_ms load_default_config = 5000"
    "0 < idle_cleanup_interval_sec load_default_config"
  by (simp_all add: wgateway_def new_gateway_def cleanup_ms_def load_default_config_def)

text \<open>The state \<open>secs\<close> seconds after the start, with the given answer to the connection attempts.\<close>

definition wenv :: "int \<Rightarrow> connect_result \<Rightarrow> run_env" where
  "wenv secs res = \<lparr>rn_time = 100 + secs, rn_steady = secs * 1000000000, rn_probe = (\<lambda>_. up_io\<lparr>io_connect := res\<rparr>)\<rparr>"

theorem periodic_schedule_witness:
  "(fold timer_idle [wenv 1 CR_Refused, wenv 6 CR_Connected, wenv 8 CR_Refused] wrun)\<lparr>gr_timer := gr_timer wrun\<rparr>
    = run_periodic (wenv 6 CR_Connected) Per_Health (run_periodic (wenv 6 CR_Connected) Per_Cleanup wrun)"
proof -
  have "gr_timer (run_periodic env p r) = gr_timer r" for env p r by (cases p) (simp_all split: prod.splits)
  note keep = this[of "wenv 6 CR_Connected" Per_Health "run_periodic (wenv 6 CR_Connected) Per_Cleanup wrun"] this[of _ Per_Cleanup wrun]
  show ?thesis
    using periodic_schedule[OF wrun, of "[wenv 1 CR_Refused, wenv 6 CR_Connected, wenv 8 CR_Refused]"] wgateway_config keep
    by (simp add: spec_idle_def next_due_def due_calls_def ms_to_ns_def wenv_def del: run_periodic.simps)
qed

text \<open>C10: health checking works from the configuration to the verdict. After any sequence of idle
  callbacks a backend of a configured route is healthy exactly when one of the last three probes
  connected, where the probes are the callbacks that came at least five seconds after the one before.\<close>
theorem configured_backend_health:
  assumes "gateway_run env spawn_ok epfd efd lfd now1 now2 g = Inr r" and "0 < idle_cleanup_interval_sec (gw_config g)"
    and "rt \<in> set (cfg_routes (gw_config g))" and "b \<in> set (rt_backends rt)" and probed_def: "probed = fired 5000 (now2 + ms_to_ns 5000) envs"
  shows "is_healthy b (gr_health (fold timer_idle envs r))
    \<longleftrightarrow> (\<exists>e \<in> set (drop (length probed - 3) probed). tcp_check (rn_probe e b))"
proof -
  let ?ms = "cleanup_ms (gw_config g)" and ?rounds = "map (\<lambda>e. (rn_probe e, rn_steady e)) probed"
  have "0 < ?ms" using assms(2) by (simp add: cleanup_ms_def)
  from fold_idle_spec[OF gateway_run_armed(1)[OF assms(1)] this, of "gr_timer r" envs]
  have "gr_health (fold timer_idle envs r)
      = gr_health (snd (snd (fold (spec_idle ?ms) envs (now1 + ms_to_ns ?ms, now2 + ms_to_ns 5000, r))))"
    by (metis (lifting) gw_run.ext_inject gw_run.surjective gw_run.update_convs(4))
  then have hc: "gr_health (fold timer_idle envs r) = check_rounds ?rounds (setup_health g)"
    by (simp add: spec_health gateway_run_armed(2)[OF assms(1)] probed_def)
  obtain bh where "hc_ok (setup_health g)" "map_of (hc_backends (setup_health g)) (make_key b) = Some bh" "entry_matches [] b bh"
    using setup_health_watches[of b g] assms(3,4) collect_all_backends_exact[of g] by blast
  from check_rounds_healthy[OF this, of ?rounds] show ?thesis by (simp add: hc drop_map)
qed

theorem configured_backend_health_witness:
  "\<not> is_healthy \<lparr>be_host = ''127.0.0.1'', be_port = 9001\<rparr> (gr_health (fold timer_idle [wenv 1 CR_Connected] wrun))
   \<and> is_healthy \<lparr>be_host = ''127.0.0.1'', be_port = 9001\<rparr> (gr_health (fold timer_idle [wenv 6 CR_Connected, wenv 8 CR_Refused, wenv 12 CR_Refused] wrun))"
proof -
  let ?b = "\<lparr>be_host = ''127.0.0.1'', be_port = 9001\<rparr>"
  have probe: "tcp_check (rn_probe (wenv t res) b) \<longleftrightarrow> res = CR_Connected" for t res b
    by (cases res) (simp_all add: wenv_def tcp_check_def up_io_def)
  have rt: "\<lparr>rt_prefix = ''/api/user'', rt_backends = [?b]\<rparr> \<in> set (cfg_routes (gw_config wgateway))"
    by (simp add: wgateway_config(1)) (simp add: load_default_config_def)
  have b: "?b \<in> set (rt_backends \<lparr>rt_prefix = ''/api/user'', rt_backends = [?b]\<rparr>)" by simp
  have i: "0 < idle_cleanup_interval_sec (gw_config wgateway)" by (simp add: wgateway_config)
  have "is_healthy ?b (gr_health (fold timer_idle envs wrun))
      \<longleftrightarrow> (\<exists>e \<in> set (drop (length (fired 5000 (0 + ms_to_ns 5000) envs) - 3) (fired 5000 (0 + ms_to_ns 5000) envs)). tcp_check (rn_probe e ?b))" for envs
    by (rule configured_backend_health[OF wrun i rt b refl])
  moreover have "rn_steady (wenv t res) = t * 1000000000" for t res by (simp add: wenv_def)
  ultimately show ?thesis by (simp only: fired.simps) (simp add: probe ms_to_ns_def)
qed




end
