(* ===== verification/Gw_Main.thy ===== *)
theory Gw_Main
  imports Gw_Run Gw_Config_Valid Gw_Logger Gw_Socket
begin

text \<open>
  \<^verbatim>\<open>src/src/main.cpp\<close>: the command line, the logger, the configuration with its overrides, the filters and
  the call of \<^verbatim>\<open>Gateway::run\<close>. The file system, the clocks and the kernel are the environment. An uncaught
  exception of \<^verbatim>\<open>std::stoi\<close> and the use of a string that has been destroyed are errors; \<open>None\<close> is a
  configuration loader that does not return.
\<close>

section \<open>Command line\<close>

datatype main_error =
  Me_Freed_Path | Me_Invalid_Argument | Me_Out_Of_Range | Me_Log log_error | Me_Run run_error

text \<open>\<^verbatim>\<open>strcasecmp\<close> compares as \<^const>\<open>str_iequal\<close> does.\<close>

definition parse_log_level :: "string \<Rightarrow> log_level" where
  "parse_log_level s =
     (if str_iequal s ''trace'' then Ll_Trace
      else if str_iequal s ''debug'' then Ll_Debug
      else if str_iequal s ''info'' then Ll_Info
      else if str_iequal s ''warn'' \<or> str_iequal s ''warning'' then Ll_Warn
      else if str_iequal s ''error'' then Ll_Error
      else if str_iequal s ''fatal'' then Ll_Fatal
      else Ll_Info)"

text \<open>What \<^verbatim>\<open>config_path\<close> points to: the literal, or the buffer of a string that lived for one iteration.\<close>

datatype c_path = Path_Literal string | Path_Freed

record main_opts =
  mo_path :: c_path
  mo_level :: log_level

definition default_opts :: main_opts where
  "default_opts = \<lparr>mo_path = Path_Literal ''config.json'', mo_level = Ll_Info\<rparr>"

fun parse_options :: "string list \<Rightarrow> main_opts \<Rightarrow> main_opts" where
  "parse_options [] opts = opts"
| "parse_options (arg # args) opts =
     parse_options args
       (if prefix ''--config='' arg then opts\<lparr>mo_path := Path_Freed\<rparr>
        else if prefix ''--log-level='' arg then opts\<lparr>mo_level := parse_log_level (drop 12 arg)\<rparr>
        else opts)"

definition stoi :: "string \<Rightarrow> main_error + int" where
  "stoi s =
     (case strtol s of (val, last_off, erange) \<Rightarrow>
        if last_off = 0 then Inl Me_Invalid_Argument
        else if erange \<or> \<not> fits_int val then Inl Me_Out_Of_Range
        else Inr val)"

fun apply_overrides :: "string list \<Rightarrow> gateway_config \<Rightarrow> main_error + gateway_config" where
  "apply_overrides [] cfg = Inr cfg"
| "apply_overrides (arg # args) cfg =
     (if prefix ''--port='' arg then
        (case stoi (drop 7 arg) of Inl e \<Rightarrow> Inl e | Inr n \<Rightarrow> apply_overrides args (cfg\<lparr>listen_port := n\<rparr>))
      else if prefix ''--threads='' arg then
        (case stoi (drop 10 arg) of Inl e \<Rightarrow> Inl e | Inr n \<Rightarrow> apply_overrides args (cfg\<lparr>thread_count := n\<rparr>))
      else if prefix ''--timeout='' arg then
        (case stoi (drop 10 arg) of Inl e \<Rightarrow> Inl e | Inr n \<Rightarrow> apply_overrides args (cfg\<lparr>backend_timeout_ms := n\<rparr>))
      else apply_overrides args cfg)"

section \<open>The program\<close>

record main_env =
  me_fopen :: "string \<Rightarrow> file_io"
  me_first_token :: token_type
  me_log_env :: log_env
  me_log_files :: "string \<Rightarrow> bytes option"
  me_stamps :: "nat \<Rightarrow> string"
  me_kernel :: server_env
  me_sockets :: socket_env
  me_spawn :: "nat \<Rightarrow> bool"
  me_epfd :: int
  me_efd :: int
  me_now :: "nat \<Rightarrow> int"

definition log_path :: string where
  "log_path = ''/home/lin/API_gateway/logs/gateway.log''"

definition main_logger :: "main_env \<Rightarrow> log_level \<Rightarrow> log_error + logger" where
  "main_logger env lv =
     set_async_logger (me_log_env env) (Some (new_async_logger log_path (1024 * 1024 * 100) (me_log_files env)))
       (set_level lv (new_logger (me_log_files env)))"

definition load_or_default :: "main_env \<Rightarrow> string \<Rightarrow> logger \<Rightarrow> (logger \<times> gateway_config) option" where
  "load_or_default env path g =
     (case config_load (me_first_token env) path (me_fopen env path) of
        None \<Rightarrow> None
      | Some (Inr cfg) \<Rightarrow> Some (logger_log (me_stamps env 0) Ll_Info ''main.cpp'' 58 (''loaded config from '' @ path) g, cfg)
      | Some (Inl msg) \<Rightarrow>
          Some (logger_log (me_stamps env 0) Ll_Warn ''main.cpp'' 62 (''failed to load '' @ path @ '', using defaults'') g,
                load_default_config))"

definition build_gateway :: "gateway_config \<Rightarrow> gateway" where
  "build_gateway cfg =
     add_filter F_Logging (add_filter (F_RateLimit (new_rate_limiter 100 200)) (add_filter F_RequestId (new_gateway cfg)))"

definition read_path :: "c_path \<Rightarrow> main_error + string" where
  "read_path p = (case p of Path_Literal s \<Rightarrow> Inr s | Path_Freed \<Rightarrow> Inl Me_Freed_Path)"

definition run_gateway :: "main_env \<Rightarrow> logger \<Rightarrow> gateway_config \<Rightarrow> main_error + logger \<times> gw_run" where
  "run_gateway env g cfg =
     (case gateway_run (me_kernel env) (me_spawn env) (me_epfd env) (me_efd env)
             (fst (create_listen_socket (me_sockets env) (listen_port cfg))) (me_now env 0) (me_now env 1) (build_gateway cfg) of
        Inl e \<Rightarrow> Inl (Me_Run e)
      | Inr r \<Rightarrow>
          Inr (logger_log (me_stamps env 1) Ll_Info ''gateway.cpp'' 413
                 (''Gateway listening on port '' @ show_int (listen_port cfg) @ '' (reactor + ''
                    @ show_int (thread_count cfg) @ '' workers)'') g, r))"

text \<open>Everything up to the call of \<^verbatim>\<open>EventLoop::run\<close>.\<close>

definition gateway_main :: "main_env \<Rightarrow> string list \<Rightarrow> (main_error + logger \<times> gw_run) option" where
  "gateway_main env args =
     (let opts = parse_options args default_opts
      in case main_logger env (mo_level opts) of
           Inl e \<Rightarrow> Some (Inl (Me_Log e))
         | Inr g \<Rightarrow>
             (case read_path (mo_path opts) of
                Inl e \<Rightarrow> Some (Inl e)
              | Inr path \<Rightarrow>
                  (case load_or_default env path g of
                     None \<Rightarrow> None
                   | Some (g1, cfg) \<Rightarrow>
                       (case apply_overrides args cfg of
                          Inl e \<Rightarrow> Some (Inl e)
                        | Inr cfg1 \<Rightarrow> Some (run_gateway env g1 cfg1)))))"

section \<open>Lemmas\<close>

lemma parse_options_path:
  "mo_path (parse_options args opts) = (if list_ex (prefix ''--config='') args then Path_Freed else mo_path opts)"
  by (induction args opts rule: parse_options.induct) simp_all

lemma parse_options_level:
  "mo_level (parse_options args opts) =
     (case filter (prefix ''--log-level='') args of [] \<Rightarrow> mo_level opts | as \<Rightarrow> parse_log_level (drop 12 (last as)))"
proof (induction args arbitrary: opts)
  case (Cons arg args)
  have "\<not> (prefix ''--config='' arg \<and> prefix ''--log-level='' arg)" by (auto simp: prefix_def)
  then show ?case by (auto simp: Cons split: list.splits)
qed simp

lemma main_logger_starts: "\<exists>g. main_logger env lv = Inr g"
  by (simp add: main_logger_def set_async_logger_def retire_async_def set_level_def new_logger_def log_start_def open_file_def
      new_async_logger_def Let_def)

lemma stoi_fits: "stoi s = Inr n \<Longrightarrow> fits_int n"
  by (auto simp: stoi_def split: prod.splits if_splits)

lemma overrides_ok: "apply_overrides args cfg = Inr cfg' \<Longrightarrow> config_ok cfg \<Longrightarrow> config_ok cfg' \<and> cfg_routes cfg' = cfg_routes cfg"
proof (induction args arbitrary: cfg)
  case (Cons arg args)
  have set: "config_ok (cfg\<lparr>listen_port := n\<rparr>)" "config_ok (cfg\<lparr>thread_count := n\<rparr>)" "config_ok (cfg\<lparr>backend_timeout_ms := n\<rparr>)"
    if "fits_int n" for n
    using Cons.prems(2) that by (simp_all add: config_ok_def settings_of_def)
  from Cons.prems(1) obtain c where "apply_overrides args c = Inr cfg'" "config_ok c" "cfg_routes c = cfg_routes cfg"
    using set stoi_fits Cons.prems(2) by (auto split: if_splits sum.splits)
  then show ?case using Cons.IH by auto
qed simp

lemma default_config_ok: "config_ok load_default_config"
  by (simp add: config_ok_def settings_of_def load_default_config_def gateway_config_init_def fits_int_def valid_route_def
      valid_backend_def)

lemma load_or_default_ok: "load_or_default env path g = Some (g1, cfg) \<Longrightarrow> config_ok cfg"
  using config_load_ok default_config_ok by (auto simp: load_or_default_def split: option.splits sum.splits)

section \<open>Overrides as a specification\<close>

text \<open>The options of the command line that carry a number, and the number.\<close>

definition option_value :: "string \<Rightarrow> (main_error + int) option" where
  "option_value arg =
     (if prefix ''--port='' arg then Some (stoi (drop 7 arg))
      else if prefix ''--threads='' arg \<or> prefix ''--timeout='' arg then Some (stoi (drop 10 arg))
      else None)"

definition rejected :: "string list \<Rightarrow> main_error list" where
  "rejected args = concat (map (\<lambda>a. case option_value a of Some (Inl e) \<Rightarrow> [e] | _ \<Rightarrow> []) args)"

definition last_value :: "string \<Rightarrow> string list \<Rightarrow> int \<Rightarrow> int" where
  "last_value opt args d =
     (case filter (prefix opt) args of [] \<Rightarrow> d | as \<Rightarrow> (case option_value (last as) of Some (Inr n) \<Rightarrow> n | _ \<Rightarrow> d))"

lemma last_value_Cons:
  assumes "rejected args = []" and "opt = ''--port='' \<or> opt = ''--threads='' \<or> opt = ''--timeout=''"
  shows "last_value opt (arg # args) d =
    last_value opt args (if prefix opt arg then (case option_value arg of Some (Inr n) \<Rightarrow> n | _ \<Rightarrow> d) else d)"
proof (cases "filter (prefix opt) args")
  case Nil
  then show ?thesis by (simp add: last_value_def)
next
  case (Cons a as)
  then have "last (a # as) \<in> set (filter (prefix opt) args)" by (metis last_in_set list.discI)
  then have "last (a # as) \<in> set args" "prefix opt (last (a # as))" by simp_all
  note last = this
  have "option_value (last (a # as)) \<noteq> None" using assms(2) last(2) by (auto simp: option_value_def simp del: last.simps)
  moreover have "option_value (last (a # as)) \<noteq> Some (Inl e)" for e
    using assms(1) last(1) by (force simp: rejected_def simp del: last.simps)
  ultimately obtain n where "option_value (last (a # as)) = Some (Inr n)" by (metis option.exhaust sum.exhaust)
  then show ?thesis using Cons by (simp add: last_value_def)
qed

lemma apply_overrides_eq:
  "apply_overrides args cfg =
    (case rejected args of
       e # _ \<Rightarrow> Inl e
     | [] \<Rightarrow> Inr (cfg\<lparr>listen_port := last_value ''--port='' args (listen_port cfg),
                     thread_count := last_value ''--threads='' args (thread_count cfg),
                     backend_timeout_ms := last_value ''--timeout='' args (backend_timeout_ms cfg)\<rparr>))"
proof (induction args arbitrary: cfg)
  case Nil
  then show ?case by (simp add: rejected_def last_value_def)
next
  case (Cons arg args)
  have disj: "\<not> (prefix ''--port='' arg \<and> prefix ''--threads='' arg)" "\<not> (prefix ''--port='' arg \<and> prefix ''--timeout='' arg)"
    "\<not> (prefix ''--threads='' arg \<and> prefix ''--timeout='' arg)" by (auto simp: prefix_def)
  have rej: "rejected (arg # args) = (case option_value arg of Some (Inl e) \<Rightarrow> [e] | _ \<Rightarrow> []) @ rejected args"
    by (simp add: rejected_def)
  show ?case
  proof (cases "rejected args")
    case Nil
    then show ?thesis using disj
      by (auto simp: Cons rej last_value_Cons option_value_def split: sum.splits)
  next
    case (Cons e es)
    then show ?thesis using disj
      by (auto simp: Cons.IH rej option_value_def split: sum.splits)
  qed
qed

lemma gateway_start_listen: "gateway_start env epfd efd lfd cfg = Inr w \<Longrightarrow> sv_listen_fd (snd w) = lfd"
  by (auto simp: gateway_start_def tcp_server_start_def Let_def split: sum.splits prod.splits if_splits)

lemma gateway_main_steps:
  assumes "\<not> list_ex (prefix ''--config='') args"
  obtains g where "gateway_main env args =
    (case load_or_default env ''config.json'' g of
       None \<Rightarrow> None
     | Some (g1, cfg) \<Rightarrow>
         (case apply_overrides args cfg of Inl e \<Rightarrow> Some (Inl e) | Inr cfg1 \<Rightarrow> Some (run_gateway env g1 cfg1)))"
proof -
  let ?opts = "parse_options args default_opts"
  obtain g where g: "main_logger env (mo_level ?opts) = Inr g" using main_logger_starts by blast
  have "read_path (mo_path ?opts) = Inr ''config.json''"
    using assms by (simp add: parse_options_path default_opts_def read_path_def)
  then show ?thesis using that[of g] by (simp add: gateway_main_def Let_def g)
qed

lemma build_gateway_simps: "gw_config (build_gateway cfg) = cfg"
    "gw_filters (build_gateway cfg) = [F_RequestId, F_RateLimit (new_rate_limiter 100 200), F_Logging]"
    "gw_rate_limit_filter (build_gateway cfg) = Some 1"
  by (simp_all add: build_gateway_def add_filter_def new_gateway_def Let_def)

lemma run_gateway_starts:
  assumes "0 \<le> me_epfd env" and "0 \<le> me_efd env" and "\<And>n. me_spawn env n" and "\<bar>idle_cleanup_interval_sec cfg\<bar> * 1000 < 2 ^ 31"
  shows "\<exists>g' r. run_gateway env g cfg = Inr (g', r) \<and> gw_config (gr_gateway r) = cfg"
proof -
  let ?lfd = "fst (create_listen_socket (me_sockets env) (listen_port cfg))"
  obtain w where w: "gateway_start (me_kernel env) (me_epfd env) (me_efd env) ?lfd cfg = Inr w"
    using assms(1,2) by (simp add: gateway_start_def new_event_loop_def case_prod_beta Let_def)
  have ms: "\<not> cleanup_ms cfg < - (2 ^ 31)" "\<not> 2 ^ 31 \<le> cleanup_ms cfg" using assms(4) by (simp_all add: cleanup_ms_def)
  have "list_all (me_spawn env) [0..<n]" for n using assms(3) by (simp add: list_all_iff)
  then obtain r where "gateway_run (me_kernel env) (me_spawn env) (me_epfd env) (me_efd env) ?lfd (me_now env 0) (me_now env 1) (build_gateway cfg) = Inr r"
    "gr_gateway r = build_gateway cfg"
    using w ms unfolding gateway_run_def build_gateway_simps(1) by simp
  then show ?thesis unfolding run_gateway_def by (simp add: build_gateway_simps)
qed

section \<open>Properties\<close>

text \<open>C34: the numeric options of the command line. The program ends with the exception of the first option
  whose number \<^verbatim>\<open>std::stoi\<close> rejects; otherwise the port, the number of threads and the timeout are those
  of the last option that sets them, and every other setting is untouched.\<close>
theorem command_line_overrides:
  "apply_overrides args cfg =
    (case rejected args of
       e # _ \<Rightarrow> Inl e
     | [] \<Rightarrow> Inr (cfg\<lparr>listen_port := last_value ''--port='' args (listen_port cfg),
                     thread_count := last_value ''--threads='' args (thread_count cfg),
                     backend_timeout_ms := last_value ''--timeout='' args (backend_timeout_ms cfg)\<rparr>))"
  by (rule apply_overrides_eq)


text \<open>C19: what runs is well formed. When the program reaches the event loop, whatever the file, the command
  line and the kernel were, the routes of its gateway have prefixes and backends with hosts and ports,
  its settings are 32-bit integers, its filters are the request id, the rate limiter and the logger in
  this order with the rate limiter at the remembered place, and if the listening socket could be
  opened the reactor is in a consistent state.\<close>
theorem running_gateway_well_formed:
  assumes "gateway_main env args = Some (Inr (g, r))"
  shows "list_all valid_route (cfg_routes (gw_config (gr_gateway r)))
    \<and> list_all (fits_int \<circ> snd) (settings_of (gw_config (gr_gateway r)))
    \<and> gw_filters (gr_gateway r) = [F_RequestId, F_RateLimit (new_rate_limiter 100 200), F_Logging]
    \<and> gw_rate_limit_filter (gr_gateway r) = Some 1
    \<and> (0 \<le> sv_listen_fd (snd (gr_reactor r)) \<and> sv_listen_fd (snd (gr_reactor r)) \<noteq> me_efd env \<longrightarrow> reactor_inv (gr_reactor r))"
proof -
  from assms obtain g0 path g1 cfg cfg1 where l: "load_or_default env path g0 = Some (g1, cfg)"
    and ov: "apply_overrides args cfg = Inr cfg1" and run: "run_gateway env g1 cfg1 = Inr (g, r)"
    by (auto simp: gateway_main_def Let_def split: sum.splits option.splits prod.splits)
  from run obtain lfd t1 t2 where gr: "gateway_run (me_kernel env) (me_spawn env) (me_epfd env) (me_efd env) lfd t1 t2 (build_gateway cfg1) = Inr r"
    by (auto simp: run_gateway_def split: sum.splits)
  then have st: "gateway_start (me_kernel env) (me_epfd env) (me_efd env) lfd cfg1 = Inr (gr_reactor r)" "gr_gateway r = build_gateway cfg1"
    by (auto simp: gateway_run_def build_gateway_simps Let_def split: sum.splits if_splits)
  have "sv_listen_fd (snd (gr_reactor r)) = lfd" using gateway_start_listen[OF st(1)] .
  moreover have "config_ok cfg1" using overrides_ok[OF ov load_or_default_ok[OF l]] by simp
  ultimately show ?thesis using st gateway_start_inv[OF st(1)] by (simp add: build_gateway_simps config_ok_def)
qed

text \<open>the option \<^verbatim>\<open>--config\<close> does not work. Whatever file it names, \<^verbatim>\<open>config_path\<close> points into a string that
  was destroyed at the end of its loop iteration, and the program reads it.\<close>
theorem config_option_reads_freed_string:
  assumes "list_ex (prefix ''--config='') args"
  shows "gateway_main env args = Some (Inl Me_Freed_Path)"
proof -
  let ?opts = "parse_options args default_opts"
  obtain g where "main_logger env (mo_level ?opts) = Inr g" using main_logger_starts by blast
  moreover have "read_path (mo_path ?opts) = Inl Me_Freed_Path" using assms by (simp add: parse_options_path read_path_def)
  ultimately show ?thesis by (simp add: gateway_main_def Let_def)
qed

definition wmain :: main_env where
  "wmain = \<lparr>me_fopen = (\<lambda>_. F_NoOpen), me_first_token = TT_End, me_log_env = wlog_env, me_log_files = Map.empty,
     me_stamps = (\<lambda>_. ''2026-01-01 00:00:00.000''), me_kernel = wkernel,
     me_sockets = \<lparr>so_socket = 5, so_bind = 0, so_listen = 0, so_getfl = 2, so_setfl = (\<lambda>_. 0)\<rparr>,
     me_spawn = (\<lambda>_. True), me_epfd = 3, me_efd = 4, me_now = (\<lambda>_. 0)\<rparr>"

lemma wmain_facts: "config_load (me_first_token wmain) ''config.json'' (me_fopen wmain ''config.json'') = Some (Inl ''Failed to open file: config.json'')"
    "0 \<le> me_epfd wmain" "0 \<le> me_efd wmain" "me_spawn wmain n" "\<bar>idle_cleanup_interval_sec load_default_config\<bar> * 1000 < 2 ^ 31"
  by (simp_all add: wmain_def config_load_def load_default_config_def)



lemma wmain_runs: "\<exists>g r. gateway_main wmain [] = Some (Inr (g, r))"
proof -
  obtain g where "gateway_main wmain [] =
    (case load_or_default wmain ''config.json'' g of
       None \<Rightarrow> None
     | Some (g1, cfg) \<Rightarrow>
         (case apply_overrides [] cfg of Inl e \<Rightarrow> Some (Inl e) | Inr cfg1 \<Rightarrow> Some (run_gateway wmain g1 cfg1)))"
    using gateway_main_steps[of "[]" wmain] by auto
  moreover obtain g1 where "load_or_default wmain ''config.json'' g = Some (g1, load_default_config)"
    using wmain_facts(1) by (simp add: load_or_default_def)
  ultimately show ?thesis using run_gateway_starts[OF wmain_facts(2-5), of g1] by auto
qed

theorem running_gateway_well_formed_witness:
  "\<exists>g r. gateway_main wmain [] = Some (Inr (g, r)) \<and> gw_rate_limit_filter (gr_gateway r) = Some 1"
  using wmain_runs running_gateway_well_formed by blast

theorem config_option_reads_freed_string_witness:
  "gateway_main wmain [''--port=9000'', ''--config=/etc/gateway.json''] = Some (Inl Me_Freed_Path)"
  by (rule config_option_reads_freed_string) simp

end
