(* ===== verification/Gw_Exchange.thy ===== *)
theory Gw_Exchange
  imports Gw_Run Gw_Http_Framing
begin

text \<open>
  One request from the bytes on the socket to the bytes on the socket: the reactor reads and frames it,
  the pool runs \<^verbatim>\<open>process_request\<close>, the response is deferred to the loop and written at the next wake-up.
\<close>

section \<open>The job of a worker\<close>

text \<open>The lambda that the message callback submits: it ends with the response handed to the connection.\<close>

definition run_job :: "request_env \<Rightarrow> nat \<times> bytes \<Rightarrow> gateway \<times> reactor \<Rightarrow> (gateway \<times> reactor) option" where
  "run_job renv job s =
     (case (job, s) of ((cid, rq), (g, (el, sv))) \<Rightarrow>
        case process_request renv rq g of
          None \<Rightarrow> None
        | Some ((out, keep_alive), g') \<Rightarrow> Some (g', (conn_send cid out keep_alive el, sv)))"

section \<open>Reading\<close>

lemma on_read_complete:
  assumes "fresh_conn (cw_conn w) mx" and "cn_message_cb (cw_conn w)" and "d \<noteq> []" and "length d \<le> size_of_int mx"
    and "kInitialSize + kPrependableSize + length d < size_mod"
    and "parse d (new_parser mx) = Some (length d, q)" and "pstate q = PS_Complete" and "raw q = d"
  shows "\<exists>b. on_read now [Rd_Data d] w = Some (emit [Ef_Message (cn_fd (cw_conn w)) d]
    (w\<lparr>cw_conn := (cw_conn w)\<lparr>cn_last_active := now, cn_read_buf := b, cn_parser := parser_reset q, cn_state := Cs_Processing\<rparr>\<rparr>))"
proof -
  have len: "length (buf new_buffer) = kInitialSize + kPrependableSize" by (simp add: new_buffer_def)
  obtain stop b where rl: "read_loop mx [Rd_Data d] new_buffer = (stop, b)" by fastforce
  have stop: "stop \<noteq> Io_Fail" using read_loop_fits[OF new_buffer_ok(1), of d mx] assms(4,5) rl by (simp add: len new_buffer_ok(2))
  have b: "buffer_inv b" "readable b = d"
    using read_loop_ok[OF new_buffer_ok(1) _ rl] assms(5) stop by (simp_all add: len new_buffer_ok(2))
  have rs: "readable_size b \<noteq> 0" using b(2) assms(3) by (auto simp: readable_def)
  let ?w1 = "w\<lparr>cw_conn := (cw_conn w)\<lparr>cn_last_active := now, cn_read_buf := b\<rparr>\<rparr>"
  have "on_read now [Rd_Data d] w = try_parse_message ?w1"
    using assms(1) rl stop by (simp add: on_read_def Let_def fresh_conn_def del: read_loop.simps)
  also have "\<dots> = Some (emit [Ef_Message (cn_fd (cw_conn w)) d] (w\<lparr>cw_conn := (cw_conn w)\<lparr>cn_last_active := now,
      cn_read_buf := consume (length d) b, cn_parser := parser_reset q, cn_state := Cs_Processing\<rparr>\<rparr>))"
    using assms(1,2,6-8) b(2) rs by (subst try_parse_message.simps) (simp add: fresh_conn_def Let_def)
  finally show ?thesis by blast
qed

section \<open>Writing\<close>

text \<open>The socket takes \<open>k\<close> bytes in one or more writes.\<close>

fun takes :: "write_result list \<Rightarrow> nat \<Rightarrow> bool" where
  "takes ws 0 = True"
| "takes (Wr_Sent n # ws) (Suc k) = (0 < n \<and> takes ws (Suc k - n))"
| "takes _ (Suc k) = False"

lemma readable_size_length: "buffer_inv b \<Longrightarrow> readable_size b = length (readable b)"
  using length_readable[of b] by (simp add: readable_size_def buffer_inv_def)

lemma write_loop_takes:
  assumes "buffer_inv b" and "takes ws (length (readable b))"
  shows "fst (write_loop ws b s) = Io_Done"
  using assms
proof (induction ws arbitrary: b s)
  case Nil
  then have "length (readable b) = 0" by (metis takes.simps(3) old.nat.exhaust)
  then have "readable_size b = 0" using readable_size_length[OF Nil(1)] by simp
  then show ?case by (subst write_loop.simps) simp
next
  case (Cons x ws)
  show ?case
  proof (cases "readable_size b = 0")
    case True
    then show ?thesis by (subst write_loop.simps) simp
  next
    case False
    then obtain k where k: "length (readable b) = Suc k" using readable_size_length[OF Cons.prems(1)] by (metis old.nat.exhaust)
    then obtain n where n: "x = Wr_Sent n" "0 < n" "takes ws (Suc k - n)" using Cons.prems(2) by (cases x) auto
    define m where "m = min n (readable_size b)"
    define b1 where "b1 = snd (write_to_fd (int m) b)"
    have b1: "buffer_inv b1" "readable b1 = drop m (readable b)" using write_to_fd_ok[OF Cons.prems(1)] by (simp_all add: b1_def)
    have m: "0 < m" "length (readable b1) = Suc k - n"
      using n(2) k readable_size_length[OF Cons.prems(1)] by (simp_all add: m_def b1(2) del: length_readable)
    have "write_loop (x # ws) b s = write_loop ws b1 (s @ take m (readable b))"
      using False n(1) m(1) by (subst write_loop.simps) (simp add: Let_def flip: m_def b1_def)
    then show ?thesis using Cons.IH[OF b1(1)] n(3) m(2) by simp
  qed
qed

lemma send_complete:
  assumes "cn_state (cw_conn w) = Cs_Processing" and "cn_write_buf (cw_conn w) = new_buffer" and "out \<noteq> []"
    and "kInitialSize + kPrependableSize + length out < size_mod" and "takes (cw_writes w) (length out)"
    and "partial (cn_parser (cw_conn w)) = []"
  shows "\<exists>w'. send_internal ctl_ok now out keep w = Some w'
    \<and> cw_effects w' = cw_effects w @ [Ef_Sent out] @ (if keep then [] else [Ef_Shutdown (cn_fd (cw_conn w))])
    \<and> cn_state (cw_conn w') = (if keep then Cs_Reading else Cs_Closing) \<and> cn_fd (cw_conn w') = cn_fd (cw_conn w)
    \<and> readable (cn_write_buf (cw_conn w')) = []"
proof -
  let ?b = "append_bytes out new_buffer"
  have room: "buffer_room new_buffer out" using assms(4) by (simp add: buffer_room_def new_buffer_def)
  have b: "buffer_inv ?b" "readable ?b = out" using append_bytes_ok[OF new_buffer_ok(1) room] new_buffer_ok(2) by simp_all
  obtain ws b' sent where wl: "write_loop (cw_writes w) ?b [] = (Io_Done, ws, b', sent)"
    using write_loop_takes[OF b(1), of "cw_writes w" "[]"] assms(5) b(2) by (metis prod.collapse fst_conv)
  have b': "readable b' = []" "sent = out" using write_loop_ok[OF b(1) wl] b(2) by auto
  let ?w1 = "w\<lparr>cw_conn := (cw_conn w)\<lparr>cn_keep_alive := keep, cn_write_buf := ?b, cn_state := Cs_Writing\<rparr>,
      cw_loop := mod_fd (ctl_ok (cn_fd (cw_conn w))) (cn_fd (cw_conn w)) (EPOLLIN + EPOLLOUT + EPOLLET) (cw_loop w)\<rparr>"
  let ?w2 = "emit [Ef_Sent sent] (?w1\<lparr>cw_conn := (cw_conn ?w1)\<lparr>cn_last_active := now, cn_write_buf := b'\<rparr>, cw_writes := ws\<rparr>)"
  have "send_internal ctl_ok now out keep w = on_write ctl_ok now ?w1"
    using assms(1,2) by (simp add: send_internal_def Let_def)
  also have "\<dots> = finish_response ctl_ok ?w2" by (simp add: on_write_def wl Let_def)
  finally have eq: "send_internal ctl_ok now out keep w = finish_response ctl_ok ?w2" .
  have "partial (parser_reset (cn_parser (cw_conn w))) = []" using assms(6) by simp
  then show ?thesis unfolding eq by (simp add: finish_response_def Let_def emit_def b')
qed

section \<open>Through the reactor\<close>

lemma with_conn_eq:
  assumes "f \<lparr>cw_loop = el, cw_conn = sv_objects sv ! cid, cw_writes = sv_writes sv, cw_effects = []\<rparr> = Some cw"
  shows "with_conn cid f (el, sv) = Some (cw_loop cw, fold (apply_effect cid) (cw_effects cw)
    (sv\<lparr>sv_objects := (sv_objects sv)[cid := cw_conn cw], sv_writes := cw_writes cw\<rparr>))"
  using assms by (simp add: with_conn_def)

text \<open>A connection that has just been accepted.\<close>

definition accepted_conn :: "server \<Rightarrow> nat \<Rightarrow> int \<Rightarrow> int \<Rightarrow> bool" where
  "accepted_conn sv cid fd mx \<longleftrightarrow> cid < length (sv_objects sv) \<and> fresh_conn (sv_objects sv ! cid) mx
     \<and> cn_message_cb (sv_objects sv ! cid) \<and> cn_fd (sv_objects sv ! cid) = fd \<and> cn_write_buf (sv_objects sv ! cid) = new_buffer"

lemma read_event:
  assumes "accepted_conn sv cid fd mx" and "se_reads env fd = [Rd_Data d]" and "d \<noteq> []" and "length d \<le> size_of_int mx"
    and "kInitialSize + kPrependableSize + length d < size_mod"
    and "parse d (new_parser mx) = Some (length d, q)" and "pstate q = PS_Complete" and "raw q = d" and "partial q = []"
  shows "\<exists>sv1. on_conn_event env cid fd EPOLLIN (el, sv) = Some (el, sv1)
    \<and> sv_submitted sv1 = sv_submitted sv @ [(cid, d)] \<and> sv_sent sv1 = sv_sent sv \<and> sv_writes sv1 = sv_writes sv
    \<and> length (sv_objects sv1) = length (sv_objects sv) \<and> cn_state (sv_objects sv1 ! cid) = Cs_Processing
    \<and> cn_write_buf (sv_objects sv1 ! cid) = new_buffer \<and> partial (cn_parser (sv_objects sv1 ! cid)) = []"
proof -
  let ?cw = "\<lparr>cw_loop = el, cw_conn = sv_objects sv ! cid, cw_writes = sv_writes sv, cw_effects = []\<rparr>"
  obtain b where b: "on_read (se_now env) [Rd_Data d] ?cw = Some (emit [Ef_Message (cn_fd (cw_conn ?cw)) d]
      (?cw\<lparr>cw_conn := (cw_conn ?cw)\<lparr>cn_last_active := se_now env, cn_read_buf := b, cn_parser := parser_reset q, cn_state := Cs_Processing\<rparr>\<rparr>))"
    using on_read_complete[of ?cw mx d q "se_now env"] assms by (auto simp: accepted_conn_def)
  have ev: "on_conn_event env cid fd EPOLLIN (el, sv) = with_conn cid (on_read (se_now env) [Rd_Data d]) (el, sv)"
    by (auto simp: on_conn_event_def has_flag_def EPOLLIN_def EPOLLOUT_def EPOLLHUP_def EPOLLERR_def assms(2) split: option.splits)
  show ?thesis unfolding ev with_conn_eq[where f = "on_read (se_now env) [Rd_Data d]", OF b]
    using assms(1,9) by (simp add: emit_def accepted_conn_def)
qed

lemma send_event:
  assumes "cid < length (sv_objects sv)" and "cn_state (sv_objects sv ! cid) = Cs_Processing"
    and "cn_write_buf (sv_objects sv ! cid) = new_buffer" and "partial (cn_parser (sv_objects sv ! cid)) = []" and "out \<noteq> []"
    and "kInitialSize + kPrependableSize + length out < size_mod" and "takes (sv_writes sv) (length out)"
    and "pending_tasks el = []" and "deferred_tasks el = []"
  shows "\<exists>el' sv'. on_wakeup (run_conn_task env) (conn_send cid out keep el, sv) = Some (el', sv')
    \<and> sv_sent sv' = sv_sent sv @ [(cid, out)] \<and> sv_submitted sv' = sv_submitted sv
    \<and> cn_state (sv_objects sv' ! cid) = (if keep then Cs_Reading else Cs_Closing)"
proof -
  define el0 where "el0 = (wakeup_drain (conn_send cid out keep el))\<lparr>deferred_tasks := [], pending_tasks := []\<rparr>"
  let ?cw = "\<lparr>cw_loop = el0, cw_conn = sv_objects sv ! cid, cw_writes = sv_writes sv, cw_effects = []\<rparr>"
  obtain cw where cw: "send_internal (se_ctl_ok env) (se_now env) out keep ?cw = Some cw"
      "cw_effects cw = [Ef_Sent out] @ (if keep then [] else [Ef_Shutdown (cn_fd (sv_objects sv ! cid))])"
      "cn_state (cw_conn cw) = (if keep then Cs_Reading else Cs_Closing)"
    using send_complete[of ?cw out "se_ctl_ok env" "se_now env" keep] assms(2-7) by auto
  have "pending_tasks (wakeup_drain (conn_send cid out keep el)) = []"
      "deferred_tasks (wakeup_drain (conn_send cid out keep el)) = [Task_Send cid out keep]"
    using assms(8,9) by (simp_all add: conn_send_def loop_defer_def push_task_def wakeup_write_def wakeup_drain_def)
  then have "on_wakeup (run_conn_task env) (conn_send cid out keep el, sv) = run_conn_task env (Task_Send cid out keep) (el0, sv)"
    unfolding on_wakeup_def el0_def fst_conv snd_conv by (rule run_deferred_single)
  also have "\<dots> = Some (cw_loop cw, fold (apply_effect cid) (cw_effects cw)
      (sv\<lparr>sv_objects := (sv_objects sv)[cid := cw_conn cw], sv_writes := cw_writes cw\<rparr>))"
    using with_conn_eq[where f = "send_internal (se_ctl_ok env) (se_now env) out keep", OF cw(1)] by simp
  finally show ?thesis using assms(1) cw(2,3) by simp
qed

end
