(* ===== verification/Gw_Test_Backend.thy ===== *)
theory Gw_Test_Backend
  imports Gw_Backend
begin

text \<open>
  The test backends of \<^verbatim>\<open>src/backend\<close>: the keep-alive echo handler and the worker pool of
  \<^verbatim>\<open>backend_worker.h\<close>, and the accept loops of \<^verbatim>\<open>order_server.cpp\<close> and \<^verbatim>\<open>user_server.cpp\<close>. What \<^verbatim>\<open>recv\<close>
  returns is a list of results; when it is used up the handler is blocked in \<^verbatim>\<open>recv\<close>. The socket is
  blocking and the result of \<^verbatim>\<open>send\<close> is ignored, so a response is one entry of the list of sends.
\<close>

section \<open>The echo handler\<close>

datatype client_recv = Cr_Data bytes | Cr_Eof | Cr_Error

datatype read_result = Rq_Waiting | Rq_Closed | Rq_Request bytes "client_recv list"

fun read_request :: "bytes \<Rightarrow> client_recv list \<Rightarrow> read_result" where
  "read_request req_buf [] = Rq_Waiting"
| "read_request req_buf (Cr_Data d # s) =
     (if find_sub crlf2 (req_buf @ d) \<noteq> None then Rq_Request (req_buf @ d) s else read_request (req_buf @ d) s)"
| "read_request req_buf (Cr_Eof # s) = Rq_Closed"
| "read_request req_buf (Cr_Error # s) = Rq_Closed"

definition request_body :: "bytes \<Rightarrow> bytes" where
  "request_body req_buf = (case find_sub crlf2 req_buf of Some pos \<Rightarrow> drop (pos + 4) req_buf | None \<Rightarrow> [])"

definition client_close :: "bytes \<Rightarrow> bool" where
  "client_close req_buf \<longleftrightarrow>
     find_sub (crlf @ ''Connection: close'') req_buf \<noteq> None \<or> find_sub (crlf @ ''connection: close'') req_buf \<noteq> None"

definition echo_body :: "bytes \<Rightarrow> bytes \<Rightarrow> bytes" where
  "echo_body service_name body =
     ''{'' @ [DQUOTE] @ ''service'' @ [DQUOTE] @ '':'' @ [DQUOTE] @ service_name @ [DQUOTE] @ '',''
     @ [DQUOTE] @ ''body'' @ [DQUOTE] @ '':'' @ [DQUOTE] @ body @ [DQUOTE] @ ''}''"

definition echo_head :: "bool \<Rightarrow> nat \<Rightarrow> bytes" where
  "echo_head cl n =
     ''HTTP/1.1 200 OK'' @ crlf @ ''Content-Type: application/json'' @ crlf
     @ (if cl then ''Connection: close'' else ''Connection: keep-alive'') @ crlf @ ''Content-Length: '' @ show_nat n"

definition echo_response :: "bytes \<Rightarrow> bytes \<Rightarrow> bytes" where
  "echo_response service_name req_buf =
     (let resp_body = echo_body service_name (request_body req_buf)
      in echo_head (client_close req_buf) (length resp_body) @ crlf2 @ resp_body)"

text \<open>Whether the handler has closed the descriptor and returned, and what it has sent.\<close>

lemma read_request_shorter: "read_request b s = Rq_Request r s' \<Longrightarrow> length s' < length s"
  by (induction b s rule: read_request.induct) (auto split: if_splits)

function handle_client_keepalive :: "bytes \<Rightarrow> client_recv list \<Rightarrow> bool \<times> bytes list" where
  "handle_client_keepalive service_name s =
     (case read_request [] s of
        Rq_Waiting \<Rightarrow> (False, [])
      | Rq_Closed \<Rightarrow> (True, [])
      | Rq_Request req_buf s' \<Rightarrow>
          if client_close req_buf then (True, [echo_response service_name req_buf])
          else (case handle_client_keepalive service_name s' of
                  (closed, sent) \<Rightarrow> (closed, echo_response service_name req_buf # sent)))"
  by pat_completeness auto

termination
  by (relation "measure (length \<circ> snd)") (auto dest: read_request_shorter)

declare handle_client_keepalive.simps [simp del]

section \<open>The worker pool\<close>

record worker_pool =
  wp_queue :: "int list"
  wp_stop :: bool

definition new_worker_pool :: worker_pool where
  "new_worker_pool = \<lparr>wp_queue = [], wp_stop = False\<rparr>"

definition wp_submit :: "int \<Rightarrow> worker_pool \<Rightarrow> worker_pool" where
  "wp_submit fd p = p\<lparr>wp_queue := wp_queue p @ [fd]\<rparr>"

definition queue_size :: "worker_pool \<Rightarrow> nat" where
  "queue_size p = length (wp_queue p)"

definition wp_shutdown :: "worker_pool \<Rightarrow> worker_pool" where
  "wp_shutdown p = p\<lparr>wp_stop := True\<rparr>"

datatype worker_next = Wn_Wait | Wn_Exit | Wn_Handle int

text \<open>A worker in \<^verbatim>\<open>run\<close>, from the wait on \<^verbatim>\<open>cv_\<close> to the call of the handler.\<close>

definition wp_take :: "worker_pool \<Rightarrow> worker_next \<times> worker_pool" where
  "wp_take p =
     (if \<not> (wp_stop p \<or> wp_queue p \<noteq> []) then (Wn_Wait, p)
      else if wp_stop p \<and> wp_queue p = [] then (Wn_Exit, p)
      else (Wn_Handle (hd (wp_queue p)), p\<lparr>wp_queue := tl (wp_queue p)\<rparr>))"

section \<open>The servers\<close>

text \<open>\<^verbatim>\<open>std::max(4u, hw * 2)\<close> with 32-bit unsigned arithmetic, converted to \<^verbatim>\<open>int\<close>.\<close>

definition backend_workers :: "nat \<Rightarrow> nat" where
  "backend_workers hw = max 4 (hw * 2 mod 2 ^ 32)"

text \<open>The accept loop over the results of \<^verbatim>\<open>accept\<close>.\<close>

fun backend_accept_loop :: "int list \<Rightarrow> worker_pool \<Rightarrow> worker_pool" where
  "backend_accept_loop [] p = p"
| "backend_accept_loop (cfd # rs) p = backend_accept_loop rs (if cfd < 0 then p else wp_submit cfd p)"

definition order_server :: "client_recv list \<Rightarrow> bool \<times> bytes list" where
  "order_server = handle_client_keepalive ''order''"

definition user_server :: "client_recv list \<Rightarrow> bool \<times> bytes list" where
  "user_server = handle_client_keepalive ''user''"

section \<open>Lemmas\<close>

lemma CR_not_digit [simp]: "\<not> is_digit CR"
  by (simp add: is_digit_def CR_def)

lemma echo_head_framed: "framed_response (echo_head cl (length body)) body"
proof -
  let ?n = "show_nat (length body)"
  let ?c = "if cl then ''Connection: close'' else ''Connection: keep-alive''"
  let ?ls = "[''HTTP/1.1 200 OK'', ''Content-Type: application/json'', ?c, ''Content-Length: '' @ ?n]"
  have dg: "\<forall>c \<in> set ?n. is_digit c" using show_nat_digits by (simp add: list_all_iff)
  then have cr: "CR \<notin> set ?n" by auto
  have "find_sub crlf2 (unlines_crlf ?ls @ crlf @ body) = Some (length (unlines_crlf ?ls) - 2)"
    using cr by (intro find_crlf2_unlines) (auto simp: clean_line_def CR_def)
  moreover have "unlines_crlf ?ls @ crlf @ body = echo_head cl (length body) @ crlf2 @ body"
    by (simp add: echo_head_def crlf_def crlf2_def)
  moreover have "length (unlines_crlf ?ls) - 2 = length (echo_head cl (length body))"
    by (simp add: echo_head_def)
  ultimately have 1: "find_sub crlf2 (echo_head cl (length body) @ crlf2 @ body) = Some (length (echo_head cl (length body)))"
    by (simp only:)
  have nocr: "CR \<notin> set ''HTTP/1.1 200 OK''" "CR \<notin> set ''Content-Type: application/json''" "CR \<notin> set ?c"
    by (simp_all add: CR_def)
  have "find_sub cl_tag (echo_head cl (length body)) = Some (49 + length ?c)"
    unfolding echo_head_def cl_tag_def find_tag_line[OF nocr(1)] find_tag_line[OF nocr(2)] find_tag_line[OF nocr(3)]
    by (cases cl) simp_all
  moreover have "drop (49 + length ?c + 17) (echo_head cl (length body)) = CHR '' '' # ?n"
    by (cases cl) (simp_all add: echo_head_def crlf_def)
  moreover have "dropWhile (\<lambda>c. c = CHR '' '') ?n = ?n" "takeWhile is_digit ?n = ?n"
    using dg by (cases ?n; auto simp: is_digit_def takeWhile_eq_all_conv)+
  ultimately have "announced_length (echo_head cl (length body)) = length body"
    by (simp add: announced_length_def del: takeWhile_eq_all_conv)
  with 1 show ?thesis by (simp add: framed_response_def)
qed

text \<open>A request arrives in pieces of which only the last completes the header.\<close>

definition arrives :: "bytes list \<Rightarrow> bytes \<Rightarrow> bool" where
  "arrives xs r \<longleftrightarrow> concat xs = r \<and> xs \<noteq> [] \<and> find_sub crlf2 r \<noteq> None \<and> find_sub crlf2 (concat (butlast xs)) = None"

lemma find_sub_None_prefix: "find_sub p (s @ t) = None \<Longrightarrow> find_sub p s = None"
  using find_sub_append_Some[of p s _ t] by (cases "find_sub p s") auto

lemma read_request_pieces:
  assumes "xs \<noteq> []" and "find_sub crlf2 (b @ concat xs) \<noteq> None" and "find_sub crlf2 (b @ concat (butlast xs)) = None"
  shows "read_request b (map Cr_Data xs @ s) = Rq_Request (b @ concat xs) s"
  using assms
proof (induction xs arbitrary: b)
  case (Cons x xs)
  show ?case
  proof (cases "xs = []")
    case True
    then show ?thesis using Cons.prems by simp
  next
    case False
    then have "find_sub crlf2 ((b @ x) @ concat (butlast xs)) = None" using Cons.prems(3) by simp
    moreover from find_sub_None_prefix[OF this] have "find_sub crlf2 (b @ x) = None" .
    ultimately show ?thesis using Cons.IH[OF False, of "b @ x"] Cons.prems(2) by simp
  qed
qed simp

lemma read_request_arrives: "arrives xs r \<Longrightarrow> read_request [] (map Cr_Data xs @ s) = Rq_Request r s"
  using read_request_pieces[of xs "[]" s] by (auto simp: arrives_def)

lemma keepalive_step:
  assumes "arrives xs r"
  shows "handle_client_keepalive svc (map Cr_Data xs @ s) =
    (if client_close r then (True, [echo_response svc r])
     else map_prod id (Cons (echo_response svc r)) (handle_client_keepalive svc s))"
  by (subst handle_client_keepalive.simps) (simp add: read_request_arrives[OF assms] map_prod_def)

lemma backend_accept_queue: "wp_queue (backend_accept_loop rs p) = wp_queue p @ filter (\<lambda>fd. 0 \<le> fd) rs"
  by (induction rs arbitrary: p) (auto simp: wp_submit_def)

section \<open>Properties\<close>

text \<open>the echo backend answers every request of a connection, once and in order. However the requests
  are cut into pieces (as long as a header ends with the piece that completes its request), a client
  that sends them and then closes gets one response for each up to the first that asks to close, and
  the descriptor is closed.\<close>
theorem echo_backend_answers:
  assumes "list_all2 arrives xss rs"
  shows "handle_client_keepalive svc (concat (map (map Cr_Data) xss) @ [Cr_Eof]) =
    (True, map (echo_response svc) (takeWhile (\<lambda>r. \<not> client_close r) rs @ take 1 (dropWhile (\<lambda>r. \<not> client_close r) rs)))"
  using assms
proof (induction rule: list_all2_induct)
  case Nil
  show ?case by (subst handle_client_keepalive.simps) simp
next
  case (Cons xs xss r rs)
  then show ?case by (simp add: keepalive_step)
qed

definition wrequest :: bytes where
  "wrequest = ''POST /a HTTP/1.1'' @ crlf2 @ ''hi''"

theorem echo_backend_answers_witness:
  "handle_client_keepalive ''user'' [Cr_Data (take 10 wrequest), Cr_Data (drop 10 wrequest), Cr_Data wrequest, Cr_Eof] =
    (True, [echo_response ''user'' wrequest, echo_response ''user'' wrequest])"
proof -
  have "list_all2 arrives [[take 10 wrequest, drop 10 wrequest], [wrequest]] [wrequest, wrequest]" by code_simp
  moreover have "\<not> client_close wrequest" by code_simp
  ultimately show ?thesis
    using echo_backend_answers[of "[[take 10 wrequest, drop 10 wrequest], [wrequest]]" "[wrequest, wrequest]" "''user''"] by simp
qed

text \<open>the gateway receives the answers of the echo backend exactly. For every request and every body
  it echoes, and however the network cuts the response, \<^verbatim>\<open>recv_all\<close> of the gateway returns that response
  and nothing else, and the connection can be reused.\<close>
theorem echo_received_exactly:
  assumes "bc_open c" and "delivers script (echo_response svc req)"
  shows "\<exists>rest. recv_all (script @ later) now c = Some (echo_response svc req, conn_touch now c, rest @ later) \<and> delivers rest []"
  using recv_all_framed[OF echo_head_framed assms(1)] assms(2) by (simp add: echo_response_def Let_def)

theorem echo_received_exactly_witness:
  "\<exists>rest. recv_all ([R_Data (take 30 (echo_response ''user'' wrequest)), R_WouldBlock, R_Data (drop 30 (echo_response ''user'' wrequest))] @ []) 5 sample_conn
      = Some (echo_response ''user'' wrequest, conn_touch 5 sample_conn, rest @ []) \<and> delivers rest []"
  by (rule echo_received_exactly) code_simp+

end
