(* ===== verification/Spec2Isabelle.thy ===== *)
theory Spec2Isabelle
  imports Gw_Prelude Gw_Circuit_Breaker Gw_Config Gw_Router Gw_Utils Gw_Http Gw_Http_Parser
    Gw_Http_Framing Gw_Response Gw_Buffer Gw_Heap Gw_Timer Gw_Load_Balancer Gw_Filters Gw_Backend
    Gw_Pool Gw_Health Gw_Stats Gw_Gateway Gw_Config_Loader Gw_Config_Json Gw_Config_Valid
    Gw_Event_Loop Gw_Thread_Pool Gw_Connection Gw_Server Gw_Logger Gw_Socket Gw_Run Gw_Main
    Gw_Exchange Gw_Test_Backend
begin

text \<open>
  \<^bold>\<open>A verification development of the API gateway.\<close>

  The gateway is an HTTP reverse proxy in C++. One thread runs an epoll event loop that accepts
  connections, reads and frames requests and writes responses. A thread pool runs the requests: parse,
  filters, route, circuit breaker, load balancer, a pooled connection to a backend, rewriting of the
  response. Timers on the loop thread clean up idle state and probe the backends. All sources are under
  \<^verbatim>\<open>src/\<close>: implementation in \<^verbatim>\<open>src/src\<close>, headers in \<^verbatim>\<open>src/include/gateway\<close>, test backends in \<^verbatim>\<open>src/backend\<close>.

  \<^bold>\<open>Theories and sources.\<close> Each theory translates one part of the program. Definitions keep the names of
  the source where HOL allows it; every C++ class is a record, every method a function on it.

  \<^item> \<open>Gw_Prelude\<close>: the library functions the code uses on strings, 64-bit arithmetic, counting, and
    sorting by a strict weak order (locale \<open>strict_weak_order\<close>, interpreted on routes and on backends).
  \<^item> \<open>Gw_Config\<close>, \<open>Gw_Config_Loader\<close>, \<open>Gw_Config_Json\<close>, \<open>Gw_Config_Valid\<close>: \<^verbatim>\<open>core/config.cpp\<close> and
    \<^verbatim>\<open>core/config_loader.cpp\<close>. Round trip of printed configurations, well-formedness of whatever is loaded,
    the configurations that are cut short.
  \<^item> \<open>Gw_Utils\<close>, \<open>Gw_Socket\<close>: \<^verbatim>\<open>utils/utils.cpp\<close> and \<^verbatim>\<open>net/socket.cpp\<close>.
  \<^item> \<open>Gw_Http\<close>, \<open>Gw_Response\<close>: \<^verbatim>\<open>http/request.cpp\<close>, the one-shot parser of \<^verbatim>\<open>http/parser.cpp\<close> and
    \<^verbatim>\<open>http/response.cpp\<close>. Round trip of printed requests.
  \<^item> \<open>Gw_Http_Parser\<close>, \<open>Gw_Http_Framing\<close>: the class \<^verbatim>\<open>HttpParser\<close>. No byte is lost, the result does not depend
    on how the input is cut, whole requests with both kinds of body are recognised.
  \<^item> \<open>Gw_Buffer\<close>: \<^verbatim>\<open>net/buffer.cpp\<close> refines a queue of bytes (locale \<open>byte_queue\<close>).
  \<^item> \<open>Gw_Heap\<close>, \<open>Gw_Timer\<close>: the heap functions of the library (locale \<open>min_queue\<close>) and \<^verbatim>\<open>timer/timer.cpp\<close>.
  \<^item> \<open>Gw_Router\<close>, \<open>Gw_Load_Balancer\<close>, \<open>Gw_Circuit_Breaker\<close>, \<open>Gw_Filters\<close>, \<open>Gw_Stats\<close>, \<open>Gw_Health\<close>: the classes of
    these names in \<^verbatim>\<open>core\<close>, \<^verbatim>\<open>proxy\<close>, \<^verbatim>\<open>filter\<close> and \<^verbatim>\<open>monitor\<close>.
  \<^item> \<open>Gw_Backend\<close>, \<open>Gw_Pool\<close>: \<^verbatim>\<open>proxy/backend.cpp\<close>, \<^verbatim>\<open>proxy/backend_pool.cpp\<close> and \<^verbatim>\<open>proxy/proxy.cpp\<close>. Responses are
    received exactly, the pool accounts for every connection.
  \<^item> \<open>Gw_Gateway\<close>: \<^verbatim>\<open>Gateway::process_request\<close> and what it calls in \<^verbatim>\<open>core/gateway.cpp\<close>, over all of the above.
  \<^item> \<open>Gw_Event_Loop\<close>, \<open>Gw_Connection\<close>, \<open>Gw_Server\<close>: \<^verbatim>\<open>net/event_loop.cpp\<close>, \<^verbatim>\<open>net/connection.cpp\<close>,
    \<^verbatim>\<open>net/tcp_server.cpp\<close> and the callbacks of \<^verbatim>\<open>Gateway::run\<close>. The state is the pair of the loop and the server;
    the locale \<open>deferring_tasks\<close> relates a wake-up to the steps of the queue and is interpreted on the
    tasks of connections.
  \<^item> \<open>Gw_Thread_Pool\<close>: \<^verbatim>\<open>utils/thread_pool.cpp\<close> with its threads as a step relation.
  \<^item> \<open>Gw_Logger\<close>: \<^verbatim>\<open>logger/logger.cpp\<close> and \<^verbatim>\<open>logger/async_logger.cpp\<close>.
  \<^item> \<open>Gw_Run\<close>, \<open>Gw_Main\<close>: the rest of \<^verbatim>\<open>Gateway::run\<close> and \<^verbatim>\<open>main.cpp\<close>.
  \<^item> \<open>Gw_Exchange\<close> and this theory: one request through all of it.
  \<^item> \<open>Gw_Test_Backend\<close>: \<^verbatim>\<open>src/backend\<close>.

  \<^bold>\<open>Environment.\<close> System calls, clocks, the random generator and thread scheduling are not code of the
  repository. Their results are arguments: lists of results for \<^verbatim>\<open>recv\<close>, \<^verbatim>\<open>send\<close>, \<^verbatim>\<open>accept\<close> and \<^verbatim>\<open>epoll_wait\<close>,
  functions from descriptors to results, and times. Theorems hold for all of them unless a hypothesis
  says what the kernel promises, such as that \<^verbatim>\<open>accept\<close> returns a descriptor that is not in use. When a
  list is used up the code is blocked in that call.

  \<^bold>\<open>Concurrency.\<close> Code under a mutex is one step. The statistics, the connection pool, the deferred-task
  queue, the thread pool and the reactor are step relations, and their properties hold for every
  interleaving of the steps. The request pipeline is one function of the gateway state.

  \<^bold>\<open>Loops and fuel.\<close> There is no fuel. Loops that end are total functions with a termination proof. Loops
  that may not end (the parser, the configuration loader, \<^verbatim>\<open>try_parse_message\<close>, the accept loop) are partial
  functions, where \<^const>\<open>None\<close> means that the code does not return; properties that claim a result state it
  as \<^const>\<open>Some\<close>, and three theorems state inputs for which the result is \<^const>\<open>None\<close>.

  \<^bold>\<open>Integers.\<close> Indices and sizes of type \<^verbatim>\<open>size_t\<close> are natural numbers; where they may wrap, the operations
  \<^const>\<open>add64\<close> and \<^const>\<open>sub64\<close> say so, and the theorems bound what is in memory by \<^const>\<open>size_mod\<close>. Conversions
  to \<^verbatim>\<open>int\<close> are written out (\<^const>\<open>narrow_int\<close>, \<^const>\<open>to_int32\<close>, \<^const>\<open>size_of_int\<close>, \<^const>\<open>port16\<close>). The length in a
  \<^verbatim>\<open>Content-Length\<close> field of a backend response is the number that is printed; a number beyond 63 bits,
  for which the code is undefined, is not distinguished.

  \<^bold>\<open>Errors.\<close> Exceptions, failed calls and undefined behaviour that the code can reach are values: sums for
  the event loop, the logger and \<^verbatim>\<open>main\<close>, options and Booleans where the code has them.

  \<^bold>\<open>Not modelled.\<close> Destruction of the gateway object and memory reclamation; the formatting of time stamps
  and of floating-point averages, which are parameters; the socket options and \<^verbatim>\<open>inet_pton\<close>, of which only
  success matters; the log lines of the request path, which change nothing the code reads; data races on
  the unlocked lookups of \<^verbatim>\<open>get_circuit_breaker\<close> and \<^verbatim>\<open>get_or_create\<close>, which are taken as atomic; the scripts
  and the build files.
\<close>

section \<open>One exchange\<close>

lemma conn_send_callbacks: "callbacks (conn_send cid out keep el) = callbacks el" "wakeup_fd (conn_send cid out keep el) = wakeup_fd el"
  by (simp_all add: conn_send_def loop_defer_def push_task_def wakeup_write_def)

lemma dispatch_one:
  assumes "callbacks el fd = Some (Cb_User (Sc_Conn cid))"
  shows "dispatch (reactor_call env) (run_conn_task env) [(fd, events)] (el, sv) = on_conn_event env cid fd events (el, sv)"
  using assms by (simp split: option.splits)

lemma dispatch_wakeup:
  assumes "callbacks el (wakeup_fd el) = Some Cb_Wakeup"
  shows "dispatch (reactor_call env) (run_conn_task env) [(wakeup_fd el, events)] (el, sv) = on_wakeup (run_conn_task env) (el, sv)"
  using assms by (simp split: option.splits)

section \<open>Properties\<close>

text \<open>C1: a request is answered, from socket to socket. If a client sends a well-formed request within the
  size limit on a new connection and the worker that processes it returns, then the read event submits
  exactly this request to the pool, the job defers exactly one response, and the next wake-up writes
  exactly this response, which is not empty, to the socket of this client. The connection then reads
  the next request or closes as the pipeline decided, and the counts of the connection pool and the
  load balancer are as before.\<close>
theorem request_answered:
  assumes "reactor_inv (el, sv)" and "accepted_conn sv cid fd mx" and "pending_tasks el = []" and "deferred_tasks el = []"
    and "wf_start_line m u v" and "\<forall>h \<in> set hs. wf_header h" and "\<not> chunked_coding hs"
    and "map_of (header_map hs []) ''content-length'' = Some (show_nat (length body))" and "int (length body) \<le> int_max"
    and d_def: "d = render_request m u v hs body" and "length d \<le> size_of_int mx" and "kInitialSize + kPrependableSize + length d < size_mod"
    and "se_reads env fd = [Rd_Data d]"
    and "process_request renv d g = Some ((out, keep), g')" and "gw_pool g = Some p" and "lb_algo (gw_lb g) = LB_RoundRobin"
    and "\<forall>k. pe_active (bp_pools p k) + 1 < size_mod" and "\<forall>k. conn_counts (gw_lb g) k + 1 < size_mod"
    and "kInitialSize + kPrependableSize + length out < size_mod" and "takes (sv_writes sv) (length out)"
  shows "\<exists>sv1 s el2 sv2.
      dispatch (reactor_call env) (run_conn_task env) [(fd, EPOLLIN)] (el, sv) = Some (el, sv1)
    \<and> sv_submitted sv1 = sv_submitted sv @ [(cid, d)]
    \<and> run_job renv (cid, d) (g, (el, sv1)) = Some (g', s)
    \<and> dispatch (reactor_call env) (run_conn_task env) [(wakeup_fd el, EPOLLIN)] s = Some (el2, sv2)
    \<and> sv_sent sv2 = sv_sent sv @ [(cid, out)] \<and> out \<noteq> []
    \<and> cn_state (sv_objects sv2 ! cid) = (if keep then Cs_Reading else Cs_Closing)
    \<and> conn_counts (gw_lb g') = conn_counts (gw_lb g)
    \<and> (\<exists>p'. gw_pool g' = Some p' \<and> (\<forall>k. pe_active (bp_pools p' k) = pe_active (bp_pools p k)))"
proof -
  have open_conn: "open_on sv cid fd" using assms(2) by (auto simp: accepted_conn_def open_on_def fresh_conn_def is_open_def)
  have cb: "callbacks el fd = Some (Cb_User (Sc_Conn cid))" using reactor_invD(5)[OF assms(1)] open_conn by simp
  have wk: "callbacks el (wakeup_fd el) = Some Cb_Wakeup" using reactor_invD(6)[OF assms(1)] .
  obtain q where q: "parse d (new_parser mx) = Some (length d, q)" "pstate q = PS_Complete" "raw q = d" "partial q = []"
    using parse_plain_request[OF assms(5-9), of mx "[]"] assms(11) by (auto simp: d_def)
  have ne: "d \<noteq> []" by (simp add: d_def)
  obtain sv1 where 1: "on_conn_event env cid fd EPOLLIN (el, sv) = Some (el, sv1)" "sv_submitted sv1 = sv_submitted sv @ [(cid, d)]"
      "sv_sent sv1 = sv_sent sv" "sv_writes sv1 = sv_writes sv" "length (sv_objects sv1) = length (sv_objects sv)"
      "cn_state (sv_objects sv1 ! cid) = Cs_Processing" "cn_write_buf (sv_objects sv1 ! cid) = new_buffer"
      "partial (cn_parser (sv_objects sv1 ! cid)) = []"
    using read_event[OF assms(2,13) ne assms(11,12) q, of el] by blast
  have job: "run_job renv (cid, d) (g, (el, sv1)) = Some (g', (conn_send cid out keep el, sv1))"
    using assms(14) by (simp add: run_job_def)
  have book: "out \<noteq> []" "conn_counts (gw_lb g') = conn_counts (gw_lb g)"
      "\<exists>p'. gw_pool g' = Some p' \<and> (\<forall>k. pe_active (bp_pools p' k) = pe_active (bp_pools p k))"
    using request_bookkeeping[OF assms(14-18)] by simp_all
  have cid: "cid < length (sv_objects sv1)" using assms(2) 1(5) by (simp add: accepted_conn_def)
  obtain el2 sv2 where 2: "on_wakeup (run_conn_task env) (conn_send cid out keep el, sv1) = Some (el2, sv2)"
      "sv_sent sv2 = sv_sent sv1 @ [(cid, out)]" "cn_state (sv_objects sv2 ! cid) = (if keep then Cs_Reading else Cs_Closing)"
    using send_event[OF cid 1(6-8) book(1) assms(19) _ assms(3,4), of env keep] assms(20) 1(4) by auto
  have "dispatch (reactor_call env) (run_conn_task env) [(wakeup_fd el, EPOLLIN)] (conn_send cid out keep el, sv1) = Some (el2, sv2)"
    using dispatch_wakeup[of "conn_send cid out keep el" env EPOLLIN sv1] wk 2(1) by (simp only: conn_send_callbacks)
  moreover have "dispatch (reactor_call env) (run_conn_task env) [(fd, EPOLLIN)] (el, sv) = Some (el, sv1)"
    using dispatch_one[OF cb] 1(1) by simp
  ultimately show ?thesis using 1(2,3) job book 2(2,3) by metis
qed

definition wask :: bytes where
  "wask = render_request ''GET'' ''/a'' ''HTTP/1.1'' [(''Content-Length'', ''0'')] []"

definition wkernel_ask :: server_env where
  "wkernel_ask = wkernel\<lparr>se_reads := (\<lambda>_. [Rd_Data wask])\<rparr>"

definition wready :: server where
  "wready = (snd waccepted)\<lparr>sv_writes := [Wr_Sent 10, Wr_Sent 1000]\<rparr>"

definition wreply :: bytes where
  "wreply = response_to_string (make_404 False)"

lemma wask_facts: "wf_start_line ''GET'' ''/a'' ''HTTP/1.1''" "\<forall>h \<in> set [(''Content-Length'', ''0'')]. wf_header h"
    "\<not> chunked_coding [(''Content-Length'', ''0'')]"
    "map_of (header_map [(''Content-Length'', ''0'')] []) ''content-length'' = Some (show_nat (length ([] :: bytes)))"
  by code_simp+

lemma wask_length: "length wask = 38"
  by (simp add: wask_def render_request_def)

lemma wready_objects: "sv_objects (snd waccepted) = [set_close_callback (set_message_callback (new_connection 100 7 65536))]"
proof -
  have "max_request_size (sv_config (snd wstart)) = 65536"
    by (simp add: wstart_def gateway_start_def new_event_loop_def tcp_server_start_def new_server_def load_default_config_def)
  then show ?thesis
    using wstart_simps by (simp add: waccepted_def on_new_connection_def Let_def case_prod_beta wkernel_def)
qed

lemma reactor_inv_writes: "reactor_inv (el, sv) \<Longrightarrow> reactor_inv (el, sv\<lparr>sv_writes := ws\<rparr>)"
  by (auto simp: reactor_inv_def open_on_def)

lemma wready_facts: "reactor_inv (fst waccepted, wready)" "accepted_conn wready 0 7 65536"
    "sv_submitted wready = []" "sv_sent wready = []" "sv_writes wready = [Wr_Sent 10, Wr_Sent 1000]"
proof -
  show "reactor_inv (fst waccepted, wready)"
    unfolding wready_def by (rule reactor_inv_writes[OF waccepted_loop(1)])
  show "accepted_conn wready 0 7 65536"
    by (simp add: wready_def accepted_conn_def wready_objects fresh_conn_def set_close_callback_def set_message_callback_def
        new_connection_def)
  show "sv_submitted wready = []" "sv_sent wready = []" "sv_writes wready = [Wr_Sent 10, Wr_Sent 1000]"
    by (simp_all add: wready_def waccepted_def on_new_connection_def Let_def case_prod_beta wstart_def gateway_start_def
        new_event_loop_def tcp_server_start_def new_server_def)
qed

theorem request_answered_witness:
  "\<exists>sv1 s g' el2 sv2.
      dispatch (reactor_call wkernel_ask) (run_conn_task wkernel_ask) [(7, EPOLLIN)] (fst waccepted, wready) = Some (fst waccepted, sv1)
    \<and> sv_submitted sv1 = [(0, wask)]
    \<and> run_job Gw_Gateway.wenv (0, wask) (new_gateway load_default_config, (fst waccepted, sv1)) = Some (g', s)
    \<and> dispatch (reactor_call wkernel_ask) (run_conn_task wkernel_ask) [(4, EPOLLIN)] s = Some (el2, sv2)
    \<and> sv_sent sv2 = [(0, wreply)]"
proof -
  have "router_match (gw_router (new_gateway load_default_config)) ''/a'' = None" by code_simp
  then have run: "process_request Gw_Gateway.wenv wask (new_gateway load_default_config) = Some ((wreply, False), new_gateway load_default_config)"
    using one_shot_request[OF wask_facts(1,2), of "[]"]
    by (simp add: process_request_def wask_def wreply_def handle_internal_endpoint_def new_gateway_def route_and_forward_def)
  have "takes [Wr_Sent 10, Wr_Sent 1000] (length wreply)" "length wreply \<le> 1000" by code_simp+
  then have out: "takes (sv_writes wready) (length wreply)" "kInitialSize + kPrependableSize + length wreply < size_mod"
    by (simp_all add: wready_facts(5) kInitialSize_def kPrependableSize_def size_mod_def)
  have ask: "length wask \<le> size_of_int 65536" "kInitialSize + kPrependableSize + length wask < size_mod"
      "se_reads wkernel_ask 7 = [Rd_Data wask]" "int (length ([] :: bytes)) \<le> int_max"
    by (simp_all add: wask_length wkernel_ask_def size_of_int_def kInitialSize_def kPrependableSize_def size_mod_def int_max_def)
  have gw: "gw_pool (new_gateway load_default_config) = Some (new_backend_pool (u64 10) 60)"
      "lb_algo (gw_lb (new_gateway load_default_config)) = LB_RoundRobin"
      "\<forall>k. pe_active (bp_pools (new_backend_pool (u64 10) 60) k) + 1 < size_mod"
      "\<forall>k. conn_counts (gw_lb (new_gateway load_default_config)) k + 1 < size_mod"
    by (simp_all add: new_gateway_def load_default_config_def new_load_balancer_def new_backend_pool_def size_mod_def)
  from request_answered[OF wready_facts(1,2) waccepted_loop(2,3) wask_facts ask(4) wask_def ask(1-3) run gw out(2,1)]
  show ?thesis unfolding wready_facts(3,4) waccepted_simps(5) append_Nil by blast
qed

end
